(* ===== verification/Prelude.thy ===== *)
theory Prelude
  imports Main "HOL-Library.Word" "HOL-Library.Sublist"
begin

text \<open>
  What the component theories share: the C types of the program (\<open>int\<close> as a 32-bit word read
  with \<^term>\<open>sint\<close>, bytes, memory cells that may be indeterminate), faults as values and the
  sequencing of fallible calls, the C library calls the sources use (\<open>malloc\<close>, \<open>realloc\<close>,
  \<open>memcpy\<close>, \<open>strlen\<close>, \<open>std::to_string\<close>), the little-endian layout of an \<open>int\<close>, and two
  interfaces as locales: fixed-width codecs and transition systems with an inductive invariant.
\<close>

unbundle bit_operations_syntax

named_theorems fault_simps \<open>rewriting of fallible calls\<close>
named_theorems mem_simps \<open>rewriting of buffer accesses\<close>

section \<open>Machine types\<close>

type_synonym cint = "32 word"
type_synonym byte = "8 word"

text \<open>A memory cell of the heap: \<^term>\<open>None\<close> is a byte that was allocated and never written.\<close>

type_synonym cell = "byte option"

text \<open>
  The implicit conversion of an \<open>int\<close> argument to \<open>size_t\<close> (64 bits): sign extension, so a
  negative length becomes an enormous unsigned one.
\<close>

definition size_t :: "cint \<Rightarrow> nat" where
  "size_t x = unat (scast x :: 64 word)"

lemma size_t_eq_mod: "size_t x = nat (sint x mod 2 ^ 64)"
proof -
  have "(scast x :: 64 word) = word_of_int (sint x)" by (rule scast_eq)
  then show ?thesis by (simp only: size_t_def unat_eq_nat_uint uint_word_of_int) simp
qed

lemma sint_cint_bounds: "- (2 ^ 31) \<le> sint (x :: cint)" "sint (x :: cint) < 2 ^ 31"
  using sint_greater_eq [of x] sint_less [of x] by simp_all

lemma size_t_nonneg [simp]: "0 \<le> sint x \<Longrightarrow> size_t x = nat (sint x)"
  using sint_cint_bounds [of x] by (simp add: size_t_eq_mod)

lemma size_t_neg: "sint x < 0 \<Longrightarrow> 2 ^ 63 \<le> size_t x"
proof -
  assume neg: "sint x < 0"
  have "sint x mod 2 ^ 64 = (sint x + 2 ^ 64) mod 2 ^ 64" by simp
  also have "\<dots> = sint x + 2 ^ 64"
    using neg sint_cint_bounds [of x] by (intro mod_pos_pos_trivial) simp_all
  finally have "sint x mod 2 ^ 64 = sint x + 2 ^ 64" .
  then show ?thesis using sint_cint_bounds [of x] by (simp add: size_t_eq_mod)
qed

lemma sint_add_cint:
  "- (2 ^ 31) \<le> sint a + sint b \<Longrightarrow> sint a + sint b < 2 ^ 31 \<Longrightarrow>
    sint (a + b) = sint a + sint (b :: cint)"
  by (simp add: sint_word_ariths signed_take_bit_int_eq_self)

lemma sint_add_overflow:
  assumes "2 ^ 31 \<le> sint a + sint b"
  shows "sint (a + b) = sint a + sint (b :: cint) - 2 ^ 32"
proof -
  define k where "k = sint a + sint b - 2 ^ 32"
  have "signed_take_bit 31 k = k"
    using assms sint_cint_bounds [of a] sint_cint_bounds [of b]
    by (intro signed_take_bit_int_eq_self) (simp_all add: k_def)
  then have "sint (word_of_int k :: cint) = k" by (simp add: signed_of_int)
  moreover have "word_of_int k = a + b" by (simp add: k_def)
  ultimately have "sint (a + b) = k" by simp
  then show ?thesis by (simp only: k_def)
qed

lemma sint_of_nat_cint: "int n < 2 ^ 31 \<Longrightarrow> sint (of_nat n :: cint) = int n"
  by (simp add: signed_of_nat signed_take_bit_int_eq_self)

section \<open>Faults as values\<close>

text \<open>
  What C++ leaves undefined or turns into an abort is an explicit outcome here. A call that meets
  one of these stops the calling operation: \<open>assert\<close> aborts the process, an exception leaves the
  handler and ends the event loop, the others are undefined behaviour, after which nothing is claimed.
\<close>

datatype fault =
    Assert_Failed      \<comment> \<open>\<open>assert\<close> with a false argument\<close>
  | Null_Deref         \<comment> \<open>access through a null pointer\<close>
  | Out_Of_Bounds      \<comment> \<open>access outside an allocated object\<close>
  | Use_After_Free     \<comment> \<open>access to a node that was deleted\<close>
  | Uninit_Read        \<comment> \<open>a decision taken on an indeterminate value\<close>
  | Exception_Thrown   \<comment> \<open>an exception that leaves the handler\<close>

type_synonym 'a res = "fault + 'a"

definition rbind :: "'a res \<Rightarrow> ('a \<Rightarrow> 'b res) \<Rightarrow> 'b res" where
  "rbind m f = (case m of Inl e \<Rightarrow> Inl e | Inr x \<Rightarrow> f x)"

lemma rbind_Inl [simp, fault_simps]: "rbind (Inl e) f = Inl e"
  by (simp add: rbind_def)

lemma rbind_Inr [simp, fault_simps]: "rbind (Inr x) f = f x"
  by (simp add: rbind_def)

lemma rbind_eq_Inr_iff [fault_simps]: "rbind m f = Inr y \<longleftrightarrow> (\<exists>x. m = Inr x \<and> f x = Inr y)"
  by (cases m) simp_all

lemma rbind_eq_Inl_iff:
  "rbind m f = Inl e \<longleftrightarrow> m = Inl e \<or> (\<exists>x. m = Inr x \<and> f x = Inl e)"
  by (cases m) simp_all

lemma rbind_assoc: "rbind (rbind m f) g = rbind m (\<lambda>x. rbind (f x) g)"
  by (cases m) simp_all

lemma rbind_Inr_right [simp]: "rbind m Inr = m" "rbind m (\<lambda>x. Inr x) = m"
  by (cases m; simp)+

lemma rbind_cong [fundef_cong]:
  "m = m' \<Longrightarrow> (\<And>x. m' = Inr x \<Longrightarrow> f x = f' x) \<Longrightarrow> rbind m f = rbind m' f'"
  by (cases m') simp_all

text \<open>Checking a condition before going on.\<close>

definition check :: "bool \<Rightarrow> fault \<Rightarrow> unit res" where
  "check b e = (if b then Inr () else Inl e)"

lemma check_simps [simp, fault_simps]: "check True e = Inr ()" "check False e = Inl e"
  by (simp_all add: check_def)

lemma check_eq_Inr [simp]: "check b e = Inr u \<longleftrightarrow> b"
  by (simp add: check_def)

text \<open>Reading through a pointer-like option.\<close>

definition deref :: "fault \<Rightarrow> 'a option \<Rightarrow> 'a res" where
  "deref e p = (case p of None \<Rightarrow> Inl e | Some x \<Rightarrow> Inr x)"

lemma deref_simps [simp, fault_simps]: "deref e None = Inl e" "deref e (Some x) = Inr x"
  by (simp_all add: deref_def)

lemma deref_eq_Inr [simp]: "deref e p = Inr x \<longleftrightarrow> p = Some x"
  by (cases p) simp_all

text \<open>A property of the state a call ends in, if it ends in one.\<close>

fun res_inv :: "('a \<Rightarrow> bool) \<Rightarrow> 'a res \<Rightarrow> bool" where
  "res_inv P (Inr x) = P x"
| "res_inv P (Inl e) = True"

lemma res_inv_rbind [intro]:
  "res_inv P m \<Longrightarrow> (\<And>x. m = Inr x \<Longrightarrow> P x \<Longrightarrow> res_inv Q (f x)) \<Longrightarrow> res_inv Q (rbind m f)"
  by (cases m) auto

lemma res_invI: "(\<And>x. m = Inr x \<Longrightarrow> P x) \<Longrightarrow> res_inv P m"
  by (cases m) auto

lemma res_invD: "res_inv P m \<Longrightarrow> m = Inr x \<Longrightarrow> P x"
  by simp

section \<open>C memory\<close>

text \<open>
  \<open>malloc\<close> and \<open>realloc\<close>: a request above \<open>PTRDIFF_MAX\<close> returns NULL (\<^term>\<open>None\<close>); a smaller
  one is taken to succeed. Fresh cells are indeterminate; \<open>realloc\<close> keeps the common prefix.
\<close>

definition c_malloc :: "nat \<Rightarrow> cell list option" where
  "c_malloc n = (if n < 2 ^ 63 then Some (replicate n None) else None)"

definition c_realloc :: "cell list \<Rightarrow> nat \<Rightarrow> cell list option" where
  "c_realloc buf n =
     (if n < 2 ^ 63 then Some (take n buf @ replicate (n - length buf) None) else None)"

text \<open>
  \<open>memcpy(dst + off, src, n)\<close>, with \<open>dst\<close> the whole destination object and \<open>src\<close> the cells that
  the source pointer may reach.
\<close>

definition c_memcpy :: "cell list \<Rightarrow> nat \<Rightarrow> cell list \<Rightarrow> nat \<Rightarrow> cell list res" where
  "c_memcpy dst off src n =
     (if length src < n \<or> length dst < off + n then Inl Out_Of_Bounds
      else Inr (take off dst @ take n src @ drop (off + n) dst))"

text \<open>The cells \<open>[off, off + n)\<close> of an object.\<close>

definition slice :: "nat \<Rightarrow> nat \<Rightarrow> 'a list \<Rightarrow> 'a list" where
  "slice off n xs = take n (drop off xs)"

lemma length_malloc [mem_simps]: "c_malloc n = Some buf \<Longrightarrow> length buf = n"
  by (auto simp: c_malloc_def split: if_splits)

lemma length_realloc [mem_simps]: "c_realloc old n = Some buf \<Longrightarrow> length buf = n"
  by (auto simp: c_realloc_def split: if_splits)

lemma length_slice [simp]: "length (slice off n xs) = min n (length xs - off)"
  by (simp add: slice_def min.commute)

lemma memcpy_Inr_iff:
  "c_memcpy dst off src n = Inr dst' \<longleftrightarrow>
     n \<le> length src \<and> off + n \<le> length dst \<and> dst' = take off dst @ take n src @ drop (off + n) dst"
  by (auto simp: c_memcpy_def)

lemma memcpy_ok:
  "n \<le> length src \<Longrightarrow> off + n \<le> length dst \<Longrightarrow>
     c_memcpy dst off src n = Inr (take off dst @ take n src @ drop (off + n) dst)"
  by (simp add: memcpy_Inr_iff)

lemma memcpy_length [mem_simps]: "c_memcpy dst off src n = Inr dst' \<Longrightarrow> length dst' = length dst"
  by (auto simp: memcpy_Inr_iff)

lemma memcpy_slice_same:
  "c_memcpy dst off src n = Inr dst' \<Longrightarrow> slice off n dst' = take n src"
  by (auto simp: memcpy_Inr_iff slice_def)

lemma memcpy_slice_before:
  "c_memcpy dst off src n = Inr dst' \<Longrightarrow> a + m \<le> off \<Longrightarrow> slice a m dst' = slice a m dst"
  by (auto simp: memcpy_Inr_iff slice_def drop_take min_def)

lemma memcpy_slice_after:
  "c_memcpy dst off src n = Inr dst' \<Longrightarrow> off + n \<le> a \<Longrightarrow> slice a m dst' = slice a m dst"
  by (auto simp: memcpy_Inr_iff slice_def)

lemma slice_append3:
  "length xs = a \<Longrightarrow> length ys = b \<Longrightarrow> length zs = c \<Longrightarrow>
     slice 0 a (xs @ ys @ zs) = xs \<and> slice a b (xs @ ys @ zs) = ys \<and> slice (a + b) c (xs @ ys @ zs) = zs"
  by (auto simp: slice_def)

lemma slice_concat: "slice off (n + m) xs = slice off n xs @ slice (off + n) m xs"
  unfolding slice_def take_add by (simp add: add.commute)

section \<open>Layout of an int in memory\<close>

text \<open>
  The object representation of an \<open>int\<close> on the little-endian targets the program is built for.
\<close>

definition le32 :: "cint \<Rightarrow> byte list" where
  "le32 w = [ucast w, ucast (drop_bit 8 w), ucast (drop_bit 16 w), ucast (drop_bit 24 w)]"

fun of_le32 :: "byte list \<Rightarrow> cint option" where
  "of_le32 [a, b, c, d] =
     Some (ucast a OR push_bit 8 (ucast b) OR push_bit 16 (ucast c) OR push_bit 24 (ucast d))"
| "of_le32 _ = None"

lemma length_le32 [simp]: "length (le32 w) = 4"
  by (simp add: le32_def)

lemma of_le32_le32 [simp]: "of_le32 (le32 w) = Some w"
proof -
  have "ucast (ucast w :: byte) OR push_bit 8 (ucast (ucast (drop_bit 8 w) :: byte)) OR
      push_bit 16 (ucast (ucast (drop_bit 16 w) :: byte)) OR
      push_bit 24 (ucast (ucast (drop_bit 24 w) :: byte)) = w" (is "?l = w")
  proof (rule bit_word_eqI)
    fix n assume "n < LENGTH(32)"
    then have "n < 32" by simp
    then consider "n < 8" | "8 \<le> n" "n < 16" | "16 \<le> n" "n < 24" | "24 \<le> n" "n < 32"
      by linarith
    then show "bit ?l n \<longleftrightarrow> bit w n"
      by cases (auto simp: bit_simps)
  qed
  then show ?thesis by (simp add: le32_def)
qed

lemma bit_byte_high: "8 \<le> n \<Longrightarrow> bit (b :: byte) n = False"
  using bit_imp_le_length [of b n] by auto

lemma le32_of_le32: "of_le32 bs = Some w \<Longrightarrow> le32 w = bs"
proof (induction bs rule: of_le32.induct)
  case (1 a b c d)
  have "ucast w = a" "ucast (drop_bit 8 w) = b" "ucast (drop_bit 16 w) = c" "ucast (drop_bit 24 w) = d"
    using 1 by (auto intro!: bit_word_eqI simp: bit_simps bit_byte_high)
  then show ?case by (simp add: le32_def)
qed auto

lemma of_le32_length: "of_le32 bs = Some w \<Longrightarrow> length bs = 4"
  by (induction bs rule: of_le32.induct) auto

section \<open>Fixed-width codecs\<close>

text \<open>
  A record that is sent as its object representation is read back by taking as many bytes as it
  is wide. The client's lemma is \<open>split_stream\<close>: the record comes off the front of a byte stream
  and the rest is untouched.
\<close>

locale fixed_codec =
  fixes enc :: "'a \<Rightarrow> byte list"
    and dec :: "byte list \<Rightarrow> 'a option"
    and width :: nat
  assumes length_enc: "length (enc x) = width"
    and dec_enc: "dec (enc x) = Some x"
    and enc_dec: "dec bs = Some x \<Longrightarrow> enc x = bs"
begin

lemma enc_inject: "enc x = enc y \<longleftrightarrow> x = y"
  using dec_enc by (metis option.inject)

lemma split_stream:
  "dec (take width (enc x @ rest)) = Some x \<and> drop width (enc x @ rest) = rest"
  using length_enc [of x] dec_enc [of x] by simp

lemma prefix_free: "enc x @ r = enc y @ s \<Longrightarrow> x = y \<and> r = s"
  using split_stream by (metis option.inject)

lemma dec_width: "dec bs = Some x \<Longrightarrow> length bs = width"
  using enc_dec length_enc by blast

end

interpretation le32_codec: fixed_codec le32 of_le32 4
  by unfold_locales (simp_all add: le32_of_le32)

section \<open>Transition systems\<close>

inductive reach :: "('s \<Rightarrow> bool) \<Rightarrow> ('s \<Rightarrow> 's \<Rightarrow> bool) \<Rightarrow> 's \<Rightarrow> bool"
  for start :: "'s \<Rightarrow> bool" and step :: "'s \<Rightarrow> 's \<Rightarrow> bool" where
  reach_start: "start s \<Longrightarrow> reach start step s"
| reach_step: "reach start step s \<Longrightarrow> step s t \<Longrightarrow> reach start step t"

lemma reach_steps: "step\<^sup>*\<^sup>* s t \<Longrightarrow> reach start step s \<Longrightarrow> reach start step t"
  by (induction rule: rtranclp_induct) (auto intro: reach_step)

locale inductive_invariant =
  fixes start :: "'s \<Rightarrow> bool"
    and step :: "'s \<Rightarrow> 's \<Rightarrow> bool"
    and inv :: "'s \<Rightarrow> bool"
  assumes inv_start: "start s \<Longrightarrow> inv s"
    and inv_step: "inv s \<Longrightarrow> step s t \<Longrightarrow> inv t"
begin

lemma reach_inv: "reach start step s \<Longrightarrow> inv s"
  by (induction rule: reach.induct) (auto intro: inv_start inv_step)

lemma steps_inv: "step\<^sup>*\<^sup>* s t \<Longrightarrow> inv s \<Longrightarrow> inv t"
  by (induction rule: rtranclp_induct) (auto intro: inv_step)

end

section \<open>Strings of the C library\<close>

text \<open>\<open>strlen\<close> of the bytes a \<open>char*\<close> reaches: the bytes before the first NUL.\<close>

definition c_str :: "byte list \<Rightarrow> byte list" where
  "c_str bs = takeWhile (\<lambda>b. b \<noteq> 0) bs"

definition c_strlen :: "byte list \<Rightarrow> nat" where
  "c_strlen bs = length (c_str bs)"

lemma c_str_terminated: "0 \<notin> set s \<Longrightarrow> c_str (s @ 0 # rest) = s"
  by (induction s) (auto simp: c_str_def)

text \<open>\<open>std::to_string(int)\<close>: the decimal digits, with a minus sign for a negative value.\<close>

fun dec_digits :: "nat \<Rightarrow> string" where
  "dec_digits n = (if n < 10 then [char_of (48 + n)]
                   else dec_digits (n div 10) @ [char_of (48 + n mod 10)])"

declare dec_digits.simps [simp del]

definition to_string :: "int \<Rightarrow> string" where
  "to_string i = (if i < 0 then CHR ''-'' # dec_digits (nat (- i)) else dec_digits (nat i))"

text \<open>Reading decimal digits back, to state that \<^const>\<open>to_string\<close> loses nothing.\<close>

definition dec_value :: "string \<Rightarrow> nat" where
  "dec_value s = foldl (\<lambda>a c. 10 * a + (of_char c - 48)) 0 s"

lemma dec_digits_nonempty: "dec_digits n \<noteq> []"
  by (subst dec_digits.simps) simp

lemma dec_digits_set: "c \<in> set (dec_digits n) \<Longrightarrow> 48 \<le> (of_char c :: nat) \<and> (of_char c :: nat) < 58"
proof (induction n rule: dec_digits.induct)
  case (1 n)
  then show ?case
    by (cases "n < 10") (auto simp: dec_digits.simps [of n])
qed

lemma dec_value_digits: "dec_value (dec_digits n) = n"
proof (induction n rule: dec_digits.induct)
  case (1 n)
  then show ?case
    by (cases "n < 10") (auto simp: dec_digits.simps [of n] dec_value_def)
qed

lemma minus_notin_digits: "CHR ''-'' \<notin> set (dec_digits n)"
  using dec_digits_set [of "CHR ''-''" n] by auto

lemma to_string_inject: "to_string i = to_string j \<longleftrightarrow> i = j"
proof
  assume eq: "to_string i = to_string j"
  have hd: "hd (dec_digits n) \<noteq> CHR ''-''" for n
    using minus_notin_digits [of n] dec_digits_nonempty [of n] by (metis hd_in_set)
  have "i < 0 \<longleftrightarrow> j < 0"
    using eq hd by (auto simp: to_string_def split: if_splits) (metis list.sel(1))+
  then show "i = j"
    using eq by (auto simp: to_string_def split: if_splits)
      (metis dec_value_digits nat_eq_iff2 neg_0_le_iff_le linorder_not_less less_imp_le minus_minus
        eq_nat_nat_iff neg_equal_iff_equal)+
qed simp

end
