(* ===== verification/ClientMsg.thy ===== *)
theory ClientMsg
  imports Prelude
begin

text \<open>
  The message objects of \<open>include/client_msg.hpp\<close>: the handle a pool call returns, the status
  values, the 12-byte header \<open>RPC_MSG_HEAD\<close> and its layout, and \<open>RPCStruct\<close> with its buffer
  management (\<open>new_data\<close>), its accessors, its status and its timer. Calls on the Boost timer are
  recorded in order, with their arguments; Boost's reaction to them is not part of the object.
  Lemmas: what \<open>new_data\<close> leaves in the buffer, the layout of a message that was built or received,
  and when the receive region lies inside the buffer.
\<close>

section \<open>Data\<close>

record clientHandle =
  handle_i :: cint
  handle_r :: cint

definition clientHandle_default :: clientHandle where
  "clientHandle_default = \<lparr>handle_i = -1, handle_r = -1\<rparr>"

datatype client_status_type =
    CT_WRITE
  | CT_WRITE_OK
  | CT_READ
  | CT_READ_OK
  | CT_TIMEOUT
  | CT_ERASE_STATE
  | CT_ERASE_EXEC
  | CT_CONN
  | CT_CONN_CLOSE
  | CT_CONN_OK
  | CT_ERROR
  | CT_OK
  | CT_UNKNOWN

text \<open>
  \<open>RPCStructHead\<close> has the struct \<open>RPC_MSG_HEAD\<close> as its only member; its getters and setters are
  the selectors and updates of this record.
\<close>

record RPCStructHead =
  req_id :: cint
  body_size :: cint
  meta_size :: cint

definition RPCStructHead_new :: RPCStructHead where
  "RPCStructHead_new = \<lparr>req_id = -1, body_size = -1, meta_size = 8\<rparr>"

definition RPCStructHead_data :: "RPCStructHead \<Rightarrow> byte list" where
  "RPCStructHead_data h = le32 (req_id h) @ le32 (body_size h) @ le32 (meta_size h)"

definition RPCStructHead_data_len :: cint where
  "RPCStructHead_data_len = 12"

text \<open>The header whose object representation a run of bytes is (what reading into \<open>data()\<close> gives).\<close>

definition RPCStructHead_of_data :: "byte list \<Rightarrow> RPCStructHead option" where
  "RPCStructHead_of_data bs =
     (case (of_le32 (take 4 bs), of_le32 (take 4 (drop 4 bs)), of_le32 (drop 8 bs)) of
        (Some a, Some b, Some c) \<Rightarrow> Some \<lparr>req_id = a, body_size = b, meta_size = c\<rparr>
      | _ \<Rightarrow> None)"

text \<open>Calls on the \<open>boost::asio::deadline_timer\<close> member, in the order they are made.\<close>

datatype timer_call = Expires_At_Pos_Infin | Expires_From_Now cint | Async_Wait | Cancel

record RPCStruct =
  head_info :: RPCStructHead
  head_size :: cint
  head_offset :: cint
  meta_offset :: cint
  body_offset :: cint
  status :: client_status_type
  data_buf :: "cell list option"
  pre_body_size :: cint
  timer :: "timer_call list"
  erase_flag :: client_status_type

text \<open>The error code of a completion handler; zero is success.\<close>

type_synonym error_code = cint

text \<open>How an asynchronous operation ends: with the bytes it read, or with a non-zero error code.\<close>

datatype completion = Done "byte list" | Failed error_code

text \<open>\<open>char meta_s[9]="12345678"\<close>, the meta field both ends send.\<close>

definition meta_s :: "byte list" where
  "meta_s = [0x31, 0x32, 0x33, 0x34, 0x35, 0x36, 0x37, 0x38, 0]"

section \<open>Operations of RPCStruct\<close>

text \<open>The two constructors: the header is the default one, or the one given.\<close>

definition RPCStruct_ctor_head :: "RPCStructHead \<Rightarrow> cint \<Rightarrow> RPCStruct" where
  "RPCStruct_ctor_head rt pbs =
     (let hs = RPCStructHead_data_len; ho = 0; mo = ho + hs; bo = mo + meta_size rt
      in \<lparr>head_info = rt, head_size = hs, head_offset = ho, meta_offset = mo, body_offset = bo,
          status = CT_UNKNOWN, data_buf = None, pre_body_size = pbs, timer = [],
          erase_flag = CT_UNKNOWN\<rparr>)"

definition RPCStruct_ctor :: "cint \<Rightarrow> RPCStruct" where
  "RPCStruct_ctor pbs = RPCStruct_ctor_head RPCStructHead_new pbs"

text \<open>The default argument \<open>pbs=1024*2\<close>.\<close>

definition default_pbs :: cint where
  "default_pbs = 1024 * 2"

text \<open>
  Allocation of the buffer: \<open>malloc\<close> the first time, \<open>realloc\<close> when the body outgrew the space set
  aside, then \<open>assert\<close> and a copy of the header to the front. The sum of offset and size is an \<open>int\<close>.
\<close>

definition new_data :: "RPCStruct \<Rightarrow> RPCStruct res" where
  "new_data m =
     (let m1 =
        (if sint (pre_body_size m) < sint (body_size (head_info m)) then
           let m0 = m\<lparr>pre_body_size := body_size (head_info m)\<rparr>;
               n = size_t (body_offset m0 + pre_body_size m0)
           in (case data_buf m0 of
                 None \<Rightarrow> m0\<lparr>data_buf := c_malloc n\<rparr>
               | Some buf \<Rightarrow> m0\<lparr>data_buf := c_realloc buf n\<rparr>)
         else
           (case data_buf m of
              None \<Rightarrow> m\<lparr>data_buf := c_malloc (size_t (body_offset m + pre_body_size m))\<rparr>
            | Some buf \<Rightarrow> m))
      in case data_buf m1 of
           None \<Rightarrow> Inl Assert_Failed
         | Some buf \<Rightarrow>
             rbind (c_memcpy buf 0 (map Some (RPCStructHead_data (head_info m1))) (size_t (head_size m1)))
               (\<lambda>buf'. Inr (m1\<lparr>data_buf := Some buf'\<rparr>)))"

text \<open>A pointer into the buffer is the list of cells from there to its end.\<close>

definition at_offset :: "RPCStruct \<Rightarrow> cint \<Rightarrow> cell list res" where
  "at_offset m off =
     rbind (deref Null_Deref (data_buf m)) (\<lambda>buf.
     rbind (check (size_t off \<le> length buf) Out_Of_Bounds) (\<lambda>_.
     Inr (drop (size_t off) buf)))"

text \<open>\<open>memcpy(_data + off, msg, n)\<close> on an object whose buffer exists.\<close>

definition copy_in :: "RPCStruct \<Rightarrow> cint \<Rightarrow> cell list \<Rightarrow> cint \<Rightarrow> RPCStruct res" where
  "copy_in m off msg n =
     rbind (deref Null_Deref (data_buf m)) (\<lambda>buf.
     rbind (c_memcpy buf (size_t off) msg (size_t n)) (\<lambda>buf'.
     Inr (m\<lparr>data_buf := Some buf'\<rparr>)))"

definition RPCStruct_set_head :: "RPCStruct \<Rightarrow> RPCStructHead \<Rightarrow> RPCStruct res" where
  "RPCStruct_set_head m rt = new_data (m\<lparr>head_info := rt\<rparr>)"

definition RPCStruct_set_body :: "RPCStruct \<Rightarrow> cell list \<Rightarrow> RPCStruct res" where
  "RPCStruct_set_body m msg =
     rbind (new_data m) (\<lambda>m'. copy_in m' (body_offset m') msg (body_size (head_info m')))"

definition RPCStruct_body :: "RPCStruct \<Rightarrow> (cell list \<times> RPCStruct) res" where
  "RPCStruct_body m =
     rbind (new_data m) (\<lambda>m'. rbind (at_offset m' (body_offset m')) (\<lambda>p. Inr (p, m')))"

definition RPCStruct_data :: "RPCStruct \<Rightarrow> cell list res" where
  "RPCStruct_data m = deref Assert_Failed (data_buf m)"

definition RPCStruct_data_len :: "RPCStruct \<Rightarrow> cint" where
  "RPCStruct_data_len m = body_size (head_info m) + body_offset m"

definition RPCStruct_meta :: "RPCStruct \<Rightarrow> (cell list \<times> RPCStruct) res" where
  "RPCStruct_meta m =
     rbind (new_data m) (\<lambda>m'. rbind (at_offset m' (meta_offset m')) (\<lambda>p. Inr (p, m')))"

definition RPCStruct_set_meta :: "RPCStruct \<Rightarrow> cell list \<Rightarrow> RPCStruct res" where
  "RPCStruct_set_meta m msg =
     rbind (new_data m) (\<lambda>m'. copy_in m' (meta_offset m') msg (meta_size (head_info m')))"

definition RPCStruct_recv_msg_buff :: "RPCStruct \<Rightarrow> (cell list \<times> RPCStruct) res" where
  "RPCStruct_recv_msg_buff m =
     rbind (new_data m) (\<lambda>m'. rbind (at_offset m' (meta_offset m')) (\<lambda>p. Inr (p, m')))"

definition RPCStruct_recv_msg_len :: "RPCStruct \<Rightarrow> cint" where
  "RPCStruct_recv_msg_len m = body_size (head_info m) + meta_size (head_info m)"

definition do_init_timer :: "RPCStruct \<Rightarrow> cint \<Rightarrow> RPCStruct" where
  "do_init_timer m time =
     m\<lparr>timer := timer m @ [Expires_At_Pos_Infin, Expires_From_Now time, Async_Wait]\<rparr>"

definition do_close_timer :: "RPCStruct \<Rightarrow> RPCStruct" where
  "do_close_timer m = m\<lparr>timer := timer m @ [Cancel]\<rparr>"

text \<open>The destructor cancels the timer and frees the buffer.\<close>

definition RPCStruct_delete :: "RPCStruct \<Rightarrow> RPCStruct" where
  "RPCStruct_delete m = (do_close_timer m)\<lparr>data_buf := None\<rparr>"

definition RPCStruct_set_status :: "RPCStruct \<Rightarrow> client_status_type \<Rightarrow> RPCStruct" where
  "RPCStruct_set_status m v = (do_close_timer m)\<lparr>status := v\<rparr>"

definition RPCStruct_get_status :: "RPCStruct \<Rightarrow> client_status_type" where
  "RPCStruct_get_status m = status m"

definition set_timeout :: "RPCStruct \<Rightarrow> error_code \<Rightarrow> RPCStruct" where
  "set_timeout m error = (if error = 0 then RPCStruct_set_status m CT_TIMEOUT else m)"

text \<open>
  Printing a \<open>char*\<close>: bytes up to the first NUL. Running off the object or into bytes that were
  never written is a fault.
\<close>

fun cstr_at :: "cell list \<Rightarrow> byte list res" where
  "cstr_at [] = Inl Out_Of_Bounds"
| "cstr_at (None # cs) = Inl Uninit_Read"
| "cstr_at (Some b # cs) = (if b = 0 then Inr [] else rbind (cstr_at cs) (\<lambda>s. Inr (b # s)))"

text \<open>The three header fields, the meta and the body text, and the four offsets, as printed.\<close>

definition RPCStruct_showInfo ::
    "RPCStruct \<Rightarrow> (RPCStructHead \<times> byte list \<times> byte list \<times> cint list) res" where
  "RPCStruct_showInfo m =
     rbind (deref Null_Deref (data_buf m)) (\<lambda>buf.
     rbind (deref Uninit_Read (those (take 12 buf))) (\<lambda>hb.
     rbind (deref Out_Of_Bounds (RPCStructHead_of_data hb)) (\<lambda>head.
     rbind (rbind (at_offset m 12) cstr_at) (\<lambda>meta.
     rbind (rbind (at_offset m (12 + meta_size head)) cstr_at) (\<lambda>body.
     Inr (head, meta, body, [head_size m, head_offset m, meta_offset m, body_offset m]))))))"

text \<open>
  Bytes that arrive for a read issued on \<open>recv_msg_buff()\<close> are stored from that address on.
\<close>

definition store_recv :: "RPCStruct \<Rightarrow> byte list \<Rightarrow> RPCStruct res" where
  "store_recv m bytes =
     rbind (deref Null_Deref (data_buf m)) (\<lambda>buf.
     rbind (c_memcpy buf (size_t (meta_offset m)) (map Some bytes) (length bytes)) (\<lambda>buf'.
     Inr (m\<lparr>data_buf := Some buf'\<rparr>)))"

section \<open>The header\<close>

lemma length_head_data [simp]: "length (RPCStructHead_data h) = 12"
  by (simp add: RPCStructHead_data_def)

lemma head_of_data_data: "RPCStructHead_of_data (RPCStructHead_data h) = Some h"
  by (simp add: RPCStructHead_of_data_def RPCStructHead_data_def)

lemma head_data_of_data:
  "RPCStructHead_of_data bs = Some h \<Longrightarrow> RPCStructHead_data h = bs"
proof -
  assume "RPCStructHead_of_data bs = Some h"
  then obtain a b c where *: "of_le32 (take 4 bs) = Some a" "of_le32 (take 4 (drop 4 bs)) = Some b"
      "of_le32 (drop 8 bs) = Some c" and h: "h = \<lparr>req_id = a, body_size = b, meta_size = c\<rparr>"
    by (auto simp: RPCStructHead_of_data_def split: option.splits)
  have "RPCStructHead_data h = take 4 bs @ take 4 (drop 4 bs) @ drop 8 bs"
    using * [THEN le32_of_le32] h by (simp add: RPCStructHead_data_def)
  also have "\<dots> = bs"
    by (metis append_take_drop_id drop_drop numeral_Bit0)
  finally show ?thesis .
qed

interpretation head_codec: fixed_codec RPCStructHead_data RPCStructHead_of_data 12
  by unfold_locales (simp_all add: head_of_data_data head_data_of_data)

section \<open>The buffer\<close>

text \<open>
  Well-formed objects: the offsets are those of the constructor, no size is negative, the whole
  buffer can be addressed with an \<open>int\<close>, and the buffer, once there is one, has room for
  \<open>pre_body_size\<close> bytes of body.
\<close>

definition msg_wf :: "RPCStruct \<Rightarrow> bool" where
  "msg_wf m \<longleftrightarrow> head_size m = 12 \<and> head_offset m = 0 \<and> meta_offset m = 12 \<and>
     12 \<le> sint (body_offset m) \<and> 0 \<le> sint (pre_body_size m) \<and>
     sint (body_offset m) + sint (pre_body_size m) < 2 ^ 31 \<and>
     (\<forall>buf. data_buf m = Some buf \<longrightarrow>
        length buf = nat (sint (body_offset m) + sint (pre_body_size m)))"

text \<open>The body announced by the header can be addressed.\<close>

definition head_fits :: "RPCStruct \<Rightarrow> bool" where
  "head_fits m \<longleftrightarrow> sint (body_offset m) + sint (body_size (head_info m)) < 2 ^ 31"

definition grown :: "cell list option \<Rightarrow> nat \<Rightarrow> cell list" where
  "grown b n = (case b of None \<Rightarrow> replicate n None
                | Some buf \<Rightarrow> take n buf @ replicate (n - length buf) None)"

definition new_pre :: "RPCStruct \<Rightarrow> cint" where
  "new_pre m = (if sint (pre_body_size m) < sint (body_size (head_info m))
                then body_size (head_info m) else pre_body_size m)"

definition new_buf :: "RPCStruct \<Rightarrow> cell list" where
  "new_buf m = map Some (RPCStructHead_data (head_info m)) @
     drop 12 (grown (data_buf m) (nat (sint (body_offset m) + sint (new_pre m))))"

lemma length_grown [simp]: "length (grown b n) = n"
  by (simp add: grown_def min_def split: option.split)

lemma sint_new_pre: "sint (new_pre m) = max (sint (pre_body_size m)) (sint (body_size (head_info m)))"
  by (simp add: new_pre_def)

lemma size_t_sum:
  "0 \<le> sint a \<Longrightarrow> 0 \<le> sint b \<Longrightarrow> sint a + sint b < 2 ^ 31 \<Longrightarrow>
     size_t (a + b) = nat (sint a + sint b)"
  using sint_add_cint [of a b] by simp

lemma new_data_eq:
  assumes wf: "msg_wf m" and fits: "head_fits m"
  shows "new_data m = Inr (m\<lparr>pre_body_size := new_pre m, data_buf := Some (new_buf m)\<rparr>)"
proof -
  let ?n = "nat (sint (body_offset m) + sint (new_pre m))"
  have bo: "12 \<le> sint (body_offset m)" and hs: "head_size m = 12"
    using wf by (simp_all add: msg_wf_def)
  have np: "0 \<le> sint (new_pre m)" "sint (body_offset m) + sint (new_pre m) < 2 ^ 31"
    using wf fits by (auto simp: msg_wf_def head_fits_def sint_new_pre)
  have sz: "size_t (body_offset m + new_pre m) = ?n"
    using bo np by (intro size_t_sum) auto
  have lt: "?n < 2 ^ 63" "12 \<le> ?n" using bo np by auto
  have old: "grown (Some buf) ?n = buf" if "data_buf m = Some buf" "new_pre m = pre_body_size m" for buf
    using wf that by (simp add: msg_wf_def grown_def)
  have cp: "c_memcpy buf 0 (map Some (RPCStructHead_data h)) (size_t 12) =
      Inr (map Some (RPCStructHead_data h) @ drop 12 buf)" if "length buf = ?n" for buf h
    using lt that by (subst memcpy_ok) simp_all
  show ?thesis
  proof (cases "sint (pre_body_size m) < sint (body_size (head_info m))")
    case True
    then have "new_pre m = body_size (head_info m)" by (simp add: new_pre_def)
    then show ?thesis
      using True sz lt hs cp
      by (cases "data_buf m") (simp_all add: new_data_def Let_def c_malloc_def c_realloc_def new_buf_def grown_def)
  next
    case False
    then have "new_pre m = pre_body_size m" by (simp add: new_pre_def)
    then show ?thesis
      using False sz lt hs cp old wf
      by (cases "data_buf m") (simp_all add: new_data_def Let_def c_malloc_def new_buf_def grown_def msg_wf_def)
  qed
qed

text \<open>
  An object in step with its header: the buffer exists, starts with the header and has room for the
  body. Every accessor brings an object into this state, and leaves it alone once it is there.
\<close>

definition synced :: "RPCStruct \<Rightarrow> bool" where
  "synced m \<longleftrightarrow> msg_wf m \<and> sint (body_size (head_info m)) \<le> sint (pre_body_size m) \<and>
     (\<exists>buf. data_buf m = Some buf \<and> take 12 buf = map Some (RPCStructHead_data (head_info m)))"

lemma synced_wf: "synced m \<Longrightarrow> msg_wf m"
  by (simp add: synced_def)

lemma synced_fits: "synced m \<Longrightarrow> head_fits m"
  by (auto simp: synced_def head_fits_def msg_wf_def)

lemma synced_bufE:
  assumes "synced m"
  obtains buf where "data_buf m = Some buf"
    and "take 12 buf = map Some (RPCStructHead_data (head_info m))"
    and "length buf = nat (sint (body_offset m) + sint (pre_body_size m))"
  using assms by (auto simp: synced_def msg_wf_def)

lemma new_data_synced:
  assumes "msg_wf m" and "head_fits m"
  shows "synced (m\<lparr>pre_body_size := new_pre m, data_buf := Some (new_buf m)\<rparr>)"
  using assms
  by (auto simp: synced_def msg_wf_def head_fits_def sint_new_pre new_buf_def nat_add_distrib)

lemma new_data_idem:
  assumes "synced m"
  shows "new_data m = Inr m"
proof -
  from assms obtain buf where buf: "data_buf m = Some buf"
      "take 12 buf = map Some (RPCStructHead_data (head_info m))"
      "length buf = nat (sint (body_offset m) + sint (pre_body_size m))" by (rule synced_bufE)
  have pre: "new_pre m = pre_body_size m" using assms by (simp add: synced_def new_pre_def)
  have "new_buf m = take 12 buf @ drop 12 buf"
    using buf pre by (simp add: new_buf_def grown_def)
  then have "new_buf m = buf" by simp
  then show ?thesis
    using new_data_eq [OF synced_wf [OF assms] synced_fits [OF assms]] pre buf(1) by simp
qed

lemma synced_store:
  assumes "synced m" "data_buf m = Some buf" "length buf' = length buf" "take 12 buf' = take 12 buf"
  shows "synced (m\<lparr>data_buf := Some buf'\<rparr>)"
  using assms by (auto simp: synced_def msg_wf_def)

lemma copy_in_eq:
  assumes "synced m" "data_buf m = Some buf" "12 \<le> sint off" "0 \<le> sint n"
    "nat (sint n) \<le> length msg" "nat (sint off) + nat (sint n) \<le> length buf"
  defines "buf' \<equiv> take (nat (sint off)) buf @ take (nat (sint n)) msg @ drop (nat (sint off) + nat (sint n)) buf"
  shows "copy_in m off msg n = Inr (m\<lparr>data_buf := Some buf'\<rparr>) \<and> synced (m\<lparr>data_buf := Some buf'\<rparr>)
    \<and> length buf' = length buf"
proof -
  have "c_memcpy buf (nat (sint off)) msg (nat (sint n)) = Inr buf'"
    unfolding buf'_def using assms by (intro memcpy_ok) auto
  moreover have "length buf' = length buf" using assms by (simp add: buf'_def)
  moreover have "12 \<le> nat (sint off)" using assms by linarith
  then have "take 12 buf' = take 12 buf" using assms by (simp add: buf'_def min_def)
  ultimately show ?thesis
    using assms synced_store by (auto simp: copy_in_def)
qed

lemma synced_ctor:
  assumes "0 \<le> sint (meta_size rt)" "0 \<le> sint pbs" "12 + sint (meta_size rt) + sint pbs < 2 ^ 31"
  shows "msg_wf (RPCStruct_ctor_head rt pbs)"
    and "sint (body_offset (RPCStruct_ctor_head rt pbs)) = 12 + sint (meta_size rt)"
proof -
  have "sint (12 + meta_size rt) = 12 + sint (meta_size rt)"
    using assms sint_add_cint [of 12 "meta_size rt"] by simp
  then show "msg_wf (RPCStruct_ctor_head rt pbs)"
    "sint (body_offset (RPCStruct_ctor_head rt pbs)) = 12 + sint (meta_size rt)"
    using assms by (simp_all add: msg_wf_def RPCStruct_ctor_head_def RPCStructHead_data_len_def Let_def)
qed

section \<open>Messages that are built and sent\<close>

text \<open>
  The calls both ends make to build an outgoing message (\<open>newMsgBuf\<close> of the client, \<open>reply\<close> of the
  server): set the header, the body and the eight bytes of meta, in either order of the last two.
\<close>

lemma ctor_set_head:
  assumes "sint (body_size h) + 20 < 2 ^ 31"
  obtains m buf where "RPCStruct_set_head (RPCStruct_ctor default_pbs) h = Inr m"
    and "synced m" "head_info m = h" "body_offset m = 20" "meta_offset m = 12" "data_buf m = Some buf"
    and "status m = CT_UNKNOWN" "erase_flag m = CT_UNKNOWN" "timer m = []"
    and "length buf = nat (20 + max 2048 (sint (body_size h)))"
proof -
  let ?c = "RPCStruct_ctor default_pbs"
  let ?fresh = "?c\<lparr>head_info := h\<rparr>"
  let ?done = "?fresh\<lparr>pre_body_size := new_pre ?fresh, data_buf := Some (new_buf ?fresh)\<rparr>"
  have c: "body_offset ?c = 20" "meta_offset ?c = 12" "data_buf ?c = None" "pre_body_size ?c = 2048"
    "status ?c = CT_UNKNOWN" "erase_flag ?c = CT_UNKNOWN" "timer ?c = []"
    "head_size ?c = 12" "head_offset ?c = 0"
    by (simp_all add: RPCStruct_ctor_def RPCStruct_ctor_head_def RPCStructHead_new_def
        RPCStructHead_data_len_def default_pbs_def Let_def)
  have wf: "msg_wf ?fresh" and fits: "head_fits ?fresh"
    using assms c by (simp_all add: msg_wf_def head_fits_def)
  have "length (new_buf ?fresh) = nat (20 + max 2048 (sint (body_size h)))"
    using c by (simp add: new_buf_def sint_new_pre)
  moreover have "RPCStruct_set_head ?c h = Inr ?done"
    unfolding RPCStruct_set_head_def using wf fits by (rule new_data_eq)
  ultimately show thesis
    using that [of ?done "new_buf ?fresh"] new_data_synced [OF wf fits] c by simp
qed

definition wire :: "RPCStruct \<Rightarrow> cell list res" where
  "wire m = rbind (RPCStruct_data m) (\<lambda>buf.
     rbind (check (size_t (RPCStruct_data_len m) \<le> length buf) Out_Of_Bounds) (\<lambda>_.
     Inr (take (size_t (RPCStruct_data_len m)) buf)))"

lemma size_t_data_len:
  assumes "0 \<le> sint (body_size (head_info m))" "body_offset m = 20"
    "sint (body_size (head_info m)) + 20 < 2 ^ 31"
  shows "size_t (RPCStruct_data_len m) = nat (sint (body_size (head_info m))) + 20"
  using assms size_t_sum [of "body_size (head_info m)" 20]
  by (simp add: RPCStruct_data_len_def nat_add_distrib)

lemma set_body_then_meta:
  assumes m: "synced m" "body_offset m = 20" "meta_offset m = 12" "data_buf m = Some buf"
    and h: "meta_size (head_info m) = 8" "0 \<le> sint (body_size (head_info m))"
      "sint (body_size (head_info m)) + 20 < 2 ^ 31"
    and len: "nat (sint (body_size (head_info m))) + 20 \<le> length buf"
      "nat (sint (body_size (head_info m))) \<le> length msg" "8 \<le> length meta"
  shows "\<exists>buf'. rbind (RPCStruct_set_body m msg) (\<lambda>m. RPCStruct_set_meta m meta) = Inr (m\<lparr>data_buf := Some buf'\<rparr>)
    \<and> rbind (RPCStruct_set_meta m meta) (\<lambda>m. RPCStruct_set_body m msg) = Inr (m\<lparr>data_buf := Some buf'\<rparr>)
    \<and> synced (m\<lparr>data_buf := Some buf'\<rparr>)
    \<and> wire (m\<lparr>data_buf := Some buf'\<rparr>) =
        Inr (map Some (RPCStructHead_data (head_info m)) @ take 8 meta @ take (nat (sint (body_size (head_info m)))) msg)"
proof -
  let ?L = "body_size (head_info m)" and ?n = "nat (sint (body_size (head_info m)))"
  define b1 where "b1 = take 20 buf @ take ?n msg @ drop (20 + ?n) buf"
  define b2 where "b2 = take 12 buf @ take 8 meta @ drop 20 buf"
  define b where "b = take 12 buf @ take 8 meta @ take ?n msg @ drop (20 + ?n) buf"
  have 1: "copy_in m 20 msg ?L = Inr (m\<lparr>data_buf := Some b1\<rparr>)" "synced (m\<lparr>data_buf := Some b1\<rparr>)"
      "length b1 = length buf"
    using copy_in_eq [of m buf 20 ?L msg] m h len by (simp_all add: b1_def)
  have 2: "copy_in m 12 meta 8 = Inr (m\<lparr>data_buf := Some b2\<rparr>)" "synced (m\<lparr>data_buf := Some b2\<rparr>)"
      "length b2 = length buf"
    using copy_in_eq [of m buf 12 8 meta] m h len by (simp_all add: b2_def)
  have 3: "copy_in (m\<lparr>data_buf := Some b1\<rparr>) 12 meta 8 = Inr (m\<lparr>data_buf := Some b\<rparr>)"
      "synced (m\<lparr>data_buf := Some b\<rparr>)"
    using copy_in_eq [OF 1(2), of b1 12 8 meta] 1(3) len by (simp_all add: b_def b1_def)
  have 4: "copy_in (m\<lparr>data_buf := Some b2\<rparr>) 20 msg ?L = Inr (m\<lparr>data_buf := Some b\<rparr>)"
    using copy_in_eq [OF 2(2), of b2 20 ?L msg] 2(3) h len by (simp add: b_def b2_def add.commute)
  have hd: "take 12 buf = map Some (RPCStructHead_data (head_info m))"
    using m by (auto simp: synced_def)
  have "wire (m\<lparr>data_buf := Some b\<rparr>) = Inr (take (?n + 20) b)"
    using size_t_data_len [of "m\<lparr>data_buf := Some b\<rparr>"] m h len
    by (simp add: wire_def RPCStruct_data_def b_def)
  also have "take (?n + 20) b = take 12 buf @ take 8 meta @ take ?n msg"
    using len by (simp add: b_def)
  finally show ?thesis
    using 1 2 3 4 m h hd new_data_idem
    by (intro exI [of _ b]) (simp add: RPCStruct_set_body_def RPCStruct_set_meta_def)
qed

section \<open>Messages that are received\<close>

text \<open>
  The receive region of an object that is in step with its header runs from \<open>meta_offset\<close> to the
  end of the buffer. It is large enough when the announced meta is not longer than the room between
  \<open>meta_offset\<close> and \<open>body_offset\<close>, which was fixed at construction.
\<close>

lemma recv_buff_eq:
  assumes "synced m" "data_buf m = Some buf"
  shows "RPCStruct_recv_msg_buff m = Inr (drop 12 buf, m)"
proof -
  have "12 \<le> length buf" "meta_offset m = 12"
    using assms by (auto simp: synced_def msg_wf_def)
  then show ?thesis
    using assms by (simp add: RPCStruct_recv_msg_buff_def new_data_idem at_offset_def)
qed

lemma recv_region_fits:
  assumes m: "synced m" "RPCStruct_recv_msg_buff m = Inr (p, m')"
    and h: "0 \<le> sint (body_size (head_info m))" "0 \<le> sint (meta_size (head_info m))"
      "12 + sint (meta_size (head_info m)) \<le> sint (body_offset m)"
  shows "size_t (RPCStruct_recv_msg_len m) = nat (sint (body_size (head_info m)) + sint (meta_size (head_info m)))
    \<and> size_t (RPCStruct_recv_msg_len m) \<le> length p"
proof -
  from m(1) obtain buf where buf: "data_buf m = Some buf"
      "length buf = nat (sint (body_offset m) + sint (pre_body_size m))" by (rule synced_bufE)
  have wf: "msg_wf m" "sint (body_size (head_info m)) \<le> sint (pre_body_size m)"
    using m(1) by (simp_all add: synced_def)
  have p: "p = drop 12 buf" using m buf recv_buff_eq by auto
  have "size_t (RPCStruct_recv_msg_len m) = nat (sint (body_size (head_info m)) + sint (meta_size (head_info m)))"
    unfolding RPCStruct_recv_msg_len_def using wf h by (intro size_t_sum) (auto simp: msg_wf_def)
  then show ?thesis using p buf wf h by (auto simp: msg_wf_def)
qed

lemma store_recv_body:
  assumes m: "synced m" and h: "12 + sint (meta_size (head_info m)) = sint (body_offset m)"
      "0 \<le> sint (body_size (head_info m))"
    and bs: "length mt = nat (sint (meta_size (head_info m)))" "length bd = nat (sint (body_size (head_info m)))"
  shows "\<exists>m' rest. store_recv m (mt @ bd) = Inr m' \<and> synced m' \<and> m' = m\<lparr>data_buf := data_buf m'\<rparr>
    \<and> RPCStruct_body m' = Inr (map Some bd @ rest, m')
    \<and> wire m' = Inr (map Some (RPCStructHead_data (head_info m) @ mt @ bd))"
proof -
  let ?h = "head_info m"
  from m obtain buf where buf: "data_buf m = Some buf" "take 12 buf = map Some (RPCStructHead_data ?h)"
      "length buf = nat (sint (body_offset m) + sint (pre_body_size m))" by (rule synced_bufE)
  have wf: "meta_offset m = 12" "12 \<le> sint (body_offset m)" "sint (body_size ?h) \<le> sint (pre_body_size m)"
      "sint (body_offset m) + sint (pre_body_size m) < 2 ^ 31"
    using m by (simp_all add: synced_def msg_wf_def)
  define k where "k = length mt + length bd"
  define b where "b = take 12 buf @ map Some (mt @ bd) @ drop (12 + k) buf"
  have k: "k = nat (sint (meta_size ?h) + sint (body_size ?h))"
    using bs h wf by (simp add: k_def nat_add_distrib)
  have le: "12 + k \<le> length buf" using k buf h wf by linarith
  have st: "store_recv m (mt @ bd) = Inr (m\<lparr>data_buf := Some b\<rparr>)"
    using buf wf le by (simp add: store_recv_def memcpy_ok b_def k_def)
  have sy: "synced (m\<lparr>data_buf := Some b\<rparr>)"
    using m buf(1) le by (intro synced_store) (auto simp: b_def k_def)
  have bo: "size_t (body_offset m) = 12 + length mt" using wf h bs by simp
  have pre12: "length (take 12 buf) = 12" using le by simp
  have lb: "12 + length mt \<le> length b" using le by (simp add: b_def k_def)
  have dr: "drop (12 + length mt) b = map Some bd @ drop (12 + k) buf"
    using pre12 by (simp add: b_def)
  have body: "RPCStruct_body (m\<lparr>data_buf := Some b\<rparr>) = Inr (map Some bd @ drop (12 + k) buf, m\<lparr>data_buf := Some b\<rparr>)"
    using sy bo lb dr by (simp add: RPCStruct_body_def new_data_idem at_offset_def)
  have "size_t (RPCStruct_data_len (m\<lparr>data_buf := Some b\<rparr>)) = 12 + k"
    using size_t_sum [of "body_size ?h" "body_offset m"] wf h k by (simp add: RPCStruct_data_len_def)
  then have "wire (m\<lparr>data_buf := Some b\<rparr>) = Inr (map Some (RPCStructHead_data ?h @ mt @ bd))"
    using le pre12 buf(2) by (simp add: wire_def RPCStruct_data_def b_def k_def)
  then show ?thesis using st sy body by (intro exI [of _ "m\<lparr>data_buf := Some b\<rparr>"]) auto
qed

lemma recv_new_object:
  assumes h: "0 \<le> sint (meta_size h)" "0 \<le> sint (body_size h)"
      "12 + sint (meta_size h) + max 2048 (sint (body_size h)) < 2 ^ 31"
    and bs: "length mt = nat (sint (meta_size h))" "length bd = nat (sint (body_size h))"
  obtains p m m' rest where "RPCStruct_recv_msg_buff (RPCStruct_ctor_head h default_pbs) = Inr (p, m)"
    "size_t (RPCStruct_recv_msg_len m) = length (mt @ bd)" "length (mt @ bd) \<le> length p"
    "store_recv m (mt @ bd) = Inr m'" "RPCStruct_body m' = Inr (map Some bd @ rest, m')"
    "wire m' = Inr (map Some (RPCStructHead_data h @ mt @ bd))" "head_info m' = h"
proof -
  let ?c = "RPCStruct_ctor_head h default_pbs"
  let ?m = "?c\<lparr>pre_body_size := new_pre ?c, data_buf := Some (new_buf ?c)\<rparr>"
  have wf: "msg_wf ?c" and bo: "sint (body_offset ?c) = 12 + sint (meta_size h)"
    using synced_ctor [of h default_pbs] h by (simp_all add: default_pbs_def)
  have hi: "head_info ?c = h" by (simp add: RPCStruct_ctor_head_def Let_def)
  have fits: "head_fits ?c" using h hi bo by (simp add: head_fits_def)
  have nd: "new_data ?c = Inr ?m" and sy: "synced ?m"
    using new_data_eq [OF wf fits] new_data_synced [OF wf fits] by auto
  have buff: "RPCStruct_recv_msg_buff ?c = Inr (drop 12 (new_buf ?c), ?m)"
    using nd recv_buff_eq [OF sy] new_data_idem [OF sy] by (simp add: RPCStruct_recv_msg_buff_def)
  have len: "size_t (RPCStruct_recv_msg_len ?m) = length (mt @ bd)"
      "length (mt @ bd) \<le> length (drop 12 (new_buf ?c))"
    using recv_region_fits [OF sy recv_buff_eq [OF sy]] h hi bo bs by (auto simp: nat_add_distrib)
  obtain m' rest where "store_recv ?m (mt @ bd) = Inr m'" "RPCStruct_body m' = Inr (map Some bd @ rest, m')"
      "wire m' = Inr (map Some (RPCStructHead_data h @ mt @ bd))" "m' = ?m\<lparr>data_buf := data_buf m'\<rparr>"
    using store_recv_body [OF sy, of mt bd] h hi bo bs by auto
  moreover from this(4) have "head_info m' = h" using hi by (metis RPCStruct.select_convs(1) RPCStruct.surjective RPCStruct.update_convs(7) RPCStruct.update_convs(8))
  ultimately show thesis using that buff len by blast
qed


section \<open>Objects that hold a whole message\<close>

text \<open>
  The object's buffer starts with the header, the meta bytes and the body bytes, all written, and the
  body lies at \<open>body_offset\<close>. This is what building and receiving establish and what sending,
  printing and \<open>body()\<close> rely on.
\<close>

definition frame :: "RPCStruct \<Rightarrow> byte list \<Rightarrow> byte list \<Rightarrow> bool" where
  "frame m mt bd \<longleftrightarrow> synced m \<and> sint (meta_size (head_info m)) = int (length mt)
     \<and> sint (body_size (head_info m)) = int (length bd) \<and> sint (body_offset m) = 12 + int (length mt)
     \<and> (\<exists>rest. data_buf m = Some (map Some (RPCStructHead_data (head_info m) @ mt @ bd) @ rest))"

lemma frame_sizes:
  assumes "frame m mt bd"
  shows "size_t (body_offset m) = 12 + length mt" "size_t (meta_offset m) = 12" "meta_offset m = 12"
    "size_t (RPCStruct_data_len m) = 12 + length mt + length bd"
    "size_t (12 + meta_size (head_info m)) = 12 + length mt"
proof -
  have wf: "meta_offset m = 12" "12 \<le> sint (body_offset m)" "sint (body_size (head_info m)) \<le> sint (pre_body_size m)"
      "sint (body_offset m) + sint (pre_body_size m) < 2 ^ 31" "0 \<le> sint (pre_body_size m)"
    using assms by (simp_all add: frame_def synced_def msg_wf_def)
  have f: "sint (meta_size (head_info m)) = int (length mt)" "sint (body_size (head_info m)) = int (length bd)"
      "sint (body_offset m) = 12 + int (length mt)"
    using assms by (simp_all add: frame_def)
  show "meta_offset m = 12" by (fact wf(1))
  then show "size_t (meta_offset m) = 12" by simp
  show "size_t (body_offset m) = 12 + length mt" using f by simp
  show "size_t (RPCStruct_data_len m) = 12 + length mt + length bd"
    using size_t_sum [of "body_size (head_info m)" "body_offset m"] f wf
    by (simp add: RPCStruct_data_len_def)
  show "size_t (12 + meta_size (head_info m)) = 12 + length mt"
    using size_t_sum [of 12 "meta_size (head_info m)"] f wf by simp
qed

lemma frame_body:
  assumes "frame m mt bd"
  shows "\<exists>rest. RPCStruct_body m = Inr (map Some bd @ rest, m)"
  using assms frame_sizes [OF assms] new_data_idem [of m]
  by (auto simp: frame_def RPCStruct_body_def at_offset_def)

lemma frame_wire:
  assumes "frame m mt bd"
  shows "wire m = Inr (map Some (RPCStructHead_data (head_info m) @ mt @ bd))"
  using assms frame_sizes [OF assms]
  by (auto simp: frame_def wire_def RPCStruct_data_def)

lemma frameI:
  assumes "synced m" "wire m = Inr (map Some (RPCStructHead_data (head_info m) @ mt @ bd))"
    "sint (meta_size (head_info m)) = int (length mt)" "sint (body_size (head_info m)) = int (length bd)"
    "sint (body_offset m) = 12 + int (length mt)"
  shows "frame m mt bd"
proof -
  from assms(1) obtain buf where buf: "data_buf m = Some buf" by (rule synced_bufE)
  let ?n = "size_t (RPCStruct_data_len m)"
  have "take ?n buf = map Some (RPCStructHead_data (head_info m) @ mt @ bd)"
    using assms(2) buf by (auto simp: wire_def RPCStruct_data_def fault_simps)
  then have "buf = map Some (RPCStructHead_data (head_info m) @ mt @ bd) @ drop ?n buf"
    by (metis append_take_drop_id)
  then show ?thesis using assms buf by (auto simp: frame_def)
qed

lemma cstr_at_terminated:
  assumes "0 \<in> set bs"
  shows "cstr_at (map Some bs @ rest) = Inr (c_str bs)"
  using assms by (induction bs) (auto simp: c_str_def)

lemma cstr_at_unterminated:
  assumes "0 \<notin> set bs"
  shows "cstr_at (map Some bs @ rest) = rbind (cstr_at rest) (\<lambda>s. Inr (bs @ s))"
  using assms by (induction bs) (auto simp: rbind_assoc)

lemma those_map_Some [simp]: "those (map Some xs) = Some xs"
  by (induction xs) simp_all

text \<open>Printing a message whose body holds a NUL stays inside the bytes that were written.\<close>

lemma frame_showInfo:
  assumes f: "frame m mt bd" and nul: "0 \<in> set bd"
  shows "RPCStruct_showInfo m = Inr (head_info m, c_str (mt @ bd), c_str bd,
    [head_size m, head_offset m, meta_offset m, body_offset m])"
proof -
  from f obtain rest where b: "data_buf m = Some (map Some (RPCStructHead_data (head_info m) @ mt @ bd) @ rest)"
    by (auto simp: frame_def)
  have "cstr_at (map Some (mt @ bd) @ rest) = Inr (c_str (mt @ bd))"
    using nul by (intro cstr_at_terminated) simp
  moreover have "cstr_at (map Some bd @ rest) = Inr (c_str bd)"
    using nul by (rule cstr_at_terminated)
  ultimately show ?thesis
    using b frame_sizes [OF f]
    by (simp add: RPCStruct_showInfo_def at_offset_def head_of_data_data)
qed

text \<open>The two ways an object comes to hold a message: it is built, or it is received into.\<close>

lemma frame_built:
  assumes h: "meta_size h = 8" "sint (body_size h) = int (length bd)" "int (length bd) + 20 < 2 ^ 31"
    and src: "take (length bd) msg = map Some bd" "take 8 meta = map Some mt" "length mt = 8"
  obtains m0 m1 m2 m where "RPCStruct_set_head (RPCStruct_ctor default_pbs) h = Inr m0"
    "RPCStruct_set_body m0 msg = Inr m1" "RPCStruct_set_meta m1 meta = Inr m"
    "RPCStruct_set_meta m0 meta = Inr m2" "RPCStruct_set_body m2 msg = Inr m"
    "frame m mt bd" "head_info m = h" "status m = CT_UNKNOWN" "erase_flag m = CT_UNKNOWN" "timer m = []"
proof -
  have big: "sint (body_size h) + 20 < 2 ^ 31" using h by simp
  from ctor_set_head [OF big] obtain m0 buf where m0: "RPCStruct_set_head (RPCStruct_ctor default_pbs) h = Inr m0"
    "synced m0" "head_info m0 = h" "body_offset m0 = 20" "meta_offset m0 = 12" "data_buf m0 = Some buf"
    "status m0 = CT_UNKNOWN" "erase_flag m0 = CT_UNKNOWN" "timer m0 = []"
    "length buf = nat (20 + max 2048 (sint (body_size h)))" .
  have len: "length bd \<le> length msg" "8 \<le> length meta"
    using arg_cong [OF src(1), of length] arg_cong [OF src(2), of length] src(3) by simp_all
  have "nat (sint (body_size h)) + 20 \<le> length buf" using m0(10) h by simp
  from set_body_then_meta [OF m0(2,4-6), of msg meta] this h len big m0(3) obtain buf' where
    b: "rbind (RPCStruct_set_body m0 msg) (\<lambda>m. RPCStruct_set_meta m meta) = Inr (m0\<lparr>data_buf := Some buf'\<rparr>)"
      "rbind (RPCStruct_set_meta m0 meta) (\<lambda>m. RPCStruct_set_body m msg) = Inr (m0\<lparr>data_buf := Some buf'\<rparr>)"
      "synced (m0\<lparr>data_buf := Some buf'\<rparr>)"
      "wire (m0\<lparr>data_buf := Some buf'\<rparr>) = Inr (map Some (RPCStructHead_data h @ mt @ bd))"
    using src by auto
  have "frame (m0\<lparr>data_buf := Some buf'\<rparr>) mt bd"
    using b(3,4) m0 h src by (intro frameI) simp_all
  moreover obtain m1 m2 where "RPCStruct_set_body m0 msg = Inr m1"
      "RPCStruct_set_meta m1 meta = Inr (m0\<lparr>data_buf := Some buf'\<rparr>)"
      "RPCStruct_set_meta m0 meta = Inr m2" "RPCStruct_set_body m2 msg = Inr (m0\<lparr>data_buf := Some buf'\<rparr>)"
    using b(1,2) by (auto simp: fault_simps)
  ultimately show thesis using m0 that [of m0 m1 "m0\<lparr>data_buf := Some buf'\<rparr>" m2] by simp
qed

lemma frame_received:
  assumes m: "synced m" and h: "12 + sint (meta_size (head_info m)) = sint (body_offset m)"
    and bs: "sint (meta_size (head_info m)) = int (length mt)" "sint (body_size (head_info m)) = int (length bd)"
  obtains m' where "store_recv m (mt @ bd) = Inr m'" "frame m' mt bd" "m' = m\<lparr>data_buf := data_buf m'\<rparr>"
    "head_info m' = head_info m"
proof -
  have "0 \<le> sint (body_size (head_info m))" "length mt = nat (sint (meta_size (head_info m)))"
    "length bd = nat (sint (body_size (head_info m)))" using bs by simp_all
  from store_recv_body [OF m h this] obtain m' where
    r: "store_recv m (mt @ bd) = Inr m'" "synced m'" "m' = m\<lparr>data_buf := data_buf m'\<rparr>"
      "wire m' = Inr (map Some (RPCStructHead_data (head_info m) @ mt @ bd))" by blast
  have hb: "head_info m' = head_info m" "body_offset m' = body_offset m"
    using arg_cong [OF r(3), of head_info] arg_cong [OF r(3), of body_offset] by simp_all
  have "frame m' mt bd" using r(1,2,4) hb h bs by (intro frameI) auto
  with r hb that show thesis by blast
qed

text \<open>The object a header alone gives: its receive region is exactly what the header announces, or 2048
  bytes of body when that is more.\<close>

lemma fresh_receive:
  assumes v: "sint (meta_size h) = int (length mt)" "sint (body_size h) = int (length bd)"
      "12 + int (length mt) + max 2048 (int (length bd)) < 2 ^ 31"
  obtains p m where "RPCStruct_recv_msg_buff (RPCStruct_ctor_head h default_pbs) = Inr (p, m)"
    "synced m" "head_info m = h" "12 + sint (meta_size h) = sint (body_offset m)"
    "size_t (RPCStruct_recv_msg_len m) = length mt + length bd"
    "data_buf m = Some (map Some (RPCStructHead_data h) @ replicate (length mt + max 2048 (length bd)) None)"
proof -
  let ?c = "RPCStruct_ctor_head h default_pbs"
  let ?m = "?c\<lparr>pre_body_size := new_pre ?c, data_buf := Some (new_buf ?c)\<rparr>"
  have wf: "msg_wf ?c" and bo: "sint (body_offset ?c) = 12 + int (length mt)"
    using synced_ctor [of h default_pbs] v by (simp_all add: default_pbs_def)
  have hi: "head_info ?c = h" "pre_body_size ?c = 2048" "data_buf ?c = None"
    by (simp_all add: RPCStruct_ctor_head_def Let_def default_pbs_def)
  have fits: "head_fits ?c" using v hi bo by (simp add: head_fits_def)
  have sy: "synced ?m" and nd: "new_data ?c = Inr ?m"
    using new_data_synced [OF wf fits] new_data_eq [OF wf fits] by auto
  have "RPCStruct_recv_msg_buff ?c = Inr (drop 12 (new_buf ?c), ?m)"
    using nd recv_buff_eq [OF sy] new_data_idem [OF sy] by (simp add: RPCStruct_recv_msg_buff_def)
  moreover have "size_t (RPCStruct_recv_msg_len ?m) = length mt + length bd"
    using size_t_sum [of "body_size h" "meta_size h"] v hi by (simp add: RPCStruct_recv_msg_len_def)
  moreover have "new_buf ?c = map Some (RPCStructHead_data h) @ replicate (length mt + max 2048 (length bd)) None"
  proof -
    have "nat (12 + int (length mt) + max 2048 (int (length bd))) - 12 = length mt + max 2048 (length bd)"
      by (simp add: max_def nat_add_distrib)
    then show ?thesis using bo hi v by (simp add: new_buf_def grown_def sint_new_pre)
  qed
  ultimately show thesis using that sy bo hi v by simp
qed

section \<open>Properties\<close>


text \<open>C17: \<open>new_data\<close> on a well-formed object whose announced body can be addressed always succeeds,
  keeps the object well-formed, leaves the current header at the front and room for the announced
  body behind \<open>body_offset\<close>, keeps every byte that was in the buffer after the header, and is
  idempotent.\<close>

theorem new_data_correct:
  assumes "msg_wf m" and "head_fits m"
  shows "\<exists>m' buf. new_data m = Inr m' \<and> msg_wf m' \<and> data_buf m' = Some buf
    \<and> take 12 buf = map Some (RPCStructHead_data (head_info m))
    \<and> sint (body_offset m) + sint (body_size (head_info m)) \<le> int (length buf)
    \<and> (\<forall>old. data_buf m = Some old \<longrightarrow> slice 12 (length old - 12) buf = drop 12 old)
    \<and> new_data m' = Inr m'"
proof -
  let ?r = "m\<lparr>pre_body_size := new_pre m, data_buf := Some (new_buf m)\<rparr>"
  have sy: "synced ?r" using assms by (rule new_data_synced)
  have keep: "slice 12 (length old - 12) (new_buf m) = drop 12 old" if "data_buf m = Some old" for old
  proof -
    have "length old \<le> nat (sint (body_offset m) + sint (new_pre m))"
      using assms(1) that by (simp add: msg_wf_def sint_new_pre)
    then show ?thesis using that by (simp add: slice_def new_buf_def grown_def)
  qed
  have room: "sint (body_offset m) + sint (body_size (head_info m)) \<le> int (length (new_buf m))"
    using assms(1) by (simp add: new_buf_def msg_wf_def sint_new_pre)
  show ?thesis
    using new_data_eq [OF assms] sy keep room new_data_idem [OF sy]
    by (intro exI [of _ ?r] exI [of _ "new_buf m"]) (auto simp: synced_def)
qed

theorem new_data_correct_witness:
  "\<exists>m' buf. new_data (RPCStruct_ctor default_pbs) = Inr m' \<and> msg_wf m' \<and> data_buf m' = Some buf
    \<and> take 12 buf = map Some (RPCStructHead_data RPCStructHead_new)
    \<and> new_data m' = Inr m'"
proof -
  have "msg_wf (RPCStruct_ctor default_pbs)" "head_fits (RPCStruct_ctor default_pbs)"
    "head_info (RPCStruct_ctor default_pbs) = RPCStructHead_new"
    by (simp_all add: RPCStruct_ctor_def RPCStruct_ctor_head_def RPCStructHead_new_def
        RPCStructHead_data_len_def default_pbs_def msg_wf_def head_fits_def Let_def)
  then show ?thesis using new_data_correct [of "RPCStruct_ctor default_pbs"] by auto
qed





end
