(* ===== verification/SafeQueue.thy ===== *)
theory SafeQueue
  imports Prelude
begin

text \<open>
  The queue of \<open>include/safequeue.hpp\<close>: a singly linked list of heap nodes with a sentinel at the
  front, an atomic element count, one lock for producers and one for consumers. This theory models
  the calls one at a time, on an explicit heap of nodes, and shows that they implement a FIFO list;
  \<open>SafeQueueConc\<close> models the same statements interleaved. The locale \<open>fifo\<close> is the contract
  the client relies on.
\<close>

section \<open>Model\<close>

record 'a NODE =
  val :: 'a
  "next" :: "nat option"

text \<open>
  Nodes live at addresses; \<open>brk\<close> is the next address \<open>new\<close> hands out, so a freed address is not
  reused and an access to it is visible as a fault.
\<close>

record 'a SafeQueue =
  size_cnt :: cint
  head_ptr :: "nat option"
  tail_ptr :: "nat option"
  nodes :: "nat \<rightharpoonup> 'a NODE"
  brk :: nat

text \<open>Access to a node through a pointer.\<close>

definition node_at :: "(nat \<rightharpoonup> 'a NODE) \<Rightarrow> nat option \<Rightarrow> (nat \<times> 'a NODE) res" where
  "node_at ns p =
     rbind (deref Null_Deref p) (\<lambda>a. rbind (deref Use_After_Free (ns a)) (\<lambda>n. Inr (a, n)))"

text \<open>\<open>new NODE()\<close>: a node with a value-initialised \<open>val\<close> (the parameter) and a null \<open>next\<close>.\<close>

definition new_NODE :: "'a \<Rightarrow> (nat \<rightharpoonup> 'a NODE) \<times> nat \<Rightarrow> nat \<times> (nat \<rightharpoonup> 'a NODE) \<times> nat" where
  "new_NODE v h = (case h of (ns, b) \<Rightarrow> (b, ns(b \<mapsto> \<lparr>val = v, next = None\<rparr>), Suc b))"

definition SafeQueue_new :: "'a \<Rightarrow> 'a SafeQueue" where
  "SafeQueue_new dflt =
     (let (node, ns, b) = new_NODE dflt (Map.empty, 0)
      in \<lparr>size_cnt = 0, head_ptr = Some node, tail_ptr = Some node, nodes = ns, brk = b\<rparr>)"

definition SafeQueue_push :: "'a \<Rightarrow> 'a SafeQueue \<Rightarrow> 'a SafeQueue res" where
  "SafeQueue_push v q =
     (let (node, ns, b) = new_NODE v (nodes q, brk q);
          q1 = q\<lparr>nodes := ns, brk := b, size_cnt := size_cnt q + 1\<rparr>
      in rbind (node_at (nodes q1) (tail_ptr q1)) (\<lambda>(t, tn).
         Inr (q1\<lparr>nodes := (nodes q1)(t \<mapsto> tn\<lparr>next := Some node\<rparr>), tail_ptr := Some node\<rparr>)))"

definition SafeQueue_empty :: "'a SafeQueue \<Rightarrow> bool res" where
  "SafeQueue_empty q = rbind (node_at (nodes q) (head_ptr q)) (\<lambda>(h, hn). Inr (next hn = None))"

text \<open>\<open>erase_\<close> deletes a node and returns its successor.\<close>

definition SafeQueue_erase :: "(nat \<rightharpoonup> 'a NODE) \<Rightarrow> nat option \<Rightarrow> (nat option \<times> (nat \<rightharpoonup> 'a NODE)) res" where
  "SafeQueue_erase ns p = rbind (node_at ns p) (\<lambda>(a, n). Inr (next n, ns(a := None)))"

definition SafeQueue_pop :: "'a SafeQueue \<Rightarrow> ('a \<times> 'a SafeQueue) res" where
  "SafeQueue_pop q =
     rbind (SafeQueue_empty q) (\<lambda>e.
     if e then Inl Assert_Failed
     else
       let q1 = q\<lparr>size_cnt := size_cnt q - 1\<rparr>
       in rbind (SafeQueue_erase (nodes q1) (head_ptr q1)) (\<lambda>(p, ns).
          let q2 = q1\<lparr>nodes := ns, head_ptr := p\<rparr>
          in rbind (node_at (nodes q2) (head_ptr q2)) (\<lambda>(h, hn). Inr (val hn, q2))))"

definition SafeQueue_size :: "'a SafeQueue \<Rightarrow> cint" where
  "SafeQueue_size q = size_cnt q"

text \<open>The destructor's do-while loop, with the number of iterations allowed.\<close>

fun SafeQueue_delete :: "nat \<Rightarrow> (nat \<rightharpoonup> 'a NODE) \<Rightarrow> nat option \<Rightarrow> (nat \<rightharpoonup> 'a NODE) res option" where
  "SafeQueue_delete 0 ns p = None"
| "SafeQueue_delete (Suc fuel) ns p =
     (case SafeQueue_erase ns p of
        Inl e \<Rightarrow> Some (Inl e)
      | Inr (None, ns') \<Rightarrow> Some (Inr ns')
      | Inr (Some a, ns') \<Rightarrow> SafeQueue_delete fuel ns' (Some a))"

section \<open>Abstraction and invariant\<close>

text \<open>The values from a node on, following \<open>next\<close> for at most a number of nodes.\<close>

fun walk :: "nat \<Rightarrow> (nat \<rightharpoonup> 'a NODE) \<Rightarrow> nat option \<Rightarrow> 'a list" where
  "walk 0 ns p = []"
| "walk (Suc k) ns None = []"
| "walk (Suc k) ns (Some a) =
     (case ns a of None \<Rightarrow> [] | Some n \<Rightarrow> val n # walk k ns (next n))"

text \<open>The queue's contents: what follows the sentinel.\<close>

definition contents :: "'a SafeQueue \<Rightarrow> 'a list" where
  "contents q = tl (walk (brk q) (nodes q) (head_ptr q))"

text \<open>The nodes at these addresses form a null-terminated chain, in this order.\<close>

fun chained :: "(nat \<rightharpoonup> 'a NODE) \<Rightarrow> nat list \<Rightarrow> bool" where
  "chained ns [] \<longleftrightarrow> True"
| "chained ns [a] \<longleftrightarrow> (\<exists>n. ns a = Some n \<and> next n = None)"
| "chained ns (a # b # as) \<longleftrightarrow> (\<exists>n. ns a = Some n \<and> next n = Some b) \<and> chained ns (b # as)"

definition on_chain :: "'a SafeQueue \<Rightarrow> nat list \<Rightarrow> bool" where
  "on_chain q as \<longleftrightarrow> as \<noteq> [] \<and> distinct as \<and> chained (nodes q) as \<and> head_ptr q = Some (hd as) \<and>
     tail_ptr q = Some (last as) \<and> dom (nodes q) = set as \<and> (\<forall>a \<in> set as. a < brk q) \<and>
     size_cnt q = of_nat (length as - 1)"

definition SafeQueue_inv :: "'a SafeQueue \<Rightarrow> bool" where
  "SafeQueue_inv q \<longleftrightarrow> (\<exists>as. on_chain q as)"

definition vals :: "(nat \<rightharpoonup> 'a NODE) \<Rightarrow> nat list \<Rightarrow> 'a list" where
  "vals ns as = map (\<lambda>a. val (the (ns a))) as"

lemma chained_alloc: "chained ns as \<Longrightarrow> a \<in> set as \<Longrightarrow> \<exists>n. ns a = Some n"
  by (induction ns as rule: chained.induct) auto

lemma chained_fresh: "b \<notin> set as \<Longrightarrow> chained (ns(b := x)) as = chained ns as"
  by (induction ns as rule: chained.induct) auto

lemma chained_snoc:
  "chained ns (as @ [a]) \<Longrightarrow> a \<notin> set as \<Longrightarrow> b \<noteq> a \<Longrightarrow> b \<notin> set as \<Longrightarrow> ns a = Some n \<Longrightarrow>
     chained (ns(b \<mapsto> \<lparr>val = v, next = None\<rparr>, a \<mapsto> n\<lparr>next := Some b\<rparr>)) (as @ [a, b])"
proof (induction as rule: induct_list012)
  case (3 x y zs)
  then show ?case by auto
qed auto

lemma chained_tl: "chained ns (a # as) \<Longrightarrow> a \<notin> set as \<Longrightarrow> chained (ns(a := None)) as"
  by (cases as) (auto simp: chained_fresh)

lemma walk_chained:
  "chained ns as \<Longrightarrow> length as \<le> k \<Longrightarrow> as \<noteq> [] \<Longrightarrow> walk k ns (Some (hd as)) = vals ns as"
proof (induction ns as arbitrary: k rule: chained.induct)
  case (2 ns a)
  then obtain k' where "k = Suc k'" by (cases k) auto
  with 2 show ?case by (cases k') (auto simp: vals_def)
next
  case (3 ns a b as)
  then obtain k' where "k = Suc k'" by (cases k) auto
  with 3 show ?case by (auto simp: vals_def)
qed simp

lemma on_chain_length: "on_chain q as \<Longrightarrow> length as \<le> brk q"
proof -
  assume c: "on_chain q as"
  then have "set as \<subseteq> {..<brk q}" by (auto simp: on_chain_def)
  then have "card (set as) \<le> card {..<brk q}" by (intro card_mono) auto
  then show ?thesis using c by (simp add: on_chain_def distinct_card)
qed

lemma contents_on_chain: "on_chain q as \<Longrightarrow> contents q = vals (nodes q) (tl as)"
  using walk_chained [of "nodes q" as "brk q"] on_chain_length [of q as]
  by (simp add: on_chain_def contents_def vals_def map_tl)

lemma length_vals [simp]: "length (vals ns as) = length as"
  by (simp add: vals_def)

section \<open>Operations on the chain\<close>

lemma new_on_chain: "on_chain (SafeQueue_new d) [0]" "contents (SafeQueue_new d) = []"
proof -
  show "on_chain (SafeQueue_new d) [0]"
    by (simp add: on_chain_def SafeQueue_new_def new_NODE_def)
  from contents_on_chain [OF this] show "contents (SafeQueue_new d) = []"
    by (simp add: vals_def)
qed

lemma push_on_chain:
  assumes "on_chain q as"
  shows "\<exists>q'. SafeQueue_push v q = Inr q' \<and> on_chain q' (as @ [brk q]) \<and> contents q' = contents q @ [v]"
proof -
  obtain bs a where as: "as = bs @ [a]" using assms by (cases as rule: rev_cases) (auto simp: on_chain_def)
  obtain n where n: "nodes q a = Some n"
    using assms chained_alloc [of "nodes q" as a] by (auto simp: on_chain_def as)
  let ?b = "brk q"
  let ?ns = "(nodes q)(?b \<mapsto> \<lparr>val = v, next = None\<rparr>, a \<mapsto> n\<lparr>next := Some ?b\<rparr>)"
  have fresh: "?b \<notin> set as" using assms by (auto simp: on_chain_def)
  then have ab: "?b \<noteq> a" "?b \<notin> set bs" using as by auto
  let ?q = "q\<lparr>nodes := ?ns, brk := Suc ?b, size_cnt := size_cnt q + 1, tail_ptr := Some ?b\<rparr>"
  have push: "SafeQueue_push v q = Inr ?q"
    using assms n ab as by (auto simp: SafeQueue_push_def new_NODE_def node_at_def on_chain_def)
  have "chained ?ns (bs @ [a, ?b])"
    using assms n ab as by (intro chained_snoc) (auto simp: on_chain_def)
  then have oc: "on_chain ?q (as @ [?b])"
    using assms fresh n as by (auto simp: on_chain_def hd_append less_Suc_eq)
  have ne: "as \<noteq> []" using as by simp
  have "?b \<notin> set (tl as)" using fresh by (cases as) auto
  then have "vals ?ns (tl as) = vals (nodes q) (tl as)"
    using n by (auto simp: vals_def)
  then have "vals ?ns (tl (as @ [?b])) = vals (nodes q) (tl as) @ [v]"
    using ab ne by (simp add: vals_def)
  then have "contents ?q = contents q @ [v]"
    using contents_on_chain [OF oc] contents_on_chain [OF assms] by simp
  with push oc show ?thesis by blast
qed

lemma pop_on_chain:
  assumes "on_chain q (a # b # as)"
  shows "\<exists>q' x. SafeQueue_pop q = Inr (x, q') \<and> on_chain q' (b # as) \<and> contents q = x # contents q'"
proof -
  obtain n where n: "nodes q a = Some n" "next n = Some b"
    using assms by (auto simp: on_chain_def)
  obtain m where m: "nodes q b = Some m"
    using assms chained_alloc [of "nodes q" "a # b # as" b] by (auto simp: on_chain_def)
  let ?ns = "(nodes q)(a := None)"
  let ?q = "q\<lparr>size_cnt := size_cnt q - 1, nodes := ?ns, head_ptr := Some b\<rparr>"
  have ab: "a \<noteq> b" "a \<notin> set as" using assms by (auto simp: on_chain_def)
  have pop: "SafeQueue_pop q = Inr (val m, ?q)"
    using assms n m ab
    by (simp add: SafeQueue_pop_def SafeQueue_empty_def SafeQueue_erase_def node_at_def on_chain_def Let_def)
  have "chained ?ns (b # as)" using assms ab by (intro chained_tl) (auto simp: on_chain_def)
  then have oc: "on_chain ?q (b # as)"
    using assms ab by (auto simp: on_chain_def)
  have "contents q = val m # contents ?q"
    using contents_on_chain [OF assms] contents_on_chain [OF oc] m ab by (auto simp: vals_def)
  with pop oc show ?thesis by blast
qed

lemma pop_empty_on_chain: "on_chain q [a] \<Longrightarrow> SafeQueue_pop q = Inl Assert_Failed"
  by (auto simp: on_chain_def SafeQueue_pop_def SafeQueue_empty_def node_at_def)

lemma contents_empty_iff: "on_chain q as \<Longrightarrow> contents q = [] \<longleftrightarrow> length as = 1"
  using contents_on_chain [of q as] by (cases as) (auto simp: vals_def on_chain_def)

section \<open>The contract\<close>

text \<open>
  What a client of the queue may rely on when its calls do not overlap: \<open>push\<close> appends, \<open>pop\<close> takes
  the oldest element and aborts on an empty queue, \<open>size\<close> counts.
\<close>

locale fifo =
  fixes inv :: "'q \<Rightarrow> bool"
    and elems :: "'q \<Rightarrow> 'a list"
    and push :: "'a \<Rightarrow> 'q \<Rightarrow> 'q res"
    and pop :: "'q \<Rightarrow> ('a \<times> 'q) res"
    and size :: "'q \<Rightarrow> cint"
  assumes push_law: "inv q \<Longrightarrow> \<exists>q'. push x q = Inr q' \<and> inv q' \<and> elems q' = elems q @ [x]"
    and pop_law: "inv q \<Longrightarrow> elems q = x # xs \<Longrightarrow> \<exists>q'. pop q = Inr (x, q') \<and> inv q' \<and> elems q' = xs"
    and pop_empty: "inv q \<Longrightarrow> elems q = [] \<Longrightarrow> pop q = Inl Assert_Failed"
    and size_law: "inv q \<Longrightarrow> size q = of_nat (length (elems q))"
begin

text \<open>A client that tests \<open>size()\<close> before \<open>pop()\<close>, as \<open>do_write\<close> does, does not abort.\<close>

lemma size_guards_pop:
  "inv q \<Longrightarrow> size q \<noteq> 0 \<Longrightarrow>
     \<exists>q'. pop q = Inr (hd (elems q), q') \<and> inv q' \<and> elems q' = tl (elems q)"
  using size_law [of q] pop_law [of q] by (cases "elems q") auto

lemma size_zero_iff:
  "inv q \<Longrightarrow> length (elems q) < 2 ^ 32 \<Longrightarrow> size q = 0 \<longleftrightarrow> elems q = []"
  using size_law [of q] by (auto simp: word_of_nat_eq_0_iff dest: nat_dvd_not_less)

lemma pushE:
  assumes "inv q"
  obtains q' where "push x q = Inr q'" "inv q'" "elems q' = elems q @ [x]"
  using push_law [OF assms] by blast

lemma pop_Inr:
  assumes "inv q" "pop q = Inr (x, q')"
  shows "inv q' \<and> elems q = x # elems q'"
  using assms pop_law [of q] pop_empty [of q] by (cases "elems q") fastforce+

lemma push_Inr:
  assumes "inv q" "push x q = Inr q'"
  shows "inv q' \<and> elems q' = elems q @ [x]"
  using assms push_law [of q x] by auto

end

interpretation sq: fifo SafeQueue_inv contents SafeQueue_push SafeQueue_pop SafeQueue_size
proof
  fix q :: "'a SafeQueue" and x :: 'a and xs :: "'a list"
  assume "SafeQueue_inv q"
  then obtain as where as: "on_chain q as" by (auto simp: SafeQueue_inv_def)
  show "\<exists>q'. SafeQueue_push x q = Inr q' \<and> SafeQueue_inv q' \<and> contents q' = contents q @ [x]"
    using push_on_chain [OF as, of x] unfolding SafeQueue_inv_def by blast
  show "SafeQueue_size q = of_nat (length (contents q))"
    using as contents_on_chain [OF as] by (simp add: on_chain_def SafeQueue_size_def)
  show "SafeQueue_pop q = Inl Assert_Failed" if "contents q = []"
    using that as contents_empty_iff [OF as] pop_empty_on_chain by (metis length_Suc_conv length_0_conv One_nat_def)
  show "\<exists>q'. SafeQueue_pop q = Inr (x, q') \<and> SafeQueue_inv q' \<and> contents q' = xs" if "contents q = x # xs"
  proof -
    have "length as \<noteq> 1" "as \<noteq> []" using that contents_empty_iff [OF as] as by (auto simp: on_chain_def)
    then obtain a b cs where "as = a # b # cs" by (cases as rule: remdups_adj.cases) auto
    then show ?thesis using pop_on_chain [of q a b cs] as that by (auto simp: SafeQueue_inv_def)
  qed
qed

section \<open>Sequences of calls\<close>

datatype 'a qcall = Push 'a | Pop

text \<open>The values the \<open>pop\<close>s of a call sequence return, on the queue and on a plain list.\<close>

fun queue_run :: "'a qcall list \<Rightarrow> 'a SafeQueue \<Rightarrow> ('a list \<times> 'a SafeQueue) res" where
  "queue_run [] q = Inr ([], q)"
| "queue_run (Push x # cs) q = rbind (SafeQueue_push x q) (queue_run cs)"
| "queue_run (Pop # cs) q =
     rbind (SafeQueue_pop q) (\<lambda>(x, q'). rbind (queue_run cs q') (\<lambda>(out, q''). Inr (x # out, q'')))"

fun list_run :: "'a qcall list \<Rightarrow> 'a list \<Rightarrow> ('a list \<times> 'a list) res" where
  "list_run [] xs = Inr ([], xs)"
| "list_run (Push x # cs) xs = list_run cs (xs @ [x])"
| "list_run (Pop # cs) [] = Inl Assert_Failed"
| "list_run (Pop # cs) (x # xs) = rbind (list_run cs xs) (\<lambda>(out, ys). Inr (x # out, ys))"

lemma queue_run_refines:
  "SafeQueue_inv q \<Longrightarrow>
     (case queue_run cs q of
        Inl e \<Rightarrow> list_run cs (contents q) = Inl e
      | Inr (out, q') \<Rightarrow> SafeQueue_inv q' \<and> list_run cs (contents q) = Inr (out, contents q'))"
proof (induction cs q rule: queue_run.induct)
  case (2 x cs q)
  then obtain q' where "SafeQueue_push x q = Inr q'" "SafeQueue_inv q'" "contents q' = contents q @ [x]"
    by (metis sq.pushE)
  with 2 show ?case by (auto split: sum.splits)
next
  case (3 cs q)
  show ?case
  proof (cases "contents q")
    case Nil
    with 3 show ?thesis by (simp add: sq.pop_empty)
  next
    case (Cons x xs)
    obtain q' where q': "SafeQueue_pop q = Inr (x, q')" "SafeQueue_inv q'" "contents q' = xs"
      using sq.pop_law [OF 3(2) Cons] by blast
    note IH = 3(1) [OF q'(1) refl q'(2)]
    show ?thesis using IH q' Cons by (cases "queue_run cs q'") auto
  qed
qed simp

lemma new_inv: "SafeQueue_inv (SafeQueue_new d)"
  unfolding SafeQueue_inv_def by (rule exI [of _ "[0]"]) (rule new_on_chain(1))

lemma delete_chain:
  "chained ns as \<Longrightarrow> distinct as \<Longrightarrow> as \<noteq> [] \<Longrightarrow> length as \<le> fuel \<Longrightarrow>
     SafeQueue_delete fuel ns (Some (hd as)) = Some (Inr (ns |` (- set as)))"
proof (induction as arbitrary: ns fuel)
  case (Cons a as)
  then obtain k where k: "fuel = Suc k" by (cases fuel) auto
  have rest: "chained (ns(a := None)) as" using Cons.prems by (intro chained_tl) auto
  have res: "(ns(a := None)) |` (- set as) = ns |` (- set (a # as))"
    by (auto simp: restrict_map_def fun_eq_iff)
  show ?case
  proof (cases as)
    case Nil
    moreover have "ns(a := None) = ns |` (- {a})" by (auto simp: restrict_map_def fun_eq_iff)
    ultimately show ?thesis using Cons.prems k by (auto simp: SafeQueue_erase_def node_at_def)
  next
    case (Cons b bs)
    have "SafeQueue_delete k (ns(a := None)) (Some (hd as)) = Some (Inr ((ns(a := None)) |` (- set as)))"
      by (rule Cons.IH [OF rest]) (use Cons.prems k Cons in auto)
    then have "SafeQueue_delete k (ns(a := None)) (Some b) = Some (Inr (ns |` (- set (a # as))))"
      unfolding res by (simp add: Cons)
    with Cons.prems Cons k show ?thesis by (auto simp: SafeQueue_erase_def node_at_def)
  qed
qed simp

section \<open>Properties\<close>

text \<open>C8: A fresh queue answers any sequence of \<open>push\<close> and \<open>pop\<close> calls exactly as a FIFO list does:
  the same values are popped in the same order, the same elements remain, the invariant holds at the
  end, and it aborts exactly where the list is empty.\<close>

theorem queue_is_fifo:
  "case queue_run cs (SafeQueue_new d) of
     Inl e \<Rightarrow> list_run cs [] = Inl e
   | Inr (out, q) \<Rightarrow> SafeQueue_inv q \<and> list_run cs [] = Inr (out, contents q)
       \<and> SafeQueue_size q = of_nat (length (contents q))"
  using queue_run_refines [OF new_inv [of d], of cs] new_on_chain(2) [of d]
  by (auto split: sum.splits simp: sq.size_law)

text \<open>C24: The destructor's loop, run on any queue in a valid state, ends after at most as many
  iterations as addresses were ever handed out, deletes every node exactly once (no access to a
  deleted node) and leaves no node allocated.\<close>

theorem destructor_frees_all:
  assumes "SafeQueue_inv q"
  shows "SafeQueue_delete (brk q) (nodes q) (head_ptr q) = Some (Inr Map.empty)"
proof -
  obtain as where as: "on_chain q as" using assms by (auto simp: SafeQueue_inv_def)
  then have "SafeQueue_delete (brk q) (nodes q) (Some (hd as)) = Some (Inr (nodes q |` (- set as)))"
    using on_chain_length [OF as] by (intro delete_chain) (auto simp: on_chain_def)
  moreover have "nodes q |` (- set as) = Map.empty"
    using as by (auto simp: on_chain_def restrict_map_def fun_eq_iff)
  ultimately show ?thesis using as by (simp add: on_chain_def)
qed

theorem destructor_frees_all_witness:
  "SafeQueue_delete (brk (SafeQueue_new (0::nat))) (nodes (SafeQueue_new (0::nat)))
     (head_ptr (SafeQueue_new (0::nat)))
     = Some (Inr Map.empty)"
  by (rule destructor_frees_all [OF new_inv])

end
