(* ===== verification/SafeQueueConc.thy ===== *)
theory SafeQueueConc
  imports SafeQueue
begin

text \<open>
  The queue of \<open>include/safequeue.hpp\<close> under concurrent use: any number of threads, each inside one
  \<open>push\<close> or \<open>pop\<close> at a time, interleaved between any two accesses to the shared data
  (\<open>size_\<close>, \<open>head_\<close>, \<open>tail_\<close>, a node) and at the two locks. Accesses are taken to be sequentially
  consistent. The invariant shows that the two locks are enough for memory safety and for FIFO order
  although producers and consumers are not excluded from each other; \<open>size_\<close>, on the other hand, runs
  ahead of the list.
\<close>

section \<open>Model\<close>

text \<open>
  Where a thread is, named by the access it performs next. \<open>push\<close>: the node is allocated and filled
  before the lock; then the lock, \<open>++size_\<close>, \<open>tail_->next = node\<close>, \<open>tail_ = node\<close>, unlock.
  \<open>pop\<close>: the lock, \<open>empty_()\<close> and the assertion, \<open>--size_\<close>, the three accesses of
  \<open>head_ = erase_(head_)\<close>, the read of \<open>head_->val\<close>, unlock.
\<close>

datatype 'a pc =
    Idle
  | Push_Lock nat
  | Push_Inc nat
  | Push_Link nat
  | Push_Tail nat
  | Push_Unlock
  | Pop_Lock
  | Pop_Check
  | Pop_Dec
  | Pop_Next
  | Pop_Delete "nat option"
  | Pop_Head "nat option"
  | Pop_Read
  | Pop_Unlock 'a

text \<open>
  The shared queue, the two locks with their holders, the threads, and three history variables: the
  values in the order their nodes were linked, the values in the order they were read by \<open>pop\<close>, and
  the fault that stopped the process, if any.
\<close>

record 'a qsys =
  que :: "'a SafeQueue"
  h_lock :: "nat option"
  t_lock :: "nat option"
  pcs :: "nat \<Rightarrow> 'a pc"
  pushed :: "'a list"
  popped :: "'a list"
  crash :: "fault option"

definition goto :: "nat \<Rightarrow> 'a pc \<Rightarrow> 'a qsys \<Rightarrow> 'a qsys" where
  "goto t p s = s\<lparr>pcs := (pcs s)(t := p)\<rparr>"

definition qsys_init :: "'a \<Rightarrow> 'a qsys" where
  "qsys_init d = \<lparr>que = SafeQueue_new d, h_lock = None, t_lock = None, pcs = (\<lambda>_. Idle),
     pushed = [], popped = [], crash = None\<rparr>"

text \<open>One access of thread \<open>t\<close>; an access through a bad pointer stops the process.\<close>

inductive push_step :: "nat \<Rightarrow> 'a qsys \<Rightarrow> 'a qsys \<Rightarrow> bool" where
  push_alloc: "pcs s t = Idle \<Longrightarrow> new_NODE v (nodes (que s), brk (que s)) = (a, ns, b) \<Longrightarrow>
     push_step t s (goto t (Push_Lock a) (s\<lparr>que := (que s)\<lparr>nodes := ns, brk := b\<rparr>\<rparr>))"
| push_lock: "pcs s t = Push_Lock a \<Longrightarrow> h_lock s = None \<Longrightarrow>
     push_step t s (goto t (Push_Inc a) (s\<lparr>h_lock := Some t\<rparr>))"
| push_inc: "pcs s t = Push_Inc a \<Longrightarrow>
     push_step t s (goto t (Push_Link a) (s\<lparr>que := (que s)\<lparr>size_cnt := size_cnt (que s) + 1\<rparr>\<rparr>))"
| push_link: "pcs s t = Push_Link a \<Longrightarrow> node_at (nodes (que s)) (tail_ptr (que s)) = Inr (l, n) \<Longrightarrow>
     push_step t s (goto t (Push_Tail a)
       (s\<lparr>que := (que s)\<lparr>nodes := (nodes (que s))(l \<mapsto> n\<lparr>next := Some a\<rparr>)\<rparr>,
          pushed := pushed s @ [val (the (nodes (que s) a))]\<rparr>))"
| push_link_bad: "pcs s t = Push_Link a \<Longrightarrow> node_at (nodes (que s)) (tail_ptr (que s)) = Inl e \<Longrightarrow>
     push_step t s (s\<lparr>crash := Some e\<rparr>)"
| push_tail: "pcs s t = Push_Tail a \<Longrightarrow>
     push_step t s (goto t Push_Unlock (s\<lparr>que := (que s)\<lparr>tail_ptr := Some a\<rparr>\<rparr>))"
| push_unlock: "pcs s t = Push_Unlock \<Longrightarrow>
     push_step t s (goto t Idle (s\<lparr>h_lock := None\<rparr>))"

inductive pop_step :: "nat \<Rightarrow> 'a qsys \<Rightarrow> 'a qsys \<Rightarrow> bool" where
  pop_call: "pcs s t = Idle \<Longrightarrow> pop_step t s (goto t Pop_Lock s)"
| pop_lock: "pcs s t = Pop_Lock \<Longrightarrow> t_lock s = None \<Longrightarrow>
     pop_step t s (goto t Pop_Check (s\<lparr>t_lock := Some t\<rparr>))"
| pop_check: "pcs s t = Pop_Check \<Longrightarrow> SafeQueue_empty (que s) = Inr False \<Longrightarrow>
     pop_step t s (goto t Pop_Dec s)"
| pop_assert: "pcs s t = Pop_Check \<Longrightarrow> SafeQueue_empty (que s) = Inr True \<Longrightarrow>
     pop_step t s (s\<lparr>crash := Some Assert_Failed\<rparr>)"
| pop_check_bad: "pcs s t = Pop_Check \<Longrightarrow> SafeQueue_empty (que s) = Inl e \<Longrightarrow>
     pop_step t s (s\<lparr>crash := Some e\<rparr>)"
| pop_dec: "pcs s t = Pop_Dec \<Longrightarrow>
     pop_step t s (goto t Pop_Next (s\<lparr>que := (que s)\<lparr>size_cnt := size_cnt (que s) - 1\<rparr>\<rparr>))"
| pop_next: "pcs s t = Pop_Next \<Longrightarrow> node_at (nodes (que s)) (head_ptr (que s)) = Inr (h, n) \<Longrightarrow>
     pop_step t s (goto t (Pop_Delete (next n)) s)"
| pop_next_bad: "pcs s t = Pop_Next \<Longrightarrow> node_at (nodes (que s)) (head_ptr (que s)) = Inl e \<Longrightarrow>
     pop_step t s (s\<lparr>crash := Some e\<rparr>)"
| pop_delete: "pcs s t = Pop_Delete tmp \<Longrightarrow> node_at (nodes (que s)) (head_ptr (que s)) = Inr (h, n) \<Longrightarrow>
     pop_step t s (goto t (Pop_Head tmp) (s\<lparr>que := (que s)\<lparr>nodes := (nodes (que s))(h := None)\<rparr>\<rparr>))"
| pop_delete_bad: "pcs s t = Pop_Delete tmp \<Longrightarrow> node_at (nodes (que s)) (head_ptr (que s)) = Inl e \<Longrightarrow>
     pop_step t s (s\<lparr>crash := Some e\<rparr>)"
| pop_head: "pcs s t = Pop_Head tmp \<Longrightarrow>
     pop_step t s (goto t Pop_Read (s\<lparr>que := (que s)\<lparr>head_ptr := tmp\<rparr>\<rparr>))"
| pop_read: "pcs s t = Pop_Read \<Longrightarrow> node_at (nodes (que s)) (head_ptr (que s)) = Inr (h, n) \<Longrightarrow>
     pop_step t s (goto t (Pop_Unlock (val n)) (s\<lparr>popped := popped s @ [val n]\<rparr>))"
| pop_read_bad: "pcs s t = Pop_Read \<Longrightarrow> node_at (nodes (que s)) (head_ptr (que s)) = Inl e \<Longrightarrow>
     pop_step t s (s\<lparr>crash := Some e\<rparr>)"
| pop_unlock: "pcs s t = Pop_Unlock v \<Longrightarrow>
     pop_step t s (goto t Idle (s\<lparr>t_lock := None\<rparr>))"

definition qstep :: "'a qsys \<Rightarrow> 'a qsys \<Rightarrow> bool" where
  "qstep s s' \<longleftrightarrow> crash s = None \<and> (\<exists>t. push_step t s s' \<or> pop_step t s s')"

definition qstart :: "'a qsys \<Rightarrow> bool" where
  "qstart s \<longleftrightarrow> (\<exists>d. s = qsys_init d)"

section \<open>Invariant\<close>

fun holds_h :: "'a pc \<Rightarrow> bool" where
  "holds_h (Push_Inc a) = True"
| "holds_h (Push_Link a) = True"
| "holds_h (Push_Tail a) = True"
| "holds_h Push_Unlock = True"
| "holds_h _ = False"

fun holds_t :: "'a pc \<Rightarrow> bool" where
  "holds_t Pop_Check = True"
| "holds_t Pop_Dec = True"
| "holds_t Pop_Next = True"
| "holds_t (Pop_Delete p) = True"
| "holds_t (Pop_Head p) = True"
| "holds_t Pop_Read = True"
| "holds_t (Pop_Unlock v) = True"
| "holds_t _ = False"

text \<open>The node a producer has allocated and not yet linked.\<close>

fun own_node :: "'a pc \<Rightarrow> nat option" where
  "own_node (Push_Lock a) = Some a"
| "own_node (Push_Inc a) = Some a"
| "own_node (Push_Link a) = Some a"
| "own_node _ = None"

definition hpc :: "'a qsys \<Rightarrow> 'a pc" where
  "hpc s = (case h_lock s of None \<Rightarrow> Idle | Some t \<Rightarrow> pcs s t)"

definition tpc :: "'a qsys \<Rightarrow> 'a pc" where
  "tpc s = (case t_lock s of None \<Rightarrow> Idle | Some t \<Rightarrow> pcs s t)"

definition lock_inv :: "'a qsys \<Rightarrow> bool" where
  "lock_inv s \<longleftrightarrow> (\<forall>t. (holds_h (pcs s t) \<longleftrightarrow> h_lock s = Some t) \<and> (holds_t (pcs s t) \<longleftrightarrow> t_lock s = Some t))"

text \<open>
  The data, as a function of where the producer and the consumer that hold the locks are. The chain
  runs from the node that is, or is about to become, \<open>head_\<close>.
\<close>

definition data_inv :: "'a SafeQueue \<Rightarrow> 'a pc \<Rightarrow> 'a pc \<Rightarrow> 'a list \<Rightarrow> 'a list \<Rightarrow> nat list \<Rightarrow> bool" where
  "data_inv q hp tp pu po as \<longleftrightarrow>
     as \<noteq> [] \<and> distinct as \<and> chained (nodes q) as \<and> (\<forall>a. a \<in> dom (nodes q) \<longrightarrow> a < brk q) \<and>
     (case hp of Push_Tail a \<Rightarrow> a = last as | _ \<Rightarrow> tail_ptr q = Some (last as)) \<and>
     (case tp of Pop_Head p \<Rightarrow> p = Some (hd as) | _ \<Rightarrow> head_ptr q = Some (hd as)) \<and>
     (case tp of Pop_Dec \<Rightarrow> 2 \<le> length as | Pop_Next \<Rightarrow> 2 \<le> length as
        | Pop_Delete p \<Rightarrow> 2 \<le> length as \<and> p = Some (as ! 1) | _ \<Rightarrow> True) \<and>
     pu = po @ (case tp of Pop_Head p \<Rightarrow> [val (the (nodes q (hd as)))]
                 | Pop_Read \<Rightarrow> [val (the (nodes q (hd as)))] | _ \<Rightarrow> []) @ vals (nodes q) (tl as) \<and>
     size_cnt q = of_nat (length as - 1) + (case hp of Push_Link a \<Rightarrow> 1 | _ \<Rightarrow> 0)
                   - (case tp of Pop_Next \<Rightarrow> 1 | Pop_Delete p \<Rightarrow> 1 | _ \<Rightarrow> 0)"

text \<open>
  Unlinked nodes: allocated, with a null \<open>next\<close>, off the chain, one owner each; and no other node is
  allocated.
\<close>

definition priv_inv :: "'a qsys \<Rightarrow> nat list \<Rightarrow> bool" where
  "priv_inv s as \<longleftrightarrow>
     (\<forall>t a. own_node (pcs s t) = Some a \<longrightarrow>
        a \<notin> set as \<and> (\<exists>n. nodes (que s) a = Some n \<and> next n = None)) \<and>
     (\<forall>t u a. own_node (pcs s t) = Some a \<longrightarrow> own_node (pcs s u) = Some a \<longrightarrow> t = u) \<and>
     (\<forall>a \<in> dom (nodes (que s)). a \<in> set as \<or> (\<exists>t. own_node (pcs s t) = Some a))"

definition qinv_at :: "'a qsys \<Rightarrow> nat list \<Rightarrow> bool" where
  "qinv_at s as \<longleftrightarrow> lock_inv s \<and> data_inv (que s) (hpc s) (tpc s) (pushed s) (popped s) as \<and> priv_inv s as"

definition qinv :: "'a qsys \<Rightarrow> bool" where
  "qinv s \<longleftrightarrow> crash s \<in> {None, Some Assert_Failed} \<and> (\<exists>as. qinv_at s as)"

section \<open>Steps on the data\<close>

text \<open>A producer's position that does not matter to the data, and a consumer's.\<close>

fun quiet_h :: "'a pc \<Rightarrow> bool" where
  "quiet_h (Push_Link a) = False"
| "quiet_h (Push_Tail a) = False"
| "quiet_h _ = True"

fun quiet_t :: "'a pc \<Rightarrow> bool" where
  "quiet_t Pop_Dec = False"
| "quiet_t Pop_Next = False"
| "quiet_t (Pop_Delete p) = False"
| "quiet_t (Pop_Head p) = False"
| "quiet_t Pop_Read = False"
| "quiet_t _ = True"

lemma data_quiet_h: "quiet_h hp \<Longrightarrow> quiet_h hp' \<Longrightarrow> data_inv q hp tp pu po as = data_inv q hp' tp pu po as"
  by (cases hp; cases hp') (simp_all add: data_inv_def)

lemma data_quiet_t: "quiet_t tp \<Longrightarrow> quiet_t tp' \<Longrightarrow> data_inv q hp tp pu po as = data_inv q hp tp' pu po as"
  by (cases tp; cases tp') (simp_all add: data_inv_def)

lemma chained_in_dom: "chained ns as \<Longrightarrow> set as \<subseteq> dom ns"
  using chained_alloc by fastforce

lemma vals_upd_other: "b \<notin> set as \<Longrightarrow> vals (ns(b := x)) as = vals ns as"
  by (simp add: vals_def)

lemma data_alloc:
  assumes "data_inv q hp tp pu po as" "b = brk q"
  shows "data_inv (q\<lparr>nodes := (nodes q)(b \<mapsto> nd), brk := Suc b\<rparr>) hp tp pu po as"
proof -
  have "b \<notin> set as"
    using assms chained_in_dom [of "nodes q" as] by (auto simp: data_inv_def)
  then have b: "b \<notin> set as" "b \<notin> set (tl as)" "b \<noteq> hd as"
    using assms(1) by (cases as; simp add: data_inv_def)+
  show ?thesis
    using assms b by (auto simp: data_inv_def chained_fresh vals_upd_other less_Suc_eq split: pc.splits)
qed

lemma data_inc:
  "data_inv q (Push_Inc a) tp pu po as \<Longrightarrow> data_inv (q\<lparr>size_cnt := size_cnt q + 1\<rparr>) (Push_Link a) tp pu po as"
  by (cases tp) (auto simp: data_inv_def)

lemma data_link:
  assumes d: "data_inv q (Push_Link b) tp pu po as" and b: "b \<notin> set as" "nodes q b = Some m" "next m = None"
    and n: "nodes q (last as) = Some n"
  shows "data_inv (q\<lparr>nodes := (nodes q)(last as \<mapsto> n\<lparr>next := Some b\<rparr>)\<rparr>) (Push_Tail b) tp
    (pu @ [val m]) po (as @ [b])"
proof -
  let ?ns = "(nodes q)(last as \<mapsto> n\<lparr>next := Some b\<rparr>)"
  obtain cs a where as: "as = cs @ [a]" using d by (cases as rule: rev_cases) (auto simp: data_inv_def)
  have same: "(nodes q)(b \<mapsto> \<lparr>val = val m, next = None\<rparr>, a \<mapsto> n\<lparr>next := Some b\<rparr>) = ?ns"
    using b as by (cases m) auto
  have ch: "chained ?ns (as @ [b])"
    using chained_snoc [of "nodes q" cs a b n "val m"] d b n as unfolding same by (auto simp: data_inv_def)
  have va: "vals ?ns xs = vals (nodes q) xs" for xs
    using n by (auto simp: vals_def)
  have ne: "as \<noteq> []" using as by simp
  have hd: "hd (as @ [b]) = hd as" "tl (as @ [b]) = tl as @ [b]" "vals (nodes q) [b] = [val m]"
    using ne b by (simp_all add: vals_def)
  have v1: "val (the (?ns (hd as))) = val (the (nodes q (hd as)))" using n by auto
  have vs: "vals ?ns (tl (as @ [b])) = vals (nodes q) (tl as) @ [val m]"
    unfolding va hd(2) using b by (simp add: vals_def)
  have dom: "\<forall>a. a \<in> dom ?ns \<longrightarrow> a < brk q" using d n by (auto simp: data_inv_def)
  have at1: "(as @ [b]) ! 1 = as ! 1" if "2 \<le> length as" using that by (simp add: nth_append)
  have len: "of_nat (length (as @ [b]) - 1) = of_nat (length as - 1) + (1::cint)"
    using as by simp
  show ?thesis
    using d b ch v1 vs dom at1 len hd(1) unfolding data_inv_def
    by (auto split: pc.splits)
qed

lemma data_tail:
  "data_inv q (Push_Tail a) tp pu po as \<Longrightarrow> data_inv (q\<lparr>tail_ptr := Some a\<rparr>) Push_Unlock tp pu po as"
  by (cases tp) (auto simp: data_inv_def)

lemma data_head_node:
  "data_inv q hp tp pu po as \<Longrightarrow> \<forall>p. tp \<noteq> Pop_Head p \<Longrightarrow>
     \<exists>n. node_at (nodes q) (head_ptr q) = Inr (hd as, n) \<and> nodes q (hd as) = Some n \<and>
         next n = (if length as = 1 then None else Some (as ! 1))"
proof (cases as rule: remdups_adj.cases)
qed (auto simp: data_inv_def node_at_def split: pc.splits)

lemma data_check:
  "data_inv q hp Pop_Check pu po as \<Longrightarrow> 2 \<le> length as \<Longrightarrow> data_inv q hp Pop_Dec pu po as"
  by (auto simp: data_inv_def)

lemma data_dec:
  "data_inv q hp Pop_Dec pu po as \<Longrightarrow> data_inv (q\<lparr>size_cnt := size_cnt q - 1\<rparr>) hp Pop_Next pu po as"
  by (cases hp) (auto simp: data_inv_def)

lemma data_next:
  "data_inv q hp Pop_Next pu po as \<Longrightarrow> data_inv q hp (Pop_Delete (Some (as ! 1))) pu po as"
  by (auto simp: data_inv_def)

lemma data_delete:
  assumes "data_inv q hp (Pop_Delete p) pu po as"
  shows "data_inv (q\<lparr>nodes := (nodes q)(hd as := None)\<rparr>) hp (Pop_Head p) pu po (tl as)"
proof -
  obtain a b cs where as: "as = a # b # cs" and p: "p = Some b"
    using assms by (cases as rule: remdups_adj.cases) (auto simp: data_inv_def)
  have ch: "chained ((nodes q)(a := None)) (b # cs)"
    using assms as by (intro chained_tl) (auto simp: data_inv_def)
  have "vals ((nodes q)(a := None)) cs = vals (nodes q) cs"
    using assms as by (auto simp: data_inv_def vals_upd_other)
  then show ?thesis
    using assms as p ch by (auto simp: data_inv_def vals_def split: pc.splits)
qed

lemma data_head:
  "data_inv q hp (Pop_Head p) pu po as \<Longrightarrow> data_inv (q\<lparr>head_ptr := p\<rparr>) hp Pop_Read pu po as"
  by (cases hp) (auto simp: data_inv_def)

lemma data_read:
  "data_inv q hp Pop_Read pu po as \<Longrightarrow> nodes q (hd as) = Some n \<Longrightarrow>
     data_inv q hp (Pop_Unlock (val n)) pu (po @ [val n]) as"
  by (auto simp: data_inv_def)

section \<open>Steps of the system\<close>

lemma hpc_holder: "lock_inv s \<Longrightarrow> holds_h (pcs s t) \<Longrightarrow> hpc s = pcs s t"
  by (simp add: lock_inv_def hpc_def)

lemma tpc_holder: "lock_inv s \<Longrightarrow> holds_t (pcs s t) \<Longrightarrow> tpc s = pcs s t"
  by (simp add: lock_inv_def tpc_def)

lemma hpc_free: "h_lock s = None \<Longrightarrow> hpc s = Idle"
  by (simp add: hpc_def)

lemma tpc_free: "t_lock s = None \<Longrightarrow> tpc s = Idle"
  by (simp add: tpc_def)

lemma goto_fields [simp]:
  "que (goto t p s) = que s" "h_lock (goto t p s) = h_lock s" "t_lock (goto t p s) = t_lock s"
  "pushed (goto t p s) = pushed s" "popped (goto t p s) = popped s" "crash (goto t p s) = crash s"
  "pcs (goto t p s) = (pcs s)(t := p)"
  by (simp_all add: goto_def)

lemma hpc_goto [simp]: "hpc (goto t p s) = (if h_lock s = Some t then p else hpc s)"
  by (auto simp: hpc_def split: option.split)

lemma tpc_goto [simp]: "tpc (goto t p s) = (if t_lock s = Some t then p else tpc s)"
  by (auto simp: tpc_def split: option.split)

lemma pc_fields [simp]:
  "hpc (s\<lparr>que := q\<rparr>) = hpc s" "tpc (s\<lparr>que := q\<rparr>) = tpc s"
  "hpc (s\<lparr>pushed := xs\<rparr>) = hpc s" "tpc (s\<lparr>pushed := xs\<rparr>) = tpc s"
  "hpc (s\<lparr>popped := xs\<rparr>) = hpc s" "tpc (s\<lparr>popped := xs\<rparr>) = tpc s"
  "hpc (s\<lparr>t_lock := l\<rparr>) = hpc s" "tpc (s\<lparr>h_lock := l\<rparr>) = tpc s"
  "hpc (s\<lparr>crash := c\<rparr>) = hpc s" "tpc (s\<lparr>crash := c\<rparr>) = tpc s"
  by (simp_all add: hpc_def tpc_def split: option.split)

lemma lock_step_h:
  assumes "lock_inv s" "holds_t p = holds_t (pcs s t)" "holds_h (pcs s t) \<or> h_lock s = None"
  shows "lock_inv (goto t p (s\<lparr>h_lock := (if holds_h p then Some t else None)\<rparr>))"
proof -
  have L: "\<And>u. holds_h (pcs s u) = (h_lock s = Some u)" "\<And>u. holds_t (pcs s u) = (t_lock s = Some u)"
    using assms(1) by (simp_all add: lock_inv_def)
  have other: "\<not> holds_h (pcs s u)" if "u \<noteq> t" for u
    using L assms(3) that by (metis option.distinct(1) option.inject)
  show ?thesis
    unfolding lock_inv_def using other L(2) assms(2) by simp
qed

lemma lock_step_t:
  assumes "lock_inv s" "holds_h p = holds_h (pcs s t)" "holds_t (pcs s t) \<or> t_lock s = None"
  shows "lock_inv (goto t p (s\<lparr>t_lock := (if holds_t p then Some t else None)\<rparr>))"
proof -
  have L: "\<And>u. holds_h (pcs s u) = (h_lock s = Some u)" "\<And>u. holds_t (pcs s u) = (t_lock s = Some u)"
    using assms(1) by (simp_all add: lock_inv_def)
  have other: "\<not> holds_t (pcs s u)" if "u \<noteq> t" for u
    using L assms(3) that by (metis option.distinct(1) option.inject)
  show ?thesis
    unfolding lock_inv_def using other L(1) assms(2) by simp
qed

lemma lock_goto:
  assumes "lock_inv s" "holds_h p = holds_h (pcs s t)" "holds_t p = holds_t (pcs s t)"
  shows "lock_inv (goto t p s)"
  using assms by (auto simp: lock_inv_def)

lemma lock_fields [simp]:
  "lock_inv (s\<lparr>que := q\<rparr>) = lock_inv s" "lock_inv (s\<lparr>pushed := xs\<rparr>) = lock_inv s"
  "lock_inv (s\<lparr>popped := xs\<rparr>) = lock_inv s" "lock_inv (s\<lparr>crash := c\<rparr>) = lock_inv s"
  by (simp_all add: lock_inv_def)

text \<open>Moving one thread keeps the ownership facts if it owns no new node and owned nodes stay put.\<close>

lemma priv_goto:
  assumes P: "priv_inv s as" and own: "own_node p = None \<or> own_node p = own_node (pcs s t)"
    and pcs: "pcs s' = (pcs s)(t := p)"
    and kept: "\<And>u a. own_node (pcs s' u) = Some a \<Longrightarrow> a \<notin> set as \<Longrightarrow>
          a \<notin> set as' \<and> nodes (que s') a = nodes (que s) a"
    and all: "\<And>a. a \<in> dom (nodes (que s')) \<Longrightarrow> a \<in> dom (nodes (que s)) \<and>
          (a \<in> set as \<or> own_node (pcs s t) = Some a \<longrightarrow> a \<in> set as' \<or> own_node p = Some a)"
  shows "priv_inv s' as'"
proof -
  have P: "\<And>u a. own_node (pcs s u) = Some a \<Longrightarrow> a \<notin> set as \<and> (\<exists>n. nodes (que s) a = Some n \<and> next n = None)"
      "\<And>u v a. own_node (pcs s u) = Some a \<Longrightarrow> own_node (pcs s v) = Some a \<Longrightarrow> u = v"
      "\<And>a. a \<in> dom (nodes (que s)) \<Longrightarrow> a \<in> set as \<or> (\<exists>u. own_node (pcs s u) = Some a)"
    using P unfolding priv_inv_def by blast+
  have old: "own_node (pcs s' u) = Some a \<Longrightarrow> own_node (pcs s u) = Some a" for u a
    using own pcs by (auto split: if_splits)
  show ?thesis
    unfolding priv_inv_def
  proof (intro conjI allI impI ballI)
    fix u a assume o: "own_node (pcs s' u) = Some a"
    show "a \<notin> set as'" "\<exists>n. nodes (que s') a = Some n \<and> next n = None"
      using P(1) [OF old [OF o]] kept [OF o] by auto
  next
    fix u v a assume "own_node (pcs s' u) = Some a" "own_node (pcs s' v) = Some a"
    then show "u = v" using P(2) old by blast
  next
    fix a assume a: "a \<in> dom (nodes (que s'))"
    consider "a \<in> set as" | u where "own_node (pcs s u) = Some a" using P(3) all [OF a] by blast
    then show "a \<in> set as' \<or> (\<exists>u. own_node (pcs s' u) = Some a)"
    proof cases
      case 1
      then show ?thesis using all [OF a] pcs by (metis fun_upd_same)
    next
      case (2 u)
      then show ?thesis using all [OF a] pcs by (cases "u = t") auto
    qed
  qed
qed

lemma priv_move:
  assumes "priv_inv s as" "own_node p = own_node (pcs s t)"
    and "pcs s' = pcs s" "nodes (que s') = nodes (que s)"
  shows "priv_inv (goto t p s') as"
  by (rule priv_goto [OF assms(1), of p t]) (use assms in auto)

lemma priv_alloc:
  assumes P: "priv_inv s as" and "own_node (pcs s t) = None" "a \<notin> dom (nodes (que s))" "set as \<subseteq> dom (nodes (que s))"
  shows "priv_inv (goto t (Push_Lock a) (s\<lparr>que := (que s)\<lparr>
    nodes := (nodes (que s))(a \<mapsto> \<lparr>val = v, next = None\<rparr>), brk := b\<rparr>\<rparr>)) as" (is "priv_inv ?s as")
proof -
  have P: "\<And>u a. own_node (pcs s u) = Some a \<Longrightarrow> a \<notin> set as \<and> (\<exists>n. nodes (que s) a = Some n \<and> next n = None)"
      "\<And>u v a. own_node (pcs s u) = Some a \<Longrightarrow> own_node (pcs s v) = Some a \<Longrightarrow> u = v"
      "\<And>a. a \<in> dom (nodes (que s)) \<Longrightarrow> a \<in> set as \<or> (\<exists>u. own_node (pcs s u) = Some a)"
    using P unfolding priv_inv_def by blast+
  have na: "own_node (pcs s u) \<noteq> Some a" for u using P(1) [of u a] assms(3) by auto
  have "c \<in> set as \<or> (\<exists>u. own_node (pcs ?s u) = Some c)" if c: "c \<in> dom (nodes (que ?s))" for c
  proof (cases "c = a")
    case False
    then have "c \<in> dom (nodes (que s))" using c by auto
    then consider "c \<in> set as" | u where "own_node (pcs s u) = Some c" using P(3) by blast
    then show ?thesis
    proof cases
      case (2 u)
      with assms(2) have "u \<noteq> t" by auto
      with 2 have "own_node (pcs ?s u) = Some c" by simp
      then show ?thesis by blast
    qed simp
  qed (auto intro: exI [of _ t])
  moreover have "u = w" if "own_node (pcs ?s u) = Some c" "own_node (pcs ?s w) = Some c" for u w c
    using that P(2) na by (auto split: if_splits)
  moreover have "c \<notin> set as \<and> (\<exists>n. nodes (que ?s) c = Some n \<and> next n = None)"
    if "own_node (pcs ?s u) = Some c" for u c
    using that P(1) [of u c] assms(3,4) by (auto split: if_splits)
  ultimately show ?thesis unfolding priv_inv_def by blast
qed

text \<open>What the invariant says from the point of view of a thread inside a call.\<close>

lemma at_inv:
  assumes "qinv_at s as"
  shows "lock_inv s" and "data_inv (que s) (hpc s) (tpc s) (pushed s) (popped s) as" and "priv_inv s as"
    and "set as \<subseteq> dom (nodes (que s))"
  using assms chained_in_dom [of "nodes (que s)" as] by (auto simp: qinv_at_def data_inv_def)

lemma at_pc:
  assumes "qinv_at s as"
  shows "holds_h (pcs s t) \<longleftrightarrow> h_lock s = Some t" and "holds_t (pcs s t) \<longleftrightarrow> t_lock s = Some t"
    and "holds_h (pcs s t) \<Longrightarrow> hpc s = pcs s t" and "holds_t (pcs s t) \<Longrightarrow> tpc s = pcs s t"
  using at_inv(1) [OF assms] hpc_holder [of s t] tpc_holder [of s t] by (auto simp: lock_inv_def)

lemma at_push_alloc:
  assumes I: "qinv_at s as" and pc: "pcs s t = Idle" and a: "a = brk (que s)"
  shows "qinv_at (goto t (Push_Lock a) (s\<lparr>que := (que s)\<lparr>
    nodes := (nodes (que s))(a \<mapsto> \<lparr>val = v, next = None\<rparr>), brk := Suc a\<rparr>\<rparr>)) as"
proof -
  have nl: "h_lock s \<noteq> Some t" "t_lock s \<noteq> Some t" using at_pc(1,2) [OF I, of t] pc by auto
  have fresh: "a \<notin> dom (nodes (que s))" using at_inv(2) [OF I] a by (auto simp: data_inv_def)
  show ?thesis
    using data_alloc [OF at_inv(2) [OF I] a] at_inv(1) [OF I] pc nl
      priv_alloc [OF at_inv(3) [OF I] _ fresh at_inv(4) [OF I], of t]
    by (simp add: qinv_at_def lock_goto)
qed

lemma at_push_lock:
  assumes I: "qinv_at s as" and pc: "pcs s t = Push_Lock a" and l: "h_lock s = None"
  shows "qinv_at (goto t (Push_Inc a) (s\<lparr>h_lock := Some t\<rparr>)) as"
  using at_inv [OF I] at_pc [OF I, of t] pc hpc_free [OF l] l data_quiet_h [of Idle "Push_Inc a" "que s"]
    lock_step_h [of s "Push_Inc a" t]
  by (auto simp: qinv_at_def intro: priv_move)

lemma at_push_inc:
  assumes I: "qinv_at s as" and pc: "pcs s t = Push_Inc a"
  shows "qinv_at (goto t (Push_Link a) (s\<lparr>que := (que s)\<lparr>size_cnt := size_cnt (que s) + 1\<rparr>\<rparr>)) as"
  using at_inv [OF I] at_pc [OF I, of t] pc data_inc
  by (auto simp: qinv_at_def lock_goto intro: priv_move)

lemma at_push_link:
  assumes I: "qinv_at s as" and pc: "pcs s t = Push_Link a"
  shows "\<exists>n m. node_at (nodes (que s)) (tail_ptr (que s)) = Inr (last as, n) \<and> nodes (que s) a = Some m \<and>
    qinv_at (goto t (Push_Tail a) (s\<lparr>que := (que s)\<lparr>nodes := (nodes (que s))(last as \<mapsto> n\<lparr>next := Some a\<rparr>)\<rparr>,
      pushed := pushed s @ [val m]\<rparr>)) (as @ [a])"
proof -
  have own: "own_node (pcs s t) = Some a" using pc by simp
  then obtain m where a: "a \<notin> set as" "nodes (que s) a = Some m" "next m = None"
    using at_inv(3) [OF I] unfolding priv_inv_def by blast
  have D: "data_inv (que s) (Push_Link a) (tpc s) (pushed s) (popped s) as"
    using at_inv(2) [OF I] at_pc(3) [OF I, of t] pc by simp
  then have tl: "tail_ptr (que s) = Some (last as)" and la: "last as \<in> set as" by (simp_all add: data_inv_def)
  then obtain n where n: "nodes (que s) (last as) = Some n" using at_inv(4) [OF I] by blast
  let ?s = "goto t (Push_Tail a) (s\<lparr>que := (que s)\<lparr>nodes := (nodes (que s))(last as \<mapsto> n\<lparr>next := Some a\<rparr>)\<rparr>,
      pushed := pushed s @ [val m]\<rparr>)"
  have other: "b \<noteq> a" if "own_node (pcs ?s u) = Some b" for u b
    using that own at_inv(3) [OF I] unfolding priv_inv_def by (fastforce split: if_splits)
  have "priv_inv ?s (as @ [a])"
    by (rule priv_goto [OF at_inv(3) [OF I], of "Push_Tail a" t]) (use other la own n in auto)
  then show ?thesis
    using data_link [OF D a n] at_inv(1) [OF I] at_pc(1,2) [OF I, of t] pc n tl a
    by (auto simp: qinv_at_def lock_goto node_at_def)
qed

lemma at_push_tail:
  assumes I: "qinv_at s as" and pc: "pcs s t = Push_Tail a"
  shows "qinv_at (goto t Push_Unlock (s\<lparr>que := (que s)\<lparr>tail_ptr := Some a\<rparr>\<rparr>)) as"
  using at_inv [OF I] at_pc [OF I, of t] pc data_tail
  by (auto simp: qinv_at_def lock_goto intro: priv_move)

lemma at_push_unlock:
  assumes I: "qinv_at s as" and pc: "pcs s t = Push_Unlock"
  shows "qinv_at (goto t Idle (s\<lparr>h_lock := None\<rparr>)) as"
  using at_inv [OF I] at_pc [OF I, of t] pc lock_step_h [of s Idle t] data_quiet_h [of Push_Unlock Idle "que s"]
    hpc_free [of "s\<lparr>h_lock := None\<rparr>"]
  by (auto simp: qinv_at_def intro: priv_move)

lemma at_pop_call:
  assumes I: "qinv_at s as" and pc: "pcs s t = Idle"
  shows "qinv_at (goto t Pop_Lock s) as"
  using at_inv [OF I] at_pc [OF I, of t] pc by (auto simp: qinv_at_def lock_goto intro: priv_move)

lemma at_pop_lock:
  assumes I: "qinv_at s as" and pc: "pcs s t = Pop_Lock" and l: "t_lock s = None"
  shows "qinv_at (goto t Pop_Check (s\<lparr>t_lock := Some t\<rparr>)) as"
  using at_inv [OF I] at_pc [OF I, of t] pc tpc_free [OF l] l data_quiet_t [of Idle Pop_Check "que s"]
    lock_step_t [of s Pop_Check t]
  by (auto simp: qinv_at_def intro: priv_move)

text \<open>A consumer that holds its lock and has not deleted the sentinel finds it, and its successor.\<close>

lemma at_head_node:
  assumes I: "qinv_at s as" and pc: "holds_t (pcs s t)" "\<forall>p. pcs s t \<noteq> Pop_Head p"
  shows "\<exists>n. node_at (nodes (que s)) (head_ptr (que s)) = Inr (hd as, n) \<and> nodes (que s) (hd as) = Some n \<and>
    next n = (if length as = 1 then None else Some (as ! 1))"
  using data_head_node [OF at_inv(2) [OF I]] at_pc(4) [OF I, of t] pc by simp

lemma at_pop_check:
  assumes I: "qinv_at s as" and pc: "pcs s t = Pop_Check"
  shows "SafeQueue_empty (que s) = Inr (length as = 1)"
    and "length as \<noteq> 1 \<Longrightarrow> qinv_at (goto t Pop_Dec s) as"
proof -
  show "SafeQueue_empty (que s) = Inr (length as = 1)"
    using at_head_node [OF I, of t] pc by (auto simp: SafeQueue_empty_def)
  assume "length as \<noteq> 1"
  then have "2 \<le> length as" using at_inv(2) [OF I] by (cases as rule: remdups_adj.cases) (auto simp: data_inv_def)
  then show "qinv_at (goto t Pop_Dec s) as"
    using at_inv [OF I] at_pc [OF I, of t] pc data_check
    by (auto simp: qinv_at_def lock_goto intro: priv_move)
qed

lemma at_pop_dec:
  assumes I: "qinv_at s as" and pc: "pcs s t = Pop_Dec"
  shows "qinv_at (goto t Pop_Next (s\<lparr>que := (que s)\<lparr>size_cnt := size_cnt (que s) - 1\<rparr>\<rparr>)) as"
  using at_inv [OF I] at_pc [OF I, of t] pc data_dec
  by (auto simp: qinv_at_def lock_goto intro: priv_move)

lemma at_pop_next:
  assumes I: "qinv_at s as" and pc: "pcs s t = Pop_Next"
  shows "\<exists>n. node_at (nodes (que s)) (head_ptr (que s)) = Inr (hd as, n) \<and>
    qinv_at (goto t (Pop_Delete (next n)) s) as"
proof -
  obtain n where n: "node_at (nodes (que s)) (head_ptr (que s)) = Inr (hd as, n)"
      "next n = (if length as = 1 then None else Some (as ! 1))"
    using at_head_node [OF I, of t] pc by auto
  have D: "data_inv (que s) (hpc s) Pop_Next (pushed s) (popped s) as"
    using at_inv(2) [OF I] at_pc(4) [OF I, of t] pc by simp
  then have "next n = Some (as ! 1)" using n by (auto simp: data_inv_def)
  then show ?thesis
    using n at_inv [OF I] at_pc [OF I, of t] pc data_next [OF D]
    by (auto simp: qinv_at_def lock_goto intro: priv_move)
qed

lemma at_pop_delete:
  assumes I: "qinv_at s as" and pc: "pcs s t = Pop_Delete p"
  shows "\<exists>n. node_at (nodes (que s)) (head_ptr (que s)) = Inr (hd as, n) \<and>
    qinv_at (goto t (Pop_Head p) (s\<lparr>que := (que s)\<lparr>nodes := (nodes (que s))(hd as := None)\<rparr>\<rparr>)) (tl as)"
proof -
  have D: "data_inv (que s) (hpc s) (Pop_Delete p) (pushed s) (popped s) as"
    using at_inv(2) [OF I] at_pc(4) [OF I, of t] pc by simp
  then have as: "set as = insert (hd as) (set (tl as))" "hd as \<notin> set (tl as)"
    by (cases as; auto simp: data_inv_def)+
  let ?s = "goto t (Pop_Head p) (s\<lparr>que := (que s)\<lparr>nodes := (nodes (que s))(hd as := None)\<rparr>\<rparr>)"
  have "priv_inv ?s (tl as)"
    by (rule priv_goto [OF at_inv(3) [OF I], of "Pop_Head p" t]) (use as pc in auto)
  then show ?thesis
    using at_head_node [OF I, of t] data_delete [OF D] at_inv(1) [OF I] at_pc [OF I, of t] pc
    by (auto simp: qinv_at_def lock_goto)
qed

lemma at_pop_head:
  assumes I: "qinv_at s as" and pc: "pcs s t = Pop_Head p"
  shows "qinv_at (goto t Pop_Read (s\<lparr>que := (que s)\<lparr>head_ptr := p\<rparr>\<rparr>)) as"
  using at_inv [OF I] at_pc [OF I, of t] pc data_head
  by (auto simp: qinv_at_def lock_goto intro: priv_move)

lemma at_pop_read:
  assumes I: "qinv_at s as" and pc: "pcs s t = Pop_Read"
  shows "\<exists>n. node_at (nodes (que s)) (head_ptr (que s)) = Inr (hd as, n) \<and>
    qinv_at (goto t (Pop_Unlock (val n)) (s\<lparr>popped := popped s @ [val n]\<rparr>)) as"
proof -
  obtain n where n: "node_at (nodes (que s)) (head_ptr (que s)) = Inr (hd as, n)" "nodes (que s) (hd as) = Some n"
    using at_head_node [OF I, of t] pc by auto
  have "priv_inv (goto t (Pop_Unlock (val n)) (s\<lparr>popped := popped s @ [val n]\<rparr>)) as"
    by (rule priv_move [OF at_inv(3) [OF I]]) (use pc in auto)
  then show ?thesis
    using n at_inv(1,2) [OF I] at_pc [OF I, of t] pc data_read [of "que s" "hpc s"]
    by (auto simp: qinv_at_def lock_goto)
qed

lemma at_pop_unlock:
  assumes I: "qinv_at s as" and pc: "pcs s t = Pop_Unlock v"
  shows "qinv_at (goto t Idle (s\<lparr>t_lock := None\<rparr>)) as"
  using at_inv [OF I] at_pc [OF I, of t] pc lock_step_t [of s Idle t] data_quiet_t [of "Pop_Unlock v" Idle "que s"]
    tpc_free [of "s\<lparr>t_lock := None\<rparr>"]
  by (auto simp: qinv_at_def intro: priv_move)

lemma push_step_qinv:
  assumes "push_step t s s'" "qinv s"
  shows "qinv s'"
proof -
  obtain as where I: "qinv_at s as" and c: "crash s \<in> {None, Some Assert_Failed}"
    using assms(2) by (auto simp: qinv_def)
  have link: "\<exists>n m. node_at (nodes (que s)) (tail_ptr (que s)) = Inr (last as, n) \<and> nodes (que s) a = Some m \<and>
      qinv_at (goto t (Push_Tail a) (s\<lparr>que := (que s)\<lparr>nodes := (nodes (que s))(last as \<mapsto> n\<lparr>next := Some a\<rparr>)\<rparr>,
        pushed := pushed s @ [val m]\<rparr>)) (as @ [a])" if "pcs s t = Push_Link a" for a
    using at_push_link [OF I that] .
  from assms(1) show ?thesis
  proof cases
    case (push_alloc v a ns b)
    then show ?thesis using at_push_alloc [OF I, of t a v] c by (auto simp: new_NODE_def qinv_def)
  next
    case (push_link a l n)
    then show ?thesis using link [of a] c unfolding qinv_def by fastforce
  next
    case (push_link_bad a e)
    then show ?thesis using link [of a] by auto
  qed (use c I in \<open>auto simp: qinv_def intro!: exI [of _ as] at_push_lock at_push_inc at_push_tail at_push_unlock\<close>)
qed

lemma pop_step_qinv:
  assumes "pop_step t s s'" "qinv s"
  shows "qinv s'"
proof -
  obtain as where I: "qinv_at s as" and c: "crash s \<in> {None, Some Assert_Failed}"
    using assms(2) by (auto simp: qinv_def)
  have crash: "qinv (s\<lparr>crash := Some Assert_Failed\<rparr>)"
    using I by (auto simp: qinv_def qinv_at_def priv_inv_def)
  from assms(1) show ?thesis
  proof cases
    case pop_check
    then show ?thesis using at_pop_check [OF I, of t] c by (auto simp: qinv_def)
  next
    case (pop_check_bad e)
    then show ?thesis using at_pop_check [OF I, of t] by simp
  next
    case (pop_next h n)
    then show ?thesis using at_pop_next [OF I, of t] c by (auto simp: qinv_def)
  next
    case (pop_next_bad e)
    then show ?thesis using at_pop_next [OF I, of t] by auto
  next
    case (pop_delete tmp h n)
    then show ?thesis using at_pop_delete [OF I, of t tmp] c by (auto simp: qinv_def)
  next
    case (pop_delete_bad tmp e)
    then show ?thesis using at_pop_delete [OF I, of t tmp] by auto
  next
    case (pop_read h n)
    then show ?thesis using at_pop_read [OF I, of t] c by (auto simp: qinv_def)
  next
    case (pop_read_bad e)
    then show ?thesis using at_pop_read [OF I, of t] by auto
  next
    case pop_assert
    then show ?thesis using crash by simp
  qed (use c I in \<open>auto simp: qinv_def intro!: exI [of _ as] at_pop_call at_pop_lock at_pop_dec at_pop_head at_pop_unlock\<close>)
qed

lemma init_qinv: "qinv (qsys_init d)"
proof -
  have "on_chain (SafeQueue_new d) [0]" by (rule new_on_chain)
  then have "qinv_at (qsys_init d) [0]"
    by (auto simp: on_chain_def qinv_at_def lock_inv_def data_inv_def priv_inv_def hpc_def tpc_def
        qsys_init_def vals_def)
  then show ?thesis by (auto simp: qinv_def qsys_init_def)
qed

interpretation qs: inductive_invariant qstart qstep qinv
  by unfold_locales (auto simp: qstart_def qstep_def init_qinv intro: push_step_qinv pop_step_qinv)

section \<open>The two models agree\<close>

lemma goto_goto [simp]: "goto t p (goto t p' s) = goto t p s"
  by (simp add: goto_def)

lemma push_uninterrupted:
  assumes pc: "pcs s t = Idle" and l: "h_lock s = None" and push: "SafeQueue_push v (que s) = Inr q'"
  shows "(push_step t)\<^sup>*\<^sup>* s (s\<lparr>que := q', pushed := pushed s @ [v]\<rparr>)"
proof -
  let ?a = "brk (que s)"
  let ?ns = "(nodes (que s))(?a \<mapsto> \<lparr>val = v, next = None\<rparr>)"
  obtain l n where n: "node_at ?ns (tail_ptr (que s)) = Inr (l, n)"
    and q': "q' = (que s)\<lparr>nodes := ?ns(l \<mapsto> n\<lparr>next := Some ?a\<rparr>), brk := Suc ?a,
       size_cnt := size_cnt (que s) + 1, tail_ptr := Some ?a\<rparr>"
    using push by (auto simp: SafeQueue_push_def new_NODE_def rbind_eq_Inr_iff)
  define s1 where "s1 = goto t (Push_Lock ?a) (s\<lparr>que := (que s)\<lparr>nodes := ?ns, brk := Suc ?a\<rparr>\<rparr>)"
  define s2 where "s2 = goto t (Push_Inc ?a) (s1\<lparr>h_lock := Some t\<rparr>)"
  define s3 where "s3 = goto t (Push_Link ?a) (s2\<lparr>que := (que s2)\<lparr>size_cnt := size_cnt (que s2) + 1\<rparr>\<rparr>)"
  define s4 where "s4 = goto t (Push_Tail ?a) (s3\<lparr>que := (que s3)\<lparr>nodes := (nodes (que s3))(l \<mapsto> n\<lparr>next := Some ?a\<rparr>)\<rparr>,
     pushed := pushed s3 @ [val (the (nodes (que s3) ?a))]\<rparr>)"
  define s5 where "s5 = goto t Push_Unlock (s4\<lparr>que := (que s4)\<lparr>tail_ptr := Some ?a\<rparr>\<rparr>)"
  define s6 where "s6 = goto t Idle (s5\<lparr>h_lock := None\<rparr>)"
  note S = s1_def s2_def s3_def s4_def s5_def s6_def
  have "push_step t s s1" unfolding s1_def by (rule push_alloc [OF pc]) (simp add: new_NODE_def)
  moreover have "push_step t s1 s2" unfolding s2_def by (rule push_lock) (simp_all add: s1_def l)
  moreover have "push_step t s2 s3" unfolding s3_def by (rule push_inc) (simp add: s2_def)
  moreover have "push_step t s3 s4" unfolding s4_def
    by (rule push_link) (simp_all add: s3_def s2_def s1_def n)
  moreover have "push_step t s4 s5" unfolding s5_def by (rule push_tail) (simp add: s4_def)
  moreover have "push_step t s5 s6" unfolding s6_def by (rule push_unlock) (simp add: s5_def)
  moreover have "s6 = s\<lparr>que := q', pushed := pushed s @ [v]\<rparr>"
    using pc l by (simp add: S q' goto_def fun_upd_idem)
  ultimately show ?thesis by (auto intro!: converse_rtranclp_into_rtranclp)
qed

lemma pop_uninterrupted:
  assumes pc: "pcs s t = Idle" and l: "t_lock s = None" and pop: "SafeQueue_pop (que s) = Inr (x, q')"
  shows "(pop_step t)\<^sup>*\<^sup>* s (s\<lparr>que := q', popped := popped s @ [x]\<rparr>)"
proof -
  let ?q = "que s"
  obtain h n m k where e: "SafeQueue_empty ?q = Inr False"
    and n: "node_at (nodes ?q) (head_ptr ?q) = Inr (h, n)"
    and m: "node_at ((nodes ?q)(h := None)) (next n) = Inr (k, m)" and x: "x = val m"
    and q': "q' = ?q\<lparr>size_cnt := size_cnt ?q - 1, nodes := (nodes ?q)(h := None), head_ptr := next n\<rparr>"
    using pop by (auto simp: SafeQueue_pop_def SafeQueue_erase_def rbind_eq_Inr_iff Let_def split: if_splits prod.splits)
  define s1 where "s1 = goto t Pop_Lock s"
  define s2 where "s2 = goto t Pop_Check (s1\<lparr>t_lock := Some t\<rparr>)"
  define s3 where "s3 = goto t Pop_Dec s2"
  define s4 where "s4 = goto t Pop_Next (s3\<lparr>que := (que s3)\<lparr>size_cnt := size_cnt (que s3) - 1\<rparr>\<rparr>)"
  define s5 where "s5 = goto t (Pop_Delete (next n)) s4"
  define s6 where "s6 = goto t (Pop_Head (next n)) (s5\<lparr>que := (que s5)\<lparr>nodes := (nodes (que s5))(h := None)\<rparr>\<rparr>)"
  define s7 where "s7 = goto t Pop_Read (s6\<lparr>que := (que s6)\<lparr>head_ptr := next n\<rparr>\<rparr>)"
  define s8 where "s8 = goto t (Pop_Unlock (val m)) (s7\<lparr>popped := popped s7 @ [val m]\<rparr>)"
  define s9 where "s9 = goto t Idle (s8\<lparr>t_lock := None\<rparr>)"
  note S = s1_def s2_def s3_def s4_def s5_def s6_def s7_def s8_def s9_def
  have "pop_step t s s1" unfolding s1_def using pc by (rule pop_call)
  moreover have "pop_step t s1 s2" unfolding s2_def by (rule pop_lock) (simp_all add: s1_def l)
  moreover have "pop_step t s2 s3" unfolding s3_def by (rule pop_check) (simp_all add: s2_def s1_def e)
  moreover have "pop_step t s3 s4" unfolding s4_def by (rule pop_dec) (simp add: s3_def)
  moreover have "pop_step t s4 s5" unfolding s5_def
    by (rule pop_next [where h = h]) (simp_all add: s4_def s3_def s2_def s1_def n)
  moreover have "pop_step t s5 s6" unfolding s6_def
    by (rule pop_delete [where n = n]) (simp_all add: s5_def s4_def s3_def s2_def s1_def n)
  moreover have "pop_step t s6 s7" unfolding s7_def by (rule pop_head) (simp add: s6_def)
  moreover have "pop_step t s7 s8" unfolding s8_def
    by (rule pop_read [where h = k]) (simp_all add: s7_def s6_def s5_def s4_def s3_def s2_def s1_def m)
  moreover have "pop_step t s8 s9" unfolding s9_def by (rule pop_unlock) (simp add: s8_def)
  moreover have "s9 = s\<lparr>que := q', popped := popped s @ [x]\<rparr>"
    using pc l by (simp add: S q' x goto_def fun_upd_idem)
  ultimately show ?thesis by (auto intro!: converse_rtranclp_into_rtranclp)
qed

lemma idle_on_chain:
  assumes I: "qinv_at s as" and idle: "\<And>t. pcs s t = Idle"
  shows "on_chain (que s) as" and "pushed s = popped s @ vals (nodes (que s)) (tl as)"
proof -
  have "hpc s = Idle" "tpc s = Idle"
    using idle by (simp_all add: hpc_def tpc_def split: option.split)
  then have D: "data_inv (que s) Idle Idle (pushed s) (popped s) as" using at_inv(2) [OF I] by simp
  have "set as = dom (nodes (que s))"
    using at_inv(3,4) [OF I] idle by (fastforce simp: priv_inv_def)
  then show "on_chain (que s) as" "pushed s = popped s @ vals (nodes (que s)) (tl as)"
    using D by (auto simp: data_inv_def on_chain_def)
qed

lemma qinv_prefix: "qinv s \<Longrightarrow> prefix (popped s) (pushed s)"
  by (auto simp: qinv_def qinv_at_def data_inv_def)

text \<open>The state in which one producer has counted its element and not linked it.\<close>

definition race_state :: "nat qsys" where
  "race_state = (let q = SafeQueue_new 0; ns = (nodes q)(1 \<mapsto> \<lparr>val = 7, next = None\<rparr>)
     in (qsys_init 0)\<lparr>que := q\<lparr>nodes := ns, brk := 2, size_cnt := 1\<rparr>, h_lock := Some 0,
        pcs := (\<lambda>_. Idle)(0 := Push_Link 1)\<rparr>)"

lemma qstepI: "crash s = None \<Longrightarrow> push_step t s s' \<or> pop_step t s s' \<Longrightarrow> qstep s s'"
  by (auto simp: qstep_def)

lemma race_reachable: "reach qstart qstep race_state"
proof -
  let ?i = "qsys_init (0::nat)"
  let ?q = "SafeQueue_new (0::nat)"
  let ?ns = "(nodes ?q)(1 \<mapsto> \<lparr>val = 7, next = None\<rparr>)"
  define s1 where "s1 = goto 0 (Push_Lock 1) (?i\<lparr>que := (que ?i)\<lparr>nodes := ?ns, brk := 2\<rparr>\<rparr>)"
  define s2 where "s2 = goto 0 (Push_Inc 1) (s1\<lparr>h_lock := Some 0\<rparr>)"
  define s3 where "s3 = goto 0 (Push_Link 1) (s2\<lparr>que := (que s2)\<lparr>size_cnt := size_cnt (que s2) + 1\<rparr>\<rparr>)"
  have "push_step 0 ?i s1" unfolding s1_def
    by (rule push_alloc [where v = 7]) (simp_all add: qsys_init_def new_NODE_def SafeQueue_new_def numeral_2_eq_2)
  moreover have "push_step 0 s1 s2" unfolding s2_def by (rule push_lock) (simp_all add: s1_def qsys_init_def)
  moreover have "push_step 0 s2 s3" unfolding s3_def by (rule push_inc) (simp add: s2_def)
  moreover have "crash ?i = None" "crash s1 = None" "crash s2 = None"
    by (simp_all add: s1_def s2_def qsys_init_def)
  moreover have "reach qstart qstep ?i" by (rule reach_start) (auto simp: qstart_def)
  ultimately have "reach qstart qstep s3" by (meson qstepI reach_step)
  moreover have "s3 = race_state"
    by (simp add: race_state_def s3_def s2_def s1_def goto_def qsys_init_def SafeQueue_new_def new_NODE_def Let_def)
  ultimately show ?thesis by simp
qed

section \<open>Properties\<close>

lemma queue_quiescent:
  assumes "reach qstart qstep s" and "\<forall>t. pcs s t = Idle"
  shows "SafeQueue_inv (que s) \<and> pushed s = popped s @ contents (que s)
    \<and> SafeQueue_size (que s) = of_nat (length (contents (que s)))"
proof -
  obtain as where I: "qinv_at s as" using qs.reach_inv [OF assms(1)] by (auto simp: qinv_def)
  then have oc: "on_chain (que s) as" "pushed s = popped s @ vals (nodes (que s)) (tl as)"
    using idle_on_chain [OF I] assms(2) by auto
  then have "SafeQueue_inv (que s)" by (auto simp: SafeQueue_inv_def)
  then show ?thesis using oc contents_on_chain [OF oc(1)] by (simp add: sq.size_law)
qed

text \<open>C9: With any number of threads pushing and popping, interleaved at single accesses, the process
  never touches a deleted node or a null pointer (the only way it stops is the assertion of \<open>pop\<close> on
  an empty list), and the values popped so far are, in order, a prefix of the values linked so far.
  Whenever no thread is inside a call, the queue is a valid sequential queue again, with nothing leaked,
  it holds exactly the values that were pushed and not yet popped, in order, and \<open>size()\<close> is their
  number.\<close>

theorem concurrent_queue_safe:
  assumes "reach qstart qstep s"
  shows "crash s \<in> {None, Some Assert_Failed} \<and> prefix (popped s) (pushed s)
    \<and> ((\<forall>t. pcs s t = Idle) \<longrightarrow> SafeQueue_inv (que s) \<and> pushed s = popped s @ contents (que s)
         \<and> SafeQueue_size (que s) = of_nat (length (contents (que s))))"
  using qs.reach_inv [OF assms] qinv_prefix queue_quiescent [OF assms] by (auto simp: qinv_def)

theorem concurrent_queue_safe_witness:
  "crash race_state \<in> {None, Some Assert_Failed} \<and> prefix (popped race_state) (pushed race_state)
    \<and> pushed (qsys_init (0::nat)) = popped (qsys_init (0::nat)) @ contents (que (qsys_init (0::nat)))"
proof -
  have "reach qstart qstep (qsys_init (0::nat))" by (rule reach_start) (auto simp: qstart_def)
  moreover have "\<forall>t. pcs (qsys_init (0::nat)) t = Idle" by (simp add: qsys_init_def)
  ultimately show ?thesis
    using concurrent_queue_safe [OF race_reachable] concurrent_queue_safe [of "qsys_init (0::nat)"] by blast
qed

text \<open>A call that is not interrupted does exactly what the sequential model of the call says, for
  \<open>push\<close> and for \<open>pop\<close>: the statement-level steps refine to the calls.\<close>

theorem calls_are_steps:
  assumes "pcs s t = Idle"
  shows "(h_lock s = None \<and> SafeQueue_push v (que s) = Inr q' \<longrightarrow>
      (push_step t)\<^sup>*\<^sup>* s (s\<lparr>que := q', pushed := pushed s @ [v]\<rparr>)) \<and>
    (t_lock s = None \<and> SafeQueue_pop (que s) = Inr (x, q') \<longrightarrow>
      (pop_step t)\<^sup>*\<^sup>* s (s\<lparr>que := q', popped := popped s @ [x]\<rparr>))"
  using push_uninterrupted [OF assms] pop_uninterrupted [OF assms] by blast

theorem calls_are_steps_witness:
  "\<exists>q'. SafeQueue_push (5::nat) (que (qsys_init 0)) = Inr q' \<and>
     (push_step 0)\<^sup>*\<^sup>* (qsys_init 0) ((qsys_init 0)\<lparr>que := q', pushed := [5]\<rparr>)"
proof -
  have i: "pcs (qsys_init (0::nat)) 0 = Idle" "h_lock (qsys_init (0::nat)) = None"
    "pushed (qsys_init (0::nat)) = []" "que (qsys_init (0::nat)) = SafeQueue_new 0"
    by (simp_all add: qsys_init_def)
  obtain q' where q': "SafeQueue_push (5::nat) (SafeQueue_new 0) = Inr q'"
    by (rule sq.pushE [OF new_inv])
  have "(push_step 0)\<^sup>*\<^sup>* (qsys_init 0) ((qsys_init 0)\<lparr>que := q', pushed := pushed (qsys_init 0) @ [5]\<rparr>)"
    using calls_are_steps [OF i(1), where v = 5 and q' = q'] i q' by simp
  then show ?thesis using i q' by auto
qed

text \<open>C33: Testing \<open>size()\<close> does not protect \<open>pop()\<close> from the assertion when a producer is active: there
  is a reachable state in which \<open>size()\<close> is not zero and a consumer that now calls \<open>pop()\<close>, with no
  further interference, aborts the process. \<open>push\<close> counts the element before it links it.\<close>

theorem size_guard_race:
  "\<exists>s s'. reach qstart qstep s \<and> SafeQueue_size (que (s :: nat qsys)) \<noteq> 0 \<and> pcs s 1 = Idle \<and> crash s = None
    \<and> (pop_step 1)\<^sup>*\<^sup>* s s' \<and> crash s' = Some Assert_Failed"
proof -
  define s1 where "s1 = goto 1 Pop_Lock race_state"
  define s2 where "s2 = goto 1 Pop_Check (s1\<lparr>t_lock := Some 1\<rparr>)"
  define s3 where "s3 = s2\<lparr>crash := Some Assert_Failed\<rparr>"
  note R = race_state_def qsys_init_def SafeQueue_new_def new_NODE_def Let_def
  have "pop_step 1 race_state s1" unfolding s1_def by (rule pop_call) (simp add: R)
  moreover have "pop_step 1 s1 s2" unfolding s2_def by (rule pop_lock) (simp_all add: s1_def R)
  moreover have "pop_step 1 s2 s3" unfolding s3_def
    by (rule pop_assert) (simp_all add: s2_def s1_def R SafeQueue_empty_def node_at_def)
  ultimately have "(pop_step 1)\<^sup>*\<^sup>* race_state s3"
    by (auto intro!: converse_rtranclp_into_rtranclp)
  moreover have "SafeQueue_size (que race_state) \<noteq> 0" "pcs race_state 1 = Idle" "crash race_state = None"
    by (simp_all add: R SafeQueue_size_def)
  ultimately show ?thesis using race_reachable s3_def
    by (intro exI [of _ race_state] exI [of _ s3]) simp
qed

end
