(* ===== verification/SafeMap.thy ===== *)
theory SafeMap
  imports Prelude
begin

text \<open>
  The map of \<open>include/safemap.hpp\<close>: a \<open>std::map\<close> behind one lock, and \<open>WDItr\<close>, an iterator that
  carries a snapshot of the whole map. The ordered map is an association list with strictly
  ascending keys; every method of \<open>SafeMap\<close> runs under its lock, so the methods are the atomic steps.
  Lemmas: the order invariant, each method against a lookup function (the locale \<open>lookup_map\<close> is
  the contract the client relies on), and what a loop over the iterators visits.
\<close>

section \<open>Ordered maps\<close>

text \<open>The operations of \<open>std::map\<close> the source uses. \<open>insert\<close> leaves an existing entry alone.\<close>

type_synonym ('k, 'v) stdmap = "('k \<times> 'v) list"

fun stdmap_insert :: "'k::linorder \<Rightarrow> 'v \<Rightarrow> ('k, 'v) stdmap \<Rightarrow> ('k, 'v) stdmap" where
  "stdmap_insert k v [] = [(k, v)]"
| "stdmap_insert k v ((a, b) # m) =
     (if k < a then (k, v) # (a, b) # m
      else if k = a then (a, b) # m
      else (a, b) # stdmap_insert k v m)"

definition stdmap_assign :: "'k \<Rightarrow> 'v \<Rightarrow> ('k, 'v) stdmap \<Rightarrow> ('k, 'v) stdmap" where
  "stdmap_assign k v m = map (\<lambda>(a, b). if a = k then (a, v) else (a, b)) m"

definition stdmap_erase :: "'k \<Rightarrow> ('k, 'v) stdmap \<Rightarrow> ('k, 'v) stdmap" where
  "stdmap_erase k m = filter (\<lambda>(a, b). a \<noteq> k) m"

text \<open>The entry an iterator at key \<open>k\<close> moves to: none if \<open>k\<close> is absent or last.\<close>

fun stdmap_next :: "'k \<Rightarrow> ('k, 'v) stdmap \<Rightarrow> ('k \<times> 'v) option" where
  "stdmap_next k [] = None"
| "stdmap_next k ((a, b) # m) =
     (if a = k then (case m of [] \<Rightarrow> None | x # _ \<Rightarrow> Some x) else stdmap_next k m)"

definition stdmap_ok :: "('k::linorder, 'v) stdmap \<Rightarrow> bool" where
  "stdmap_ok m \<longleftrightarrow> sorted_wrt (<) (map fst m)"

section \<open>Iterators\<close>

text \<open>
  \<open>first\<close> and \<open>second\<close> are not set by the constructors: \<^term>\<open>None\<close> is an indeterminate member.
  \<open>oldSelf\<close> is the copy that the postfix increment keeps and returns.
\<close>

datatype ('k, 'v) WDItr =
  WDItr (isEnd: bool) (itr_first: "'k option") (itr_second: "'v option") (tempMap: "('k, 'v) stdmap")
    (oldSelf: "('k, 'v) WDItr option")

definition WDItr_default :: "('k, 'v) WDItr" where
  "WDItr_default = WDItr True None None [] None"

definition WDItr_of_map :: "('k, 'v) stdmap \<Rightarrow> ('k, 'v) WDItr" where
  "WDItr_of_map m = WDItr True None None m None"

text \<open>The copy constructor copies the snapshot and, recursively, the kept copy.\<close>

fun WDItr_copy :: "('k, 'v) WDItr \<Rightarrow> ('k, 'v) WDItr" where
  "WDItr_copy (WDItr e f s m old) =
     WDItr e f s m (case old of None \<Rightarrow> None | Some w \<Rightarrow> Some (WDItr_copy w))"

text \<open>\<open>operator=\<close> of two distinct objects; assigning an object to itself changes nothing.\<close>

definition WDItr_assign :: "bool \<Rightarrow> ('k, 'v) WDItr \<Rightarrow> ('k, 'v) WDItr \<Rightarrow> ('k, 'v) WDItr" where
  "WDItr_assign same_object this val = (if same_object then this else WDItr_copy val)"

fun WDItr_pre_inc :: "('k, 'v) WDItr \<Rightarrow> ('k, 'v) WDItr res" where
  "WDItr_pre_inc (WDItr e f s m old) =
     rbind (if m = [] then Inr None else rbind (deref Uninit_Read f) (\<lambda>k. Inr (stdmap_next k m)))
       (\<lambda>n. case n of
          None \<Rightarrow> Inr (WDItr True f s m old)
        | Some (k', v') \<Rightarrow> Inr (WDItr False (Some k') (Some v') m old))"

text \<open>The postfix increment returns the kept copy of the iterator before the step.\<close>

fun WDItr_post_inc :: "('k, 'v) WDItr \<Rightarrow> (('k, 'v) WDItr \<times> ('k, 'v) WDItr) res" where
  "WDItr_post_inc (WDItr e f s m old) =
     (let kept = WDItr_copy (WDItr e f s m None)
      in rbind (WDItr_pre_inc (WDItr e f s m (Some kept))) (\<lambda>this. Inr (kept, this)))"

definition WDItr_eq :: "('k, 'v) WDItr \<Rightarrow> ('k, 'v) WDItr \<Rightarrow> bool res" where
  "WDItr_eq this val =
     (if isEnd this \<and> isEnd val then Inr True
      else if isEnd this = isEnd val then
        rbind (deref Uninit_Read (itr_first this)) (\<lambda>a.
        rbind (deref Uninit_Read (itr_first val)) (\<lambda>b. Inr (a = b)))
      else Inr False)"

definition WDItr_neq :: "('k, 'v) WDItr \<Rightarrow> ('k, 'v) WDItr \<Rightarrow> bool res" where
  "WDItr_neq this val = rbind (WDItr_eq this val) (\<lambda>b. Inr (\<not> b))"

section \<open>SafeMap\<close>

record ('k, 'v) SafeMap =
  wdmap :: "('k, 'v) stdmap"

definition SafeMap_new :: "('k, 'v) SafeMap" where
  "SafeMap_new = \<lparr>wdmap = []\<rparr>"

text \<open>The copy constructor and \<open>operator=\<close> take over the other object's map.\<close>

definition SafeMap_copy :: "('k, 'v) SafeMap \<Rightarrow> ('k, 'v) SafeMap" where
  "SafeMap_copy val = \<lparr>wdmap = wdmap val\<rparr>"

definition SafeMap_assign :: "bool \<Rightarrow> ('k, 'v) SafeMap \<Rightarrow> ('k, 'v) SafeMap \<Rightarrow> ('k, 'v) SafeMap" where
  "SafeMap_assign same_object this val = (if same_object then this else this\<lparr>wdmap := wdmap val\<rparr>)"

text \<open>
  \<open>operator[]\<close>: the value at a key, after inserting the default value \<open>V()\<close> (the parameter) for an
  absent key. Assigning through the returned reference writes that entry.
\<close>

definition SafeMap_index :: "'v \<Rightarrow> 'k::linorder \<Rightarrow> ('k, 'v) SafeMap \<Rightarrow> ('v \<times> ('k, 'v) SafeMap) res" where
  "SafeMap_index dflt k t =
     (let m = (if map_of (wdmap t) k = None then stdmap_insert k dflt (wdmap t) else wdmap t)
      in rbind (deref Null_Deref (map_of m k)) (\<lambda>v. Inr (v, t\<lparr>wdmap := m\<rparr>)))"

definition SafeMap_index_assign :: "'v \<Rightarrow> 'k::linorder \<Rightarrow> 'v \<Rightarrow> ('k, 'v) SafeMap \<Rightarrow> ('k, 'v) SafeMap res" where
  "SafeMap_index_assign dflt k v t =
     rbind (SafeMap_index dflt k t) (\<lambda>(_, t'). Inr (t'\<lparr>wdmap := stdmap_assign k v (wdmap t')\<rparr>))"

definition SafeMap_size :: "('k, 'v) SafeMap \<Rightarrow> 32 word" where
  "SafeMap_size t = of_nat (length (wdmap t))"

definition SafeMap_update :: "'k \<Rightarrow> 'v \<Rightarrow> ('k, 'v) SafeMap \<Rightarrow> bool \<times> ('k, 'v) SafeMap" where
  "SafeMap_update k v t =
     (if map_of (wdmap t) k \<noteq> None then (True, t\<lparr>wdmap := stdmap_assign k v (wdmap t)\<rparr>)
      else (False, t))"

definition SafeMap_update_itr :: "('k, 'v) WDItr \<Rightarrow> ('k, 'v) SafeMap \<Rightarrow> (bool \<times> ('k, 'v) SafeMap) res" where
  "SafeMap_update_itr w t =
     rbind (deref Uninit_Read (itr_first w)) (\<lambda>k.
     rbind (deref Uninit_Read (itr_second w)) (\<lambda>v. Inr (SafeMap_update k v t)))"

definition SafeMap_erase :: "'k \<Rightarrow> ('k, 'v) SafeMap \<Rightarrow> ('k, 'v) SafeMap" where
  "SafeMap_erase k t = t\<lparr>wdmap := stdmap_erase k (wdmap t)\<rparr>"

definition SafeMap_erase_itr :: "('k, 'v) WDItr \<Rightarrow> ('k, 'v) SafeMap \<Rightarrow> ('k, 'v) SafeMap res" where
  "SafeMap_erase_itr w t = rbind (deref Uninit_Read (itr_first w)) (\<lambda>k. Inr (SafeMap_erase k t))"

definition SafeMap_find :: "'k \<Rightarrow> ('k, 'v) SafeMap \<Rightarrow> ('k, 'v) WDItr" where
  "SafeMap_find k t =
     (case map_of (wdmap t) k of
        None \<Rightarrow> WDItr_of_map (wdmap t)
      | Some v \<Rightarrow> WDItr False (Some k) (Some v) (wdmap t) None)"

definition SafeMap_insert :: "'k::linorder \<Rightarrow> 'v \<Rightarrow> ('k, 'v) SafeMap \<Rightarrow> ('k, 'v) SafeMap" where
  "SafeMap_insert k v t = t\<lparr>wdmap := stdmap_insert k v (wdmap t)\<rparr>"

definition SafeMap_end :: "('k, 'v) WDItr" where
  "SafeMap_end = WDItr_default"

definition SafeMap_begin :: "('k, 'v) SafeMap \<Rightarrow> ('k, 'v) WDItr" where
  "SafeMap_begin t =
     (case wdmap t of
        [] \<Rightarrow> WDItr_of_map (wdmap t)
      | (k, v) # _ \<Rightarrow> WDItr False (Some k) (Some v) (wdmap t) None)"

text \<open>The test the callers write: \<open>find(k) != end()\<close>.\<close>

definition SafeMap_has :: "'k \<Rightarrow> ('k, 'v) SafeMap \<Rightarrow> bool res" where
  "SafeMap_has k t = WDItr_neq (SafeMap_find k t) SafeMap_end"

section \<open>The order invariant\<close>

definition SafeMap_inv :: "('k::linorder, 'v) SafeMap \<Rightarrow> bool" where
  "SafeMap_inv t \<longleftrightarrow> stdmap_ok (wdmap t)"

lemma stdmap_ok_Cons:
  "stdmap_ok ((a, b) # m) \<longleftrightarrow> (\<forall>k \<in> fst ` set m. a < k) \<and> stdmap_ok m"
  by (auto simp: stdmap_ok_def)

lemma stdmap_ok_Nil [simp]: "stdmap_ok []"
  by (simp add: stdmap_ok_def)

lemma fst_stdmap_insert: "fst ` set (stdmap_insert k v m) = insert k (fst ` set m)"
  by (induction k v m rule: stdmap_insert.induct) auto

lemma ok_insert: "stdmap_ok m \<Longrightarrow> stdmap_ok (stdmap_insert k v m)"
  by (induction k v m rule: stdmap_insert.induct)
    (auto simp: stdmap_ok_Cons fst_stdmap_insert)

lemma keys_assign [simp]: "map fst (stdmap_assign k v m) = map fst m"
  by (induction m) (auto simp: stdmap_assign_def)

lemma ok_assign: "stdmap_ok m \<Longrightarrow> stdmap_ok (stdmap_assign k v m)"
  by (simp add: stdmap_ok_def)

lemma ok_erase: "stdmap_ok m \<Longrightarrow> stdmap_ok (stdmap_erase k m)"
  by (induction m) (auto simp: stdmap_ok_def stdmap_erase_def)

lemma ok_distinct: "stdmap_ok m \<Longrightarrow> distinct (map fst m)"
  by (induction m) (auto simp: stdmap_ok_def)

lemma map_of_insert:
  "stdmap_ok m \<Longrightarrow> map_of (stdmap_insert k v m) =
     (if map_of m k = None then (map_of m)(k \<mapsto> v) else map_of m)"
proof (induction k v m rule: stdmap_insert.induct)
  case (2 k v a b m)
  have "map_of m k = None" if "k < a"
    using 2(2) that by (auto simp: stdmap_ok_Cons map_of_eq_None_iff)
  with 2 show ?case by (auto simp: stdmap_ok_Cons fun_eq_iff)
qed auto

lemma map_of_assign:
  "map_of (stdmap_assign k v m) = (if map_of m k = None then map_of m else (map_of m)(k \<mapsto> v))"
  by (induction m) (auto simp: stdmap_assign_def fun_eq_iff)

lemma map_of_erase: "map_of (stdmap_erase k m) = (map_of m)(k := None)"
  by (induction m) (auto simp: stdmap_erase_def fun_eq_iff)

lemmas map_of_ops = map_of_insert map_of_assign map_of_erase
lemmas ok_ops = ok_insert ok_assign ok_erase

section \<open>The contract\<close>

text \<open>
  What the client relies on: the membership test \<open>find(k) != end()\<close>, \<open>operator[]\<close> read and
  assigned, and \<open>erase\<close>, all against one lookup function.
\<close>

locale lookup_map =
  fixes inv :: "'m \<Rightarrow> bool"
    and lookup :: "'m \<Rightarrow> 'k \<Rightarrow> 'v option"
    and has :: "'k \<Rightarrow> 'm \<Rightarrow> bool res"
    and get :: "'v \<Rightarrow> 'k \<Rightarrow> 'm \<Rightarrow> ('v \<times> 'm) res"
    and put :: "'v \<Rightarrow> 'k \<Rightarrow> 'v \<Rightarrow> 'm \<Rightarrow> 'm res"
    and del :: "'k \<Rightarrow> 'm \<Rightarrow> 'm"
  assumes has_law: "inv m \<Longrightarrow> has k m = Inr (lookup m k \<noteq> None)"
    and get_hit: "inv m \<Longrightarrow> lookup m k = Some v \<Longrightarrow> get d k m = Inr (v, m)"
    and get_miss: "inv m \<Longrightarrow> lookup m k = None \<Longrightarrow>
      \<exists>m'. get d k m = Inr (d, m') \<and> inv m' \<and> lookup m' = (lookup m)(k \<mapsto> d)"
    and put_law: "inv m \<Longrightarrow> \<exists>m'. put d k v m = Inr m' \<and> inv m' \<and> lookup m' = (lookup m)(k \<mapsto> v)"
    and inv_del: "inv m \<Longrightarrow> inv (del k m)"
    and lookup_del: "inv m \<Longrightarrow> lookup (del k m) = (lookup m)(k := None)"
begin

text \<open>After a successful membership test, \<open>operator[]\<close> reads the stored value and inserts nothing.\<close>

lemma has_then_get: "inv m \<Longrightarrow> has k m = Inr True \<Longrightarrow> \<exists>v. lookup m k = Some v \<and> get d k m = Inr (v, m)"
  using has_law [of m k] get_hit [of m k] by auto

lemma putE:
  assumes "inv m"
  obtains m' where "put d k v m = Inr m'" "inv m'" "lookup m' = (lookup m)(k \<mapsto> v)"
  using put_law [OF assms] by blast

lemma put_then_get: "inv m \<Longrightarrow> put d k v m = Inr m' \<Longrightarrow> get d' k m' = Inr (v, m')"
  using put_law [of m d k v] get_hit [of m' k v] by auto

lemma put_Inr: "inv m \<Longrightarrow> put d k v m = Inr m' \<Longrightarrow> inv m' \<and> lookup m' = (lookup m)(k \<mapsto> v)"
  using put_law [of m d k v] by auto

lemma del_then_has: "inv m \<Longrightarrow> has k (del k m) = Inr False"
  using has_law [OF inv_del, of m k] lookup_del [of m k] by simp

end

definition SafeMap_lookup :: "('k, 'v) SafeMap \<Rightarrow> 'k \<Rightarrow> 'v option" where
  "SafeMap_lookup t = map_of (wdmap t)"

lemma has_eq: "SafeMap_has k t = Inr (SafeMap_lookup t k \<noteq> None)"
  by (simp add: SafeMap_has_def WDItr_neq_def WDItr_eq_def SafeMap_end_def WDItr_default_def
      SafeMap_find_def SafeMap_lookup_def WDItr_of_map_def split: option.split)

lemma index_eq:
  "SafeMap_inv t \<Longrightarrow> \<exists>m. SafeMap_index d k t = Inr (case SafeMap_lookup t k of None \<Rightarrow> d | Some v \<Rightarrow> v, t\<lparr>wdmap := m\<rparr>)
     \<and> stdmap_ok m \<and> map_of m = (if SafeMap_lookup t k = None then (SafeMap_lookup t)(k \<mapsto> d) else SafeMap_lookup t)
     \<and> (SafeMap_lookup t k \<noteq> None \<longrightarrow> m = wdmap t)"
  by (cases "SafeMap_lookup t k")
    (auto simp: SafeMap_index_def SafeMap_lookup_def SafeMap_inv_def map_of_ops ok_ops)

lemma index_assign_eq:
  assumes "SafeMap_inv t"
  shows "\<exists>t'. SafeMap_index_assign d k v t = Inr t' \<and> SafeMap_inv t' \<and> SafeMap_lookup t' = (SafeMap_lookup t)(k \<mapsto> v)"
proof -
  obtain x m where i: "SafeMap_index d k t = Inr (x, t\<lparr>wdmap := m\<rparr>)" and ok: "stdmap_ok m"
    and m: "map_of m = (if SafeMap_lookup t k = None then (SafeMap_lookup t)(k \<mapsto> d) else SafeMap_lookup t)"
    using index_eq [OF assms, of d k] by blast
  have "map_of (stdmap_assign k v m) = (SafeMap_lookup t)(k \<mapsto> v)"
    using m by (cases "SafeMap_lookup t k") (simp_all add: map_of_assign)
  then show ?thesis
    using i ok by (simp add: SafeMap_index_assign_def SafeMap_inv_def SafeMap_lookup_def ok_assign)
qed

interpretation sm: lookup_map SafeMap_inv SafeMap_lookup SafeMap_has SafeMap_index SafeMap_index_assign SafeMap_erase
proof
  fix m :: "('a::linorder, 'b) SafeMap" and k :: 'a and v d :: 'b
  assume I: "SafeMap_inv m"
  show "SafeMap_has k m = Inr (SafeMap_lookup m k \<noteq> None)" by (rule has_eq)
  show "SafeMap_index d k m = Inr (v, m)" if "SafeMap_lookup m k = Some v"
    using index_eq [OF I, of d k] that by auto
  show "\<exists>m'. SafeMap_index d k m = Inr (d, m') \<and> SafeMap_inv m' \<and> SafeMap_lookup m' = (SafeMap_lookup m)(k \<mapsto> d)"
    if "SafeMap_lookup m k = None"
    using index_eq [OF I, of d k] that by (auto simp: SafeMap_inv_def SafeMap_lookup_def)
  show "\<exists>m'. SafeMap_index_assign d k v m = Inr m' \<and> SafeMap_inv m' \<and> SafeMap_lookup m' = (SafeMap_lookup m)(k \<mapsto> v)"
    using I by (rule index_assign_eq)
  show "SafeMap_inv (SafeMap_erase k m)" "SafeMap_lookup (SafeMap_erase k m) = (SafeMap_lookup m)(k := None)"
    using I by (simp_all add: SafeMap_inv_def SafeMap_erase_def SafeMap_lookup_def map_of_ops ok_ops)
qed

section \<open>Loops over iterators\<close>

text \<open>The loop \<open>for (it = begin(); it != end(); it++)\<close>, collecting what \<open>it\<close> points at.\<close>

fun WDItr_loop :: "nat \<Rightarrow> ('k, 'v) WDItr \<Rightarrow> ('k \<times> 'v) list res option" where
  "WDItr_loop 0 w = None"
| "WDItr_loop (Suc fuel) w =
     (case WDItr_neq w SafeMap_end of
        Inl e \<Rightarrow> Some (Inl e)
      | Inr False \<Rightarrow> Some (Inr [])
      | Inr True \<Rightarrow>
          (case rbind (deref Uninit_Read (itr_first w)) (\<lambda>k. rbind (deref Uninit_Read (itr_second w)) (\<lambda>v.
                  rbind (WDItr_post_inc w) (\<lambda>(_, w'). Inr ((k, v), w')))) of
             Inl e \<Rightarrow> Some (Inl e)
           | Inr (x, w') \<Rightarrow> map_option (\<lambda>r. rbind r (\<lambda>xs. Inr (x # xs))) (WDItr_loop fuel w')))"

lemma WDItr_copy_id [simp]: "WDItr_copy w = w"
  by (induction w rule: WDItr_copy.induct) (auto split: option.split)

lemma stdmap_next_mid:
  "k \<notin> fst ` set xs \<Longrightarrow> stdmap_next k (xs @ (k, v) # ys) = (case ys of [] \<Rightarrow> None | y # _ \<Rightarrow> Some y)"
  by (induction xs) auto

lemma neq_end: "WDItr_neq (WDItr e f s m old) SafeMap_end = Inr (\<not> e)"
  by (simp add: WDItr_neq_def WDItr_eq_def SafeMap_end_def WDItr_default_def)

lemma loop_suffix:
  "m = xs @ (k, v) # ys \<Longrightarrow> distinct (map fst m) \<Longrightarrow>
     WDItr_loop (Suc (Suc (length ys))) (WDItr False (Some k) (Some v) m old) = Some (Inr ((k, v) # ys))"
proof (induction ys arbitrary: xs k v old)
  case Nil
  then show ?case by (auto simp: neq_end stdmap_next_mid Let_def)
next
  case (Cons y ys)
  obtain k' v' where y: "y = (k', v')" by (cases y)
  have nxt: "stdmap_next k m = Some (k', v')" using Cons.prems y by (auto simp: stdmap_next_mid)
  have "m = (xs @ [(k, v)]) @ (k', v') # ys" using Cons.prems y by simp
  from Cons.IH [OF this Cons.prems(2)] nxt y Cons.prems(1) show ?case
    by (simp add: neq_end Let_def)
qed

section \<open>Properties\<close>



text \<open>C16: A loop from \<open>begin()\<close> to \<open>end()\<close> ends after one more test than there are entries, never reads
  an indeterminate member, and visits exactly the entries the map had when \<open>begin()\<close> was called, once
  each and in ascending order of the keys.\<close>

theorem iteration_visits_all:
  assumes "SafeMap_inv t"
  shows "WDItr_loop (Suc (length (wdmap t))) (SafeMap_begin t) = Some (Inr (wdmap t))
    \<and> sorted_wrt (<) (map fst (wdmap t))"
proof (cases "wdmap t")
  case Nil
  then show ?thesis by (simp add: SafeMap_begin_def WDItr_of_map_def neq_end)
next
  case (Cons x ys)
  obtain k v where x: "x = (k, v)" by (cases x)
  have "distinct (map fst (wdmap t))" using assms ok_distinct by (auto simp: SafeMap_inv_def)
  then have "WDItr_loop (Suc (Suc (length ys))) (WDItr False (Some k) (Some v) (wdmap t) None) = Some (Inr ((k, v) # ys))"
    using Cons x by (intro loop_suffix [of _ "[]"]) auto
  then show ?thesis using Cons x assms by (simp add: SafeMap_begin_def SafeMap_inv_def stdmap_ok_def)
qed

theorem iteration_visits_all_witness:
  "WDItr_loop 3 (SafeMap_begin (SafeMap_insert (1::int) ''a'' (SafeMap_insert 4 ''b'' SafeMap_new)))
     = Some (Inr [(1, ''a''), (4, ''b'')])"
proof -
  let ?t = "SafeMap_insert (1::int) ''a'' (SafeMap_insert 4 ''b'' SafeMap_new)"
  have "SafeMap_inv ?t" and m: "wdmap ?t = [(1, ''a''), (4, ''b'')]"
    by (simp_all add: SafeMap_inv_def SafeMap_insert_def SafeMap_new_def stdmap_ok_def)
  from iteration_visits_all [OF this(1)] m show ?thesis by (simp add: numeral_3_eq_3)
qed

end
