(* ===== verification/SafeMapConc.thy ===== *)
theory SafeMapConc
  imports SafeMap
begin

text \<open>
  The map of \<open>include/safemap.hpp\<close> under concurrent use: any number of threads and of map objects, each
  thread inside one method at a time, interleaved between any two accesses to a \<open>std::map\<close> and at the
  locks (\<open>CLock\<close>). \<open>operator[]\<close> hands out a reference after it has released the lock, so an assignment
  through it is an access without a lock. Lemmas: without such assignments the locks make every method
  atomic, so that the methods of theory \<open>SafeMap\<close> are the right description of them; with them a \<open>find\<close>
  can return a value that is not in its own snapshot; and \<open>operator=\<close>, which takes two locks, can wait
  for ever.
\<close>

section \<open>Model\<close>

text \<open>The calls; \<open>C_Index k (Some v)\<close> is \<open>m[k] = v\<close>, and \<open>C_Write\<close> is how its assignment is recorded.\<close>

datatype ('k, 'v) mcall =
    C_Index 'k "'v option"
  | C_Write 'k 'v
  | C_Size
  | C_Update 'k 'v
  | C_Erase 'k
  | C_Find 'k
  | C_Insert 'k 'v
  | C_Begin
  | C_Assign nat

datatype ('k, 'v) mres =
    R_Unit
  | R_Size "32 word"
  | R_Bool bool
  | R_Itr "('k, 'v) WDItr"

text \<open>Where a thread is, named by the access it performs next; the snapshots are its local copies.\<close>

datatype ('k, 'v) mop =
    Lock_For "('k, 'v) mcall"
  | Index_Look 'k "'v option"
  | Index_Insert 'k "'v option"
  | Size_Read
  | Update_Look 'k 'v
  | Update_Write 'k 'v
  | Erase_Do 'k
  | Find_Copy 'k
  | Find_Look 'k "('k, 'v) stdmap"
  | Insert_Do 'k 'v
  | Begin_Copy
  | Begin_Look "('k, 'v) stdmap"
  | Assign_Lock nat
  | Assign_Copy nat
  | Assign_Unlock nat
  | Unlock "('k \<times> 'v) option"
  | Ref_Write 'k 'v

text \<open>The first access of a method, once its lock is held.\<close>

fun first_op :: "('k, 'v) mcall \<Rightarrow> ('k, 'v) mop" where
  "first_op (C_Index k w) = Index_Look k w"
| "first_op (C_Write k v) = Ref_Write k v"
| "first_op C_Size = Size_Read"
| "first_op (C_Update k v) = Update_Look k v"
| "first_op (C_Erase k) = Erase_Do k"
| "first_op (C_Find k) = Find_Copy k"
| "first_op (C_Insert k v) = Insert_Do k v"
| "first_op C_Begin = Begin_Copy"
| "first_op (C_Assign src) = Assign_Lock src"

text \<open>
  One access to the maps by a method of object \<open>o\<close>: the next place, the maps, and the call with its
  result where the access is the one at which the call takes effect.
\<close>

fun access :: "'v \<Rightarrow> nat \<Rightarrow> ('k::linorder, 'v) mop \<Rightarrow> (nat \<Rightarrow> ('k, 'v) SafeMap) \<Rightarrow>
    ('k, 'v) mop \<times> (nat \<Rightarrow> ('k, 'v) SafeMap) \<times> (('k, 'v) mcall \<times> ('k, 'v) mres) option" where
  "access d x (Index_Look k w) ms =
     (if map_of (wdmap (ms x)) k = None then (Index_Insert k w, ms, None)
      else (Unlock (map_option (Pair k) w), ms, Some (C_Index k w, R_Unit)))"
| "access d x (Index_Insert k w) ms =
     (Unlock (map_option (Pair k) w), ms(x := (ms x)\<lparr>wdmap := stdmap_insert k d (wdmap (ms x))\<rparr>), Some (C_Index k w, R_Unit))"
| "access d x Size_Read ms = (Unlock None, ms, Some (C_Size, R_Size (of_nat (length (wdmap (ms x))))))"
| "access d x (Update_Look k v) ms =
     (if map_of (wdmap (ms x)) k \<noteq> None then (Update_Write k v, ms, None)
      else (Unlock None, ms, Some (C_Update k v, R_Bool False)))"
| "access d x (Update_Write k v) ms =
     (Unlock None, ms(x := (ms x)\<lparr>wdmap := stdmap_assign k v (wdmap (ms x))\<rparr>), Some (C_Update k v, R_Bool True))"
| "access d x (Erase_Do k) ms =
     (Unlock None, ms(x := (ms x)\<lparr>wdmap := stdmap_erase k (wdmap (ms x))\<rparr>), Some (C_Erase k, R_Unit))"
| "access d x (Find_Copy k) ms = (Find_Look k (wdmap (ms x)), ms, None)"
| "access d x (Find_Look k m) ms =
     (Unlock None, ms, Some (C_Find k, R_Itr (case map_of (wdmap (ms x)) k of
        None \<Rightarrow> WDItr_of_map m
      | Some v \<Rightarrow> WDItr False (Some k) (Some v) m None)))"
| "access d x (Insert_Do k v) ms =
     (Unlock None, ms(x := (ms x)\<lparr>wdmap := stdmap_insert k v (wdmap (ms x))\<rparr>), Some (C_Insert k v, R_Unit))"
| "access d x Begin_Copy ms = (Begin_Look (wdmap (ms x)), ms, None)"
| "access d x (Begin_Look m) ms =
     (Unlock None, ms, Some (C_Begin, R_Itr (case wdmap (ms x) of
        [] \<Rightarrow> WDItr_of_map m
      | (k, v) # _ \<Rightarrow> WDItr False (Some k) (Some v) m None)))"
| "access d x (Assign_Copy src) ms =
     (Assign_Unlock src, ms(x := (ms x)\<lparr>wdmap := wdmap (ms src)\<rparr>), Some (C_Assign src, R_Unit))"
| "access d x p ms = (p, ms, None)"

fun is_access :: "('k, 'v) mop \<Rightarrow> bool" where
  "is_access (Lock_For c) = False"
| "is_access (Assign_Lock src) = False"
| "is_access (Assign_Unlock src) = False"
| "is_access (Unlock w) = False"
| "is_access (Ref_Write k v) = False"
| "is_access p = True"

text \<open>
  The objects, the holders of their locks, the threads with the object they work on, and the calls that
  have taken effect, in that order, with their objects and results.
\<close>

record ('k, 'v) msys =
  maps :: "nat \<Rightarrow> ('k, 'v) SafeMap"
  owner :: "nat \<Rightarrow> nat option"
  thr :: "nat \<Rightarrow> (nat \<times> ('k, 'v) mop) option"
  mlog :: "(nat \<times> ('k, 'v) mcall \<times> ('k, 'v) mres) list"

definition moves :: "nat \<Rightarrow> (nat \<times> ('k, 'v) mop) option \<Rightarrow> ('k, 'v) msys \<Rightarrow> ('k, 'v) msys" where
  "moves t p s = s\<lparr>thr := (thr s)(t := p)\<rparr>"

text \<open>Calls threads make: \<open>refs\<close> allows assignments through \<open>operator[]\<close>; self-assignment returns at once.\<close>

fun call_ok :: "bool \<Rightarrow> nat \<Rightarrow> ('k, 'v) mcall \<Rightarrow> bool" where
  "call_ok refs x (C_Index k w) \<longleftrightarrow> refs \<or> w = None"
| "call_ok refs x (C_Write k v) \<longleftrightarrow> False"
| "call_ok refs x (C_Assign src) \<longleftrightarrow> src \<noteq> x"
| "call_ok refs x c \<longleftrightarrow> True"

inductive map_step :: "'v \<Rightarrow> bool \<Rightarrow> nat \<Rightarrow> ('k::linorder, 'v) msys \<Rightarrow> ('k, 'v) msys \<Rightarrow> bool" for d refs t where
  m_call: "thr s t = None \<Longrightarrow> call_ok refs x c \<Longrightarrow> map_step d refs t s (moves t (Some (x, Lock_For c)) s)"
| m_lock: "thr s t = Some (x, Lock_For c) \<Longrightarrow> owner s x = None \<Longrightarrow>
     map_step d refs t s (moves t (Some (x, first_op c)) (s\<lparr>owner := (owner s)(x \<mapsto> t)\<rparr>))"
| m_access: "thr s t = Some (x, p) \<Longrightarrow> is_access p \<Longrightarrow> access d x p (maps s) = (p', ms, e) \<Longrightarrow>
     map_step d refs t s (moves t (Some (x, p')) (s\<lparr>maps := ms, mlog := mlog s @ (case e of None \<Rightarrow> [] | Some cr \<Rightarrow> [(x, cr)])\<rparr>))"
| m_lock_src: "thr s t = Some (x, Assign_Lock src) \<Longrightarrow> owner s src = None \<Longrightarrow>
     map_step d refs t s (moves t (Some (x, Assign_Copy src)) (s\<lparr>owner := (owner s)(src \<mapsto> t)\<rparr>))"
| m_unlock_src: "thr s t = Some (x, Assign_Unlock src) \<Longrightarrow>
     map_step d refs t s (moves t (Some (x, Unlock None)) (s\<lparr>owner := (owner s)(src := None)\<rparr>))"
| m_unlock: "thr s t = Some (x, Unlock w) \<Longrightarrow>
     map_step d refs t s (moves t (case w of None \<Rightarrow> None | Some (k, v) \<Rightarrow> Some (x, Ref_Write k v)) (s\<lparr>owner := (owner s)(x := None)\<rparr>))"
| m_write: "thr s t = Some (x, Ref_Write k v) \<Longrightarrow>
     map_step d refs t s (moves t None (s\<lparr>maps := (maps s)(x := (maps s x)\<lparr>wdmap := stdmap_assign k v (wdmap (maps s x))\<rparr>),
       mlog := mlog s @ [(x, C_Write k v, R_Unit)]\<rparr>))"

definition msys_init :: "(nat \<Rightarrow> ('k, 'v) SafeMap) \<Rightarrow> ('k, 'v) msys" where
  "msys_init ms = \<lparr>maps = ms, owner = (\<lambda>_. None), thr = (\<lambda>_. None), mlog = []\<rparr>"

definition maps_begin :: "(nat \<Rightarrow> ('k, 'v) SafeMap) \<Rightarrow> ('k, 'v) msys \<Rightarrow> bool" where
  "maps_begin ms s \<longleftrightarrow> s = msys_init ms"

definition maps_step :: "'v \<Rightarrow> bool \<Rightarrow> ('k::linorder, 'v) msys \<Rightarrow> ('k, 'v) msys \<Rightarrow> bool" where
  "maps_step d refs s s' \<longleftrightarrow> (\<exists>t. map_step d refs t s s')"

section \<open>The calls one after the other\<close>

fun call_sem :: "'v \<Rightarrow> nat \<Rightarrow> ('k::linorder, 'v) mcall \<Rightarrow> (nat \<Rightarrow> ('k, 'v) SafeMap) \<Rightarrow> ('k, 'v) mres \<times> (nat \<Rightarrow> ('k, 'v) SafeMap)" where
  "call_sem d x (C_Index k w) ms =
     (R_Unit, (case SafeMap_index d k (ms x) of Inl e \<Rightarrow> ms | Inr (v, t) \<Rightarrow> ms(x := t)))"
| "call_sem d x (C_Write k v) ms = (R_Unit, ms(x := (ms x)\<lparr>wdmap := stdmap_assign k v (wdmap (ms x))\<rparr>))"
| "call_sem d x C_Size ms = (R_Size (SafeMap_size (ms x)), ms)"
| "call_sem d x (C_Update k v) ms = (let (b, t) = SafeMap_update k v (ms x) in (R_Bool b, ms(x := t)))"
| "call_sem d x (C_Erase k) ms = (R_Unit, ms(x := SafeMap_erase k (ms x)))"
| "call_sem d x (C_Find k) ms = (R_Itr (SafeMap_find k (ms x)), ms)"
| "call_sem d x (C_Insert k v) ms = (R_Unit, ms(x := SafeMap_insert k v (ms x)))"
| "call_sem d x C_Begin ms = (R_Itr (SafeMap_begin (ms x)), ms)"
| "call_sem d x (C_Assign src) ms = (R_Unit, ms(x := SafeMap_assign (x = src) (ms x) (ms src)))"

text \<open>The maps after a list of calls, if every call gives its recorded result.\<close>

fun replay :: "'v \<Rightarrow> (nat \<times> ('k::linorder, 'v) mcall \<times> ('k, 'v) mres) list \<Rightarrow> (nat \<Rightarrow> ('k, 'v) SafeMap) \<Rightarrow> (nat \<Rightarrow> ('k, 'v) SafeMap) option" where
  "replay d [] ms = Some ms"
| "replay d ((x, c, r) # l) ms = (let (r', ms') = call_sem d x c ms in if r' = r then replay d l ms' else None)"

lemma replay_append: "replay d (l @ l') ms = (case replay d l ms of None \<Rightarrow> None | Some ms' \<Rightarrow> replay d l' ms')"
  by (induction d l ms rule: replay.induct) (auto simp: Let_def split: prod.split)

section \<open>Locks\<close>

text \<open>The locks a thread holds at a place of a method of object \<open>x\<close>.\<close>

fun held :: "nat \<Rightarrow> ('k, 'v) mop \<Rightarrow> nat set" where
  "held x (Lock_For c) = {}"
| "held x (Ref_Write k v) = {}"
| "held x (Assign_Copy src) = {x, src}"
| "held x (Assign_Unlock src) = {x, src}"
| "held x p = {x}"

definition locks_ok :: "('k, 'v) msys \<Rightarrow> bool" where
  "locks_ok s \<longleftrightarrow> (\<forall>x t. owner s x = Some t \<longleftrightarrow> (\<exists>y p. thr s t = Some (y, p) \<and> x \<in> held y p))"

text \<open>What a thread has seen is still so.\<close>

fun seen_ok :: "(nat \<Rightarrow> ('k, 'v) SafeMap) \<Rightarrow> nat \<Rightarrow> ('k, 'v) mop \<Rightarrow> bool" where
  "seen_ok ms x (Lock_For c) \<longleftrightarrow> call_ok False x c"
| "seen_ok ms x (Index_Look k w) \<longleftrightarrow> w = None"
| "seen_ok ms x (Index_Insert k w) \<longleftrightarrow> w = None \<and> map_of (wdmap (ms x)) k = None"
| "seen_ok ms x (Update_Write k v) \<longleftrightarrow> map_of (wdmap (ms x)) k \<noteq> None"
| "seen_ok ms x (Find_Look k m) \<longleftrightarrow> m = wdmap (ms x)"
| "seen_ok ms x (Begin_Look m) \<longleftrightarrow> m = wdmap (ms x)"
| "seen_ok ms x (Assign_Lock src) \<longleftrightarrow> src \<noteq> x"
| "seen_ok ms x (Assign_Copy src) \<longleftrightarrow> src \<noteq> x"
| "seen_ok ms x (Assign_Unlock src) \<longleftrightarrow> src \<noteq> x"
| "seen_ok ms x (Unlock w) \<longleftrightarrow> w = None"
| "seen_ok ms x (Ref_Write k v) \<longleftrightarrow> False"
| "seen_ok ms x p \<longleftrightarrow> True"

definition all_seen :: "('k, 'v) msys \<Rightarrow> bool" where
  "all_seen s \<longleftrightarrow> (\<forall>t x p. thr s t = Some (x, p) \<longrightarrow> seen_ok (maps s) x p)"

definition minv :: "'v \<Rightarrow> (nat \<Rightarrow> ('k::linorder, 'v) SafeMap) \<Rightarrow> ('k, 'v) msys \<Rightarrow> bool" where
  "minv d ms0 s \<longleftrightarrow> locks_ok s \<and> all_seen s \<and> replay d (mlog s) ms0 = Some (maps s)"

lemma held_owner: "locks_ok s \<Longrightarrow> thr s t = Some (y, p) \<Longrightarrow> x \<in> held y p \<Longrightarrow> owner s x = Some t"
  by (auto simp: locks_ok_def)

text \<open>A thread that holds no lock of an object does not depend on its map.\<close>

lemma seen_other: "x \<notin> held y p \<Longrightarrow> seen_ok (ms(x := m)) y p = seen_ok ms y p"
  by (cases p) auto

lemma is_access_held: "is_access p \<Longrightarrow> x \<in> held x p"
  by (cases p) auto

fun held_of :: "(nat \<times> ('k, 'v) mop) option \<Rightarrow> nat set" where
  "held_of None = {}"
| "held_of (Some (x, p)) = held x p"

lemma locks_ok_iff: "locks_ok s \<longleftrightarrow> (\<forall>x t. owner s x = Some t \<longleftrightarrow> x \<in> held_of (thr s t))"
  unfolding locks_ok_def by (metis held_of.elims held_of.simps(2) empty_iff)

lemma locks_move:
  assumes ok: "locks_ok s" and free: "\<And>x. x \<in> held_of q \<Longrightarrow> x \<notin> held_of (thr s t) \<Longrightarrow> owner s x = None"
    and thr': "thr s' = (thr s)(t := q)"
    and own: "\<And>x. owner s' x = (if x \<in> held_of q then Some t else if x \<in> held_of (thr s t) then None else owner s x)"
  shows "locks_ok s'"
  unfolding locks_ok_iff
proof (intro allI)
  fix x u
  have s: "owner s x = Some u \<longleftrightarrow> x \<in> held_of (thr s u)" "owner s x = Some t \<longleftrightarrow> x \<in> held_of (thr s t)" for u
    using ok by (simp_all add: locks_ok_iff)
  show "owner s' x = Some u \<longleftrightarrow> x \<in> held_of (thr s' u)"
  proof (cases "u = t")
    case True
    then show ?thesis using own [of x] thr' s(2) by auto
  next
    case False
    then have "owner s x = Some u \<Longrightarrow> x \<notin> held_of q" "owner s x = Some u \<Longrightarrow> x \<notin> held_of (thr s t)"
      using free [of x] s by (metis option.distinct(1) option.inject)+
    then show ?thesis using False own [of x] thr' s(1) [of u] by auto
  qed
qed

lemma access_effect:
  assumes "access d x p ms = (p', ms', e)" "is_access p" "seen_ok ms x p"
  shows "held x p' = held x p" "ms' = ms(x := ms' x)" "seen_ok ms' x p'"
    "case e of None \<Rightarrow> ms' = ms | Some (c, r) \<Rightarrow> call_sem d x c ms = (r, ms')"
proof -
  have "map_of (stdmap_insert k d m) k = Some d" if "map_of m k = None" for k and m :: "('a, 'b) stdmap"
    using that by (induction m) auto
  with assms show "held x p' = held x p" "ms' = ms(x := ms' x)" "seen_ok ms' x p'"
    "case e of None \<Rightarrow> ms' = ms | Some (c, r) \<Rightarrow> call_sem d x c ms = (r, ms')"
    by (cases p; auto simp: SafeMap_index_def SafeMap_size_def SafeMap_update_def SafeMap_erase_def SafeMap_find_def
        SafeMap_insert_def SafeMap_begin_def SafeMap_assign_def Let_def fun_eq_iff split: if_splits option.splits list.splits)+
qed

text \<open>The other threads keep what they have seen.\<close>

lemma seen_move:
  assumes ok: "locks_ok s" "all_seen s" and thr': "thr s' = (thr s)(t := q)" and ms: "maps s' = (maps s)(x := m)"
    and x: "m = maps s x \<or> x \<in> held_of (thr s t)" and q: "case q of None \<Rightarrow> True | Some (y, p) \<Rightarrow> seen_ok (maps s') y p"
  shows "all_seen s'"
  unfolding all_seen_def
proof (intro allI impI)
  fix u y p assume u: "thr s' u = Some (y, p)"
  show "seen_ok (maps s') y p"
  proof (cases "u = t")
    case True
    then show ?thesis using q u thr' by simp
  next
    case False
    then have u': "thr s u = Some (y, p)" using u thr' by simp
    then have seen: "seen_ok (maps s) y p" using ok(2) by (auto simp: all_seen_def)
    show ?thesis
    proof (cases "m = maps s x")
      case True
      then show ?thesis using seen ms by simp
    next
      case m: False
      then have "owner s x = Some t" using x ok(1) by (auto simp: locks_ok_iff)
      then have "x \<notin> held y p" using held_owner [OF ok(1) u', of x] False by auto
      then show ?thesis using seen_other [of x y p "maps s" m] seen ms by simp
    qed
  qed
qed

text \<open>A step that only moves locks and the thread.\<close>

lemma lock_step_inv:
  assumes inv: "minv d ms0 s" and s': "s' = moves t q (s\<lparr>owner := own\<rparr>)"
    and free: "\<And>x. x \<in> held_of q \<Longrightarrow> x \<notin> held_of (thr s t) \<Longrightarrow> owner s x = None"
    and own: "\<And>x. own x = (if x \<in> held_of q then Some t else if x \<in> held_of (thr s t) then None else owner s x)"
    and q: "case q of None \<Rightarrow> True | Some (y, p) \<Rightarrow> seen_ok (maps s) y p"
  shows "minv d ms0 s'"
proof -
  have ok: "locks_ok s" "all_seen s" "replay d (mlog s) ms0 = Some (maps s)" using inv by (simp_all add: minv_def)
  have "locks_ok s'" by (rule locks_move [OF ok(1) free, where q = q]) (use s' own in \<open>simp_all add: moves_def\<close>)
  moreover have "all_seen s'"
    by (rule seen_move [OF ok(1,2), where q = q and x = 0 and m = "maps s 0"]) (use s' q in \<open>auto simp: moves_def split: option.splits\<close>)
  ultimately show ?thesis using ok(3) s' by (simp add: minv_def moves_def)
qed

lemma access_step_inv:
  assumes inv: "minv d ms0 s" and t: "thr s t = Some (x, p)" "is_access p" and a: "access d x p (maps s) = (p', ms, e)"
  shows "minv d ms0 (moves t (Some (x, p')) (s\<lparr>maps := ms, mlog := mlog s @ (case e of None \<Rightarrow> [] | Some cr \<Rightarrow> [(x, cr)])\<rparr>))"
    (is "minv d ms0 ?s")
proof -
  have ok: "locks_ok s" "all_seen s" "replay d (mlog s) ms0 = Some (maps s)" using inv by (simp_all add: minv_def)
  have "seen_ok (maps s) x p" using ok(2) t(1) by (auto simp: all_seen_def)
  note e = access_effect [OF a t(2) this]
  have "owner s y = Some t" if "y \<in> held x p" for y using held_owner [OF ok(1) t(1) that] .
  then have "locks_ok ?s"
    by (intro locks_move [OF ok(1), where q = "Some (x, p')" and t = t]) (use t(1) e(1) in \<open>auto simp: moves_def\<close>)
  moreover have "all_seen ?s"
    by (rule seen_move [OF ok(1,2), where q = "Some (x, p')" and t = t and x = x and m = "ms x"])
      (use t e(2,3) is_access_held in \<open>auto simp: moves_def\<close>)
  moreover have "replay d (mlog ?s) ms0 = Some (maps ?s)"
    using ok(3) e(4) by (auto simp: moves_def replay_append split: option.splits)
  ultimately show ?thesis by (simp add: minv_def)
qed

lemma map_step_inv:
  assumes inv: "minv d ms0 s" and st: "map_step d False t s s'"
  shows "minv d ms0 s'"
proof -
  have ok: "locks_ok s" and seen: "\<And>y p. thr s t = Some (y, p) \<Longrightarrow> seen_ok (maps s) y p"
    using inv by (auto simp: minv_def all_seen_def)
  from st show ?thesis
  proof (cases rule: map_step.cases)
    case (m_call x c)
    then show ?thesis by (intro lock_step_inv [OF inv, of s' t _ "owner s"]) (auto simp: moves_def)
  next
    case (m_lock x c)
    have c: "call_ok False x c" using seen [OF m_lock(2)] by simp
    then have "held x (first_op c) = {x}" "seen_ok (maps s) x (first_op c)" by (cases c; auto)+
    then show ?thesis using m_lock by (intro lock_step_inv [OF inv m_lock(1)]) auto
  next
    case (m_access x p p' ms e)
    then show ?thesis using access_step_inv [OF inv m_access(2-4)] by simp
  next
    case (m_lock_src x src)
    then show ?thesis
      using held_owner [OF ok m_lock_src(2)] seen [OF m_lock_src(2)] by (intro lock_step_inv [OF inv m_lock_src(1)]) auto
  next
    case (m_unlock_src x src)
    then show ?thesis
      using held_owner [OF ok m_unlock_src(2)] seen [OF m_unlock_src(2)] by (intro lock_step_inv [OF inv m_unlock_src(1)]) auto
  next
    case (m_unlock x w)
    then show ?thesis using seen [OF m_unlock(2)] by (intro lock_step_inv [OF inv m_unlock(1)]) auto
  next
    case (m_write x k v)
    then show ?thesis using seen by fastforce
  qed
qed

interpretation maps_runs: inductive_invariant "maps_begin ms0" "maps_step d False" "minv d ms0" for d and ms0 :: "nat \<Rightarrow> ('k::linorder, 'v) SafeMap"
proof unfold_locales
  show "maps_begin ms0 s \<Longrightarrow> minv d ms0 s" for s :: "('k, 'v) msys"
    by (simp add: maps_begin_def msys_init_def minv_def locks_ok_def all_seen_def)
  show "minv d ms0 s \<Longrightarrow> maps_step d False s s' \<Longrightarrow> minv d ms0 s'" for s s' :: "('k, 'v) msys"
    using map_step_inv by (auto simp: maps_step_def)
qed

section \<open>Building runs\<close>

abbreviation maps_reach :: "'v \<Rightarrow> bool \<Rightarrow> (nat \<Rightarrow> ('k::linorder, 'v) SafeMap) \<Rightarrow> ('k, 'v) msys \<Rightarrow> bool" where
  "maps_reach d refs ms0 \<equiv> reach (maps_begin ms0) (maps_step d refs)"

lemma run_start: "maps_reach d refs ms0 (msys_init ms0)"
  by (rule reach_start) (simp add: maps_begin_def)

lemma run_step: "maps_reach d refs ms0 s \<Longrightarrow> map_step d refs t s s' \<Longrightarrow> maps_reach d refs ms0 s'"
  by (erule reach_step) (auto simp: maps_step_def)

lemma run_call:
  assumes "maps_reach d refs ms0 s" "thr s t = None" "owner s x = None" "call_ok refs x c"
  obtains s' where "maps_reach d refs ms0 s'" "maps s' = maps s" "thr s' = (thr s)(t \<mapsto> (x, first_op c))"
    "owner s' = (owner s)(x \<mapsto> t)" "mlog s' = mlog s"
proof -
  let ?a = "moves t (Some (x, Lock_For c)) s"
  let ?b = "moves t (Some (x, first_op c)) (?a\<lparr>owner := (owner ?a)(x \<mapsto> t)\<rparr>)"
  have a: "map_step d refs t s ?a" using assms(2,4) by (rule m_call)
  have b: "map_step d refs t ?a ?b" by (rule m_lock) (simp_all add: moves_def assms(3))
  have "maps_reach d refs ms0 ?b" by (rule run_step [OF run_step [OF assms(1) a] b])
  then show thesis by (rule that) (simp_all add: moves_def)
qed

lemma run_access:
  assumes "maps_reach d refs ms0 s" "thr s t = Some (x, p)" "is_access p" "access d x p (maps s) = (p', ms, e)"
  obtains s' where "maps_reach d refs ms0 s'" "maps s' = ms" "thr s' = (thr s)(t \<mapsto> (x, p'))" "owner s' = owner s"
    "mlog s' = mlog s @ (case e of None \<Rightarrow> [] | Some cr \<Rightarrow> [(x, cr)])"
proof -
  have "maps_reach d refs ms0 (moves t (Some (x, p')) (s\<lparr>maps := ms, mlog := mlog s @ (case e of None \<Rightarrow> [] | Some cr \<Rightarrow> [(x, cr)])\<rparr>))"
    using assms(1) m_access [OF assms(2-4)] by (rule run_step)
  then show thesis by (rule that) (simp_all add: moves_def)
qed

section \<open>Two assignments in opposite order\<close>

text \<open>Threads 0 and 1 assign objects 0 and 1 to each other, and each holds the lock of its own object.\<close>

definition crossed :: "('k, 'v) msys \<Rightarrow> bool" where
  "crossed s \<longleftrightarrow> thr s 0 = Some (0, Assign_Lock 1) \<and> thr s 1 = Some (1, Assign_Lock 0)"

lemma crossed_step:
  assumes inv: "minv d ms0 s" and x: "crossed s" and st: "map_step d False t s s'"
  shows "crossed s'"
proof -
  have ok: "locks_ok s" using inv by (simp add: minv_def)
  have o: "owner s 0 = Some 0" "owner s 1 = Some 1"
    using held_owner [OF ok, of 0 0 "Assign_Lock 1" 0] held_owner [OF ok, of 1 1 "Assign_Lock 0" 1] x by (simp_all add: crossed_def)
  have t0: "t \<noteq> 0"
  proof
    assume "t = 0"
    with st show False using x o by (cases rule: map_step.cases) (auto simp: crossed_def)
  qed
  have t1: "t \<noteq> 1"
  proof
    assume "t = 1"
    with st show False using x o by (cases rule: map_step.cases) (auto simp: crossed_def)
  qed
  from st show ?thesis using x t0 t1 by (cases rule: map_step.cases) (auto simp: crossed_def moves_def)
qed

lemma crossed_reachable: "\<exists>s. maps_reach d False ms0 s \<and> crossed s"
proof -
  obtain a where a: "maps_reach d False ms0 a" "thr a = (thr (msys_init ms0))(0 \<mapsto> (0, first_op (C_Assign 1)))"
      "owner a = (owner (msys_init ms0))(0 \<mapsto> 0)"
    by (rule run_call [OF run_start, where t = 0 and x = 0 and c = "C_Assign 1"]) (simp_all add: msys_init_def)
  obtain b where b: "maps_reach d False ms0 b" "thr b = (thr a)(1 \<mapsto> (1, first_op (C_Assign 0)))"
    by (rule run_call [OF a(1), where t = 1 and x = 1 and c = "C_Assign 0"]) (use a(2,3) in \<open>simp_all add: msys_init_def\<close>)
  then show ?thesis using a(2) by (intro exI [of _ b]) (simp add: crossed_def)
qed

section \<open>Properties\<close>


lemma insert_run:
  "\<exists>s. maps_reach d False ms0 s \<and> maps s = ms0(0 := SafeMap_insert k v (ms0 0)) \<and> mlog s = [(0, C_Insert k v, R_Unit)]"
proof -
  obtain a where a: "maps_reach d False ms0 a" "maps a = ms0" "thr a = (thr (msys_init ms0))(7 \<mapsto> (0, first_op (C_Insert k v)))" "mlog a = []"
    by (rule run_call [OF run_start, where t = 7 and x = 0 and c = "C_Insert k v"]) (simp_all add: msys_init_def)
  obtain b where "maps_reach d False ms0 b" "maps b = ms0(0 := (ms0 0)\<lparr>wdmap := stdmap_insert k v (wdmap (ms0 0))\<rparr>)"
      "mlog b = mlog a @ (case Some (C_Insert k v, R_Unit) of None \<Rightarrow> [] | Some cr \<Rightarrow> [(0, cr)])"
    by (rule run_access [OF a(1), where t = 7 and x = 0 and p = "Insert_Do k v" and e = "Some (C_Insert k v, R_Unit)"]) (use a in simp_all)
  then show ?thesis using a(4) by (auto simp: SafeMap_insert_def)
qed


text \<open>C34: \<open>operator=\<close> can wait for ever: two threads that assign two maps to each other reach a state from
  which, whatever the scheduler and the other threads do, both stay at their second lock.\<close>

theorem assign_can_deadlock:
  "\<exists>s. reach (maps_begin ms0) (maps_step d False) s \<and>
     {s'. (maps_step d False)\<^sup>*\<^sup>* s s'} \<subseteq> {s'. thr s' 0 = Some (0, Assign_Lock 1) \<and> thr s' 1 = Some (1, Assign_Lock 0)}"
proof -
  obtain s where s: "reach (maps_begin ms0) (maps_step d False) s" "crossed s"
    using crossed_reachable [of ms0 d] by auto
  have "minv d ms0 s' \<and> crossed s'" if "(maps_step d False)\<^sup>*\<^sup>* s s'" for s'
    using that
  proof (induction rule: rtranclp_induct)
    case base
    then show ?case using s maps_runs.reach_inv [of ms0 d s] by simp
  next
    case (step a b)
    then obtain t where "map_step d False t a b" by (auto simp: maps_step_def)
    with step.IH show ?case using map_step_inv [of d ms0 a t b] crossed_step [of d ms0 a t b] by simp
  qed
  with s(1) show ?thesis by (auto simp: crossed_def)
qed

text \<open>C35: An assignment through the reference of \<open>operator[]\<close> is not protected by the lock: a \<open>find\<close> that
  holds the lock can return an iterator whose value is the new one while its own snapshot of the map
  still holds the old one.\<close>

theorem reference_write_races:
  assumes "map_of (wdmap (ms0 0)) k = Some v"
  shows "\<exists>s it. reach (maps_begin ms0) (maps_step d True) s \<and> (0, C_Find k, R_Itr it) \<in> set (mlog s)
    \<and> itr_second it = Some w \<and> map_of (tempMap it) k = Some v"
proof -
  let ?m = "wdmap (ms0 0)" and ?ms = "ms0(0 := (ms0 0)\<lparr>wdmap := stdmap_assign k w (wdmap (ms0 0))\<rparr>)"
  let ?it = "WDItr False (Some k) (Some w) ?m None"
  obtain a where a: "maps_reach d True ms0 a" "maps a = ms0" "thr a = (thr (msys_init ms0))(0 \<mapsto> (0, first_op (C_Index k (Some w))))"
      "owner a = (owner (msys_init ms0))(0 \<mapsto> 0)"
    by (rule run_call [OF run_start, where t = 0 and x = 0 and c = "C_Index k (Some w)"]) (simp_all add: msys_init_def)
  obtain b where b: "maps_reach d True ms0 b" "maps b = ms0" "thr b = (thr a)(0 \<mapsto> (0, Unlock (Some (k, w))))" "owner b = owner a"
    by (rule run_access [OF a(1), where t = 0 and x = 0 and p = "Index_Look k (Some w)"]) (use a assms in simp_all)
  let ?c = "moves 0 (Some (0, Ref_Write k w)) (b\<lparr>owner := (owner b)(0 := None)\<rparr>)"
  have "map_step d True 0 b ?c" using m_unlock [of b 0 0 "Some (k, w)"] b(3) by simp
  then have c: "maps_reach d True ms0 ?c" by (rule run_step [OF b(1)])
  obtain e where e: "maps_reach d True ms0 e" "maps e = ms0" "thr e = (thr ?c)(1 \<mapsto> (0, first_op (C_Find k)))"
    by (rule run_call [OF c, where t = 1 and x = 0 and c = "C_Find k"]) (use a b in \<open>simp_all add: moves_def msys_init_def\<close>)
  obtain f where f: "maps_reach d True ms0 f" "maps f = ms0" "thr f = (thr e)(1 \<mapsto> (0, Find_Look k ?m))"
    by (rule run_access [OF e(1), where t = 1 and x = 0 and p = "Find_Copy k"]) (use e in simp_all)
  let ?g = "moves 0 None (f\<lparr>maps := (maps f)(0 := (maps f 0)\<lparr>wdmap := stdmap_assign k w (wdmap (maps f 0))\<rparr>),
    mlog := mlog f @ [(0, C_Write k w, R_Unit)]\<rparr>)"
  have "map_step d True 0 f ?g" by (rule m_write) (simp add: f(3) e(3) moves_def)
  then have g: "maps_reach d True ms0 ?g" by (rule run_step [OF f(1)])
  have "map_of (stdmap_assign k w ?m) k = Some w" using assms by (simp add: map_of_assign)
  then have acc: "access d 0 (Find_Look k ?m) (maps ?g) = (Unlock None, maps ?g, Some (C_Find k, R_Itr ?it))"
    using f(2) by (simp add: moves_def)
  have at: "thr ?g 1 = Some (0, Find_Look k ?m)" using f(3) by (simp add: moves_def)
  obtain h where "maps_reach d True ms0 h" "mlog h = mlog ?g @ (case Some (C_Find k, R_Itr ?it) of None \<Rightarrow> [] | Some cr \<Rightarrow> [(0, cr)])"
    using run_access [OF g at _ acc] by auto
  then show ?thesis using assms by (intro exI [of _ h] exI [of _ ?it]) simp
qed

theorem reference_write_races_witness:
  "\<exists>s it. reach (maps_begin (\<lambda>_. \<lparr>wdmap = [(1::int, 10::nat)]\<rparr>)) (maps_step 0 True) s \<and> (0, C_Find 1, R_Itr it) \<in> set (mlog s)
    \<and> itr_second it = Some 20 \<and> map_of (tempMap it) 1 = Some 10"
  by (rule reference_write_races) simp

end
