(* ===== verification/ClientError.thy ===== *)
theory ClientError
  imports SafeMap
begin

text \<open>
  The error texts of \<open>lib_src/pub/client_error.cpp\<close>: the table \<open>error_map\<close> with its UTF-8 bytes as in
  the source file, and the lookup \<open>error_msg\<close> every handler uses to print an error code. Lemmas: which
  codes the table knows, and that the text for any other code determines the code.
\<close>

text \<open>Bytes outside ASCII, as the source file has them.\<close>

definition utf8 :: "nat list \<Rightarrow> string" where
  "utf8 bs = map char_of bs"

definition error_map :: "(int, string) stdmap" where
  "error_map =
     [(1, '' EPERM 1    // Operation not permitted '' @ utf8 [0xE6, 0x93, 0x8D, 0xE4, 0xBD, 0x9C, 0xE4, 0xB8, 0x8D, 0xE5, 0x85, 0x81, 0xE8, 0xAE, 0xB8]),
      (2, '' ENOENT 2  // No such file or directory '' @ utf8 [0xE6, 0x96, 0x87, 0xE4, 0xBB, 0xB6] @ ''/'' @ utf8 [0xE8, 0xB7, 0xAF, 0xE5, 0xBE, 0x84, 0xE4, 0xB8, 0x8D, 0xE5, 0xAD, 0x98, 0xE5, 0x9C, 0xA8]),
      (3, '' ESRCH 3    // No such process '' @ utf8 [0xE8, 0xBF, 0x9B, 0xE7, 0xA8, 0x8B, 0xE4, 0xB8, 0x8D, 0xE5, 0xAD, 0x98, 0xE5, 0x9C, 0xA8]),
      (4, '' EINTR 4    //  Interrupted system call '' @ utf8 [0xE4, 0xB8, 0xAD, 0xE6, 0x96, 0xAD, 0xE7, 0x9A, 0x84, 0xE7, 0xB3, 0xBB, 0xE7, 0xBB, 0x9F, 0xE8, 0xB0, 0x83, 0xE7, 0x94, 0xA8]),
      (5, '' EIO 5 // I/O error I/O'' @ utf8 [0xE9, 0x94, 0x99, 0xE8, 0xAF, 0xAF]),
      (6, '' ENXIO 6 // No such device or address '' @ utf8 [0xE8, 0xAE, 0xBE, 0xE5, 0xA4, 0x87] @ ''/'' @ utf8 [0xE5, 0x9C, 0xB0, 0xE5, 0x9D, 0x80, 0xE4, 0xB8, 0x8D, 0xE5, 0xAD, 0x98, 0xE5, 0x9C, 0xA8]),
      (7, '' E2BIG 7 // Arg list too long '' @ utf8 [0xE5, 0x8F, 0x82, 0xE6, 0x95, 0xB0, 0xE5, 0x88, 0x97, 0xE8, 0xA1, 0xA8, 0xE8, 0xBF, 0x87, 0xE9, 0x95, 0xBF]),
      (8, '' ENOEXEC 8 // Exec format error '' @ utf8 [0xE6, 0x89, 0xA7, 0xE8, 0xA1, 0x8C, 0xE6, 0xA0, 0xBC, 0xE5, 0xBC, 0x8F, 0xE9, 0x94, 0x99, 0xE8, 0xAF, 0xAF]),
      (9, '' EBADF 9 // Bad file number '' @ utf8 [0xE9, 0x94, 0x99, 0xE8, 0xAF, 0xAF, 0xE6, 0x96, 0x87, 0xE4, 0xBB, 0xB6, 0xE7, 0xBC, 0x96, 0xE5, 0x8F, 0xB7]),
      (10, '' ECHILD 10 // No child processes '' @ utf8 [0xE5, 0xAD, 0x90, 0xE8, 0xBF, 0x9B, 0xE7, 0xA8, 0x8B, 0xE4, 0xB8, 0x8D, 0xE5, 0xAD, 0x98, 0xE5, 0x9C, 0xA8]),
      (11, '' EAGAIN 11 // Try again '' @ utf8 [0xE9, 0x87, 0x8D, 0xE8, 0xAF, 0x95]),
      (12, '' ENOMEM 12 // Out of memory '' @ utf8 [0xE5, 0x86, 0x85, 0xE5, 0xAD, 0x98, 0xE4, 0xB8, 0x8D, 0xE8, 0xB6, 0xB3]),
      (13, '' EACCES 13 // Permission denied '' @ utf8 [0xE6, 0x97, 0xA0, 0xE6, 0x9D, 0x83, 0xE9, 0x99, 0x90]),
      (14, '' EFAULT 14 // Bad address '' @ utf8 [0xE5, 0x9C, 0xB0, 0xE5, 0x9D, 0x80, 0xE9, 0x94, 0x99, 0xE8, 0xAF, 0xAF]),
      (15, '' ENOTBLK 15 // Block device required '' @ utf8 [0xE9, 0x9C, 0x80, 0xE8, 0xA6, 0x81, 0xE5, 0x9D, 0x97, 0xE8, 0xAE, 0xBE, 0xE5, 0xA4, 0x87]),
      (16, '' EBUSY 16 // Device or resource busy '' @ utf8 [0xE8, 0xAE, 0xBE, 0xE5, 0xA4, 0x87, 0xE6, 0x88, 0x96, 0xE8, 0xB5, 0x84, 0xE6, 0xBA, 0x90, 0xE5, 0xBF, 0x99]),
      (17, '' EEXIST 17 // File exists '' @ utf8 [0xE6, 0x96, 0x87, 0xE4, 0xBB, 0xB6, 0xE5, 0xB7, 0xB2, 0xE5, 0xAD, 0x98, 0xE5, 0x9C, 0xA8]),
      (18, '' EXDEV 18 // Cross-device link '' @ utf8 [0xE8, 0xB7, 0xA8, 0xE8, 0xAE, 0xBE, 0xE5, 0xA4, 0x87, 0xE9, 0x93, 0xBE, 0xE8, 0xB7, 0xAF]),
      (19, '' ENODEV 19 // No such device '' @ utf8 [0xE8, 0xAE, 0xBE, 0xE5, 0xA4, 0x87, 0xE4, 0xB8, 0x8D, 0xE5, 0xAD, 0x98, 0xE5, 0x9C, 0xA8]),
      (20, '' ENOTDIR 20 // Not a directory '' @ utf8 [0xE8, 0xB7, 0xAF, 0xE5, 0xBE, 0x84, 0xE4, 0xB8, 0x8D, 0xE5, 0xAD, 0x98, 0xE5, 0x9C, 0xA8]),
      (21, '' EISDIR 21 // Is a directory '' @ utf8 [0xE6, 0x98, 0xAF, 0xE8, 0xB7, 0xAF, 0xE5, 0xBE, 0x84]),
      (22, '' EINVAL 22 // Invalid argument '' @ utf8 [0xE6, 0x97, 0xA0, 0xE6, 0x95, 0x88, 0xE5, 0x8F, 0x82, 0xE6, 0x95, 0xB0]),
      (23, '' ENFILE 23 // File table overflow '' @ utf8 [0xE6, 0x96, 0x87, 0xE4, 0xBB, 0xB6, 0xE8, 0xA1, 0xA8, 0xE6, 0xBA, 0xA2, 0xE5, 0x87, 0xBA]),
      (24, '' EMFILE 24 // Too many open files '' @ utf8 [0xE6, 0x89, 0x93, 0xE5, 0xBC, 0x80, 0xE7, 0x9A, 0x84, 0xE6, 0x96, 0x87, 0xE4, 0xBB, 0xB6, 0xE8, 0xBF, 0x87, 0xE5, 0xA4, 0x9A]),
      (25, '' ENOTTY 25 // Not a typewriter '' @ utf8 [0xE9, 0x9D, 0x9E, 0xE6, 0x89, 0x93, 0xE5, 0xAD, 0x97, 0xE6, 0x9C, 0xBA]),
      (26, '' ETXTBSY 26 // Text file busy '' @ utf8 [0xE6, 0x96, 0x87, 0xE6, 0x9C, 0xAC, 0xE6, 0x96, 0x87, 0xE4, 0xBB, 0xB6, 0xE5, 0xBF, 0x99]),
      (27, '' EFBIG 27 // File too large '' @ utf8 [0xE6, 0x96, 0x87, 0xE4, 0xBB, 0xB6, 0xE5, 0xA4, 0xAA, 0xE5, 0xA4, 0xA7]),
      (28, '' ENOSPC 28 // No space left on device '' @ utf8 [0xE8, 0xAE, 0xBE, 0xE5, 0xA4, 0x87, 0xE6, 0x97, 0xA0, 0xE7, 0xA9, 0xBA, 0xE9, 0x97, 0xB4]),
      (29, '' ESPIPE 29 // Illegal seek '' @ utf8 [0xE9, 0x9D, 0x9E, 0xE6, 0xB3, 0x95, 0xE6, 0x9F, 0xA5, 0xE8, 0xAF, 0xA2]),
      (30, '' EROFS 30 // Read-only file system '' @ utf8 [0xE5, 0x8F, 0xAA, 0xE8, 0xAF, 0xBB, 0xE6, 0x96, 0x87, 0xE4, 0xBB, 0xB6, 0xE7, 0xB3, 0xBB, 0xE7, 0xBB, 0x9F]),
      (31, '' EMLINK 31 // Too many links '' @ utf8 [0xE9, 0x93, 0xBE, 0xE6, 0x8E, 0xA5, 0xE5, 0xA4, 0xAA, 0xE5, 0xA4, 0x9A]),
      (32, '' EPIPE 32 // Broken pipe '' @ utf8 [0xE7, 0xAE, 0xA1, 0xE9, 0x81, 0x93, 0xE7, 0xA0, 0xB4, 0xE8, 0xA3, 0x82]),
      (33, '' EDOM 33 // Math argument out of domain of func '' @ utf8 [0xE5, 0x8F, 0x82, 0xE6, 0x95, 0xB0, 0xE8, 0xB6, 0x85, 0xE5, 0x87, 0xBA, 0xE5, 0x87, 0xBD, 0xE6, 0x95, 0xB0, 0xE5, 0x9F, 0x9F]),
      (34, '' ERANGE 34 // Math result not representable '' @ utf8 [0xE7, 0xBB, 0x93, 0xE6, 0x9E, 0x9C, 0xE6, 0x97, 0xA0, 0xE6, 0xB3, 0x95, 0xE8, 0xA1, 0xA8, 0xE7, 0xA4, 0xBA]),
      (35, '' EDEADLK 35 // Resource deadlock would occur '' @ utf8 [0xE8, 0xB5, 0x84, 0xE6, 0xBA, 0x90, 0xE5, 0xB0, 0x86, 0xE5, 0x8F, 0x91, 0xE7, 0x94, 0x9F, 0xE6, 0xAD, 0xBB, 0xE9, 0x94, 0x81]),
      (36, '' ENAMETOOLONG 36 // File name too long '' @ utf8 [0xE6, 0x96, 0x87, 0xE4, 0xBB, 0xB6, 0xE5, 0x90, 0x8D, 0xE5, 0xA4, 0xAA, 0xE9, 0x95, 0xBF]),
      (37, '' ENOLCK 37 // No record locks available '' @ utf8 [0xE6, 0xB2, 0xA1, 0xE6, 0x9C, 0x89, 0xE5, 0x8F, 0xAF, 0xE7, 0x94, 0xA8, 0xE7, 0x9A, 0x84, 0xE8, 0xAE, 0xB0, 0xE5, 0xBD, 0x95, 0xE9, 0x94, 0x81]),
      (38, '' ENOSYS 38 // Function not implemented '' @ utf8 [0xE5, 0x87, 0xBD, 0xE6, 0x95, 0xB0, 0xE6, 0x9C, 0xAA, 0xE5, 0xAE, 0x9E, 0xE7, 0x8E, 0xB0]),
      (39, '' ENOTEMPTY 39 // Directory not empty '' @ utf8 [0xE7, 0x9B, 0xAE, 0xE5, 0xBD, 0x95, 0xE9, 0x9D, 0x9E, 0xE7, 0xA9, 0xBA]),
      (40, '' ELOOP 40 // Too many symbolic links encountered '' @ utf8 [0xE9, 0x81, 0x87, 0xE5, 0x88, 0xB0, 0xE5, 0xA4, 0xAA, 0xE5, 0xA4, 0x9A, 0xE7, 0xAC, 0xA6, 0xE5, 0x8F, 0xB7, 0xE9, 0x93, 0xBE, 0xE6, 0x8E, 0xA5]),
      (41, '' EWOULDBLOCK EAGAIN // Operation would block '' @ utf8 [0xE6, 0x93, 0x8D, 0xE4, 0xBD, 0x9C, 0xE4, 0xBC, 0x9A, 0xE9, 0x98, 0xBB, 0xE5, 0xA1, 0x9E]),
      (42, '' ENOMSG 42 // No message of desired type '' @ utf8 [0xE6, 0xB2, 0xA1, 0xE6, 0x9C, 0x89, 0xE7, 0xAC, 0xA6, 0xE5, 0x90, 0x88, 0xE9, 0x9C, 0x80, 0xE6, 0xB1, 0x82, 0xE7, 0xB1, 0xBB, 0xE5, 0x9E, 0x8B, 0xE7, 0x9A, 0x84, 0xE6, 0xB6, 0x88, 0xE6, 0x81, 0xAF]),
      (43, '' EIDRM 43 // Identifier removed '' @ utf8 [0xE6, 0xA0, 0x87, 0xE8, 0xAF, 0x86, 0xE7, 0xAC, 0xA6, 0xE5, 0xB7, 0xB2, 0xE5, 0x88, 0xA0, 0xE9, 0x99, 0xA4]),
      (44, '' ECHRNG 44 // Channel number out of range '' @ utf8 [0xE9, 0x80, 0x9A, 0xE9, 0x81, 0x93, 0xE7, 0xBC, 0x96, 0xE5, 0x8F, 0xB7, 0xE8, 0xB6, 0x85, 0xE5, 0x87, 0xBA, 0xE8, 0x8C, 0x83, 0xE5, 0x9B, 0xB4]),
      (45, '' EL2NSYNC 45 // Level 2 not synchronized level2'' @ utf8 [0xE4, 0xB8, 0x8D, 0xE5, 0x90, 0x8C, 0xE6, 0xAD, 0xA5]),
      (46, '' EL3HLT 46 // Level 3 halted 3'' @ utf8 [0xE7, 0xBA, 0xA7, 0xE5, 0x81, 0x9C, 0xE6, 0xAD, 0xA2]),
      (47, '' EL3RST 47 // Level 3 reset 3'' @ utf8 [0xE7, 0xBA, 0xA7, 0xE9, 0x87, 0x8D, 0xE7, 0xBD, 0xAE]),
      (48, '' ELNRNG 48 // Link number out of range '' @ utf8 [0xE9, 0x93, 0xBE, 0xE6, 0x8E, 0xA5, 0xE7, 0xBC, 0x96, 0xE5, 0x8F, 0xB7, 0xE8, 0xB6, 0x85, 0xE5, 0x87, 0xBA, 0xE8, 0x8C, 0x83, 0xE5, 0x9B, 0xB4]),
      (49, '' EUNATCH 49 // Protocol driver not attached '' @ utf8 [0xE5, 0x8D, 0x8F, 0xE8, 0xAE, 0xAE, 0xE9, 0xA9, 0xB1, 0xE5, 0x8A, 0xA8, 0xE7, 0xA8, 0x8B, 0xE5, 0xBA, 0x8F, 0xE6, 0xB2, 0xA1, 0xE6, 0x9C, 0x89, 0xE8, 0xBF, 0x9E, 0xE6, 0x8E, 0xA5]),
      (50, '' ENOCSI 50 // No CSI structure available '' @ utf8 [0xE6, 0xB2, 0xA1, 0xE6, 0x9C, 0x89, 0xE5, 0x8F, 0xAF, 0xE7, 0x94, 0xA8, 0xE7, 0x9A, 0x84] @ ''CSI'' @ utf8 [0xE7, 0xBB, 0x93, 0xE6, 0x9E, 0x84]),
      (51, '' EL2HLT 51 // Level 2 halted 2'' @ utf8 [0xE7, 0xBA, 0xA7, 0xE5, 0x81, 0x9C, 0xE6, 0xAD, 0xA2]),
      (52, '' EBADE 52 // Invalid exchange '' @ utf8 [0xE6, 0x97, 0xA0, 0xE6, 0x95, 0x88, 0xE4, 0xBA, 0xA4, 0xE6, 0x8D, 0xA2]),
      (53, '' EBADR 53 // Invalid request descriptor '' @ utf8 [0xE6, 0x97, 0xA0, 0xE6, 0x95, 0x88, 0xE8, 0xAF, 0xB7, 0xE6, 0xB1, 0x82, 0xE6, 0x8F, 0x8F, 0xE8, 0xBF, 0xB0]),
      (54, '' EXFULL 54 // Exchange full '' @ utf8 [0xE4, 0xBA, 0xA4, 0xE6, 0x8D, 0xA2, 0xE5, 0xAE, 0x8C, 0xE5, 0x85, 0xA8]),
      (55, '' ENOANO 55 // No anode '' @ utf8 [0xE6, 0x97, 0xA0, 0xE9, 0x98, 0xB3, 0xE6, 0x9E, 0x81]),
      (56, '' EBADRQC 56 // Invalid request code '' @ utf8 [0xE6, 0x97, 0xA0, 0xE6, 0x95, 0x88, 0xE8, 0xAF, 0xB7, 0xE6, 0xB1, 0x82, 0xE7, 0xA0, 0x81]),
      (57, '' EBADSLT 57 // Invalid slot '' @ utf8 [0xE6, 0x97, 0xA0, 0xE6, 0x95, 0x88, 0xE6, 0x8F, 0x92, 0xE6, 0xA7, 0xBD]),
      (58, '' EDEADLOCK EDEADLK''),
      (59, '' EBFONT 59 // Bad font file format '' @ utf8 [0xE9, 0x94, 0x99, 0xE8, 0xAF, 0xAF, 0xE7, 0x9A, 0x84, 0xE5, 0xAD, 0x97, 0xE4, 0xBD, 0x93, 0xE6, 0x96, 0x87, 0xE4, 0xBB, 0xB6, 0xE6, 0xA0, 0xBC, 0xE5, 0xBC, 0x8F]),
      (60, '' ENOSTR 60 // Device not a stream '' @ utf8 [0xE8, 0xAE, 0xBE, 0xE5, 0xA4, 0x87, 0xE4, 0xB8, 0x8D, 0xE6, 0x98, 0xAF, 0xE6, 0xB5, 0x81]),
      (61, '' ENODATA 61 // No data available '' @ utf8 [0xE6, 0x97, 0xA0, 0xE6, 0x95, 0xB0, 0xE6, 0x8D, 0xAE]),
      (62, '' ETIME 62 // Timer expired '' @ utf8 [0xE8, 0xAE, 0xA1, 0xE6, 0x97, 0xB6, 0xE5, 0x99, 0xA8, 0xE5, 0x88, 0xB0, 0xE6, 0x9C, 0x9F]),
      (63, '' ENOSR 63 // Out of streams resources '' @ utf8 [0xE6, 0xB5, 0x81, 0xE8, 0xB5, 0x84, 0xE6, 0xBA, 0x90, 0xE4, 0xB8, 0x8D, 0xE8, 0xB6, 0xB3]),
      (64, '' ENONET 64 // Machine is not on the network '' @ utf8 [0xE6, 0x9C, 0xBA, 0xE5, 0x99, 0xA8, 0xE4, 0xB8, 0x8D, 0xE5, 0x9C, 0xA8, 0xE7, 0xBD, 0x91, 0xE7, 0xBB, 0x9C, 0xE4, 0xB8, 0x8A]),
      (65, '' ENOPKG 65 // Package not installed '' @ utf8 [0xE5, 0x8C, 0x85, 0xE6, 0x9C, 0xAA, 0xE5, 0xAE, 0x89, 0xE8, 0xA3, 0x85]),
      (66, '' EREMOTE 66 // Object is remote '' @ utf8 [0xE5, 0xAF, 0xB9, 0xE8, 0xB1, 0xA1, 0xE6, 0x98, 0xAF, 0xE8, 0xBF, 0x9C, 0xE7, 0xA8, 0x8B]),
      (67, '' ENOLINK 67 // Link has been severed '' @ utf8 [0xE9, 0x93, 0xBE, 0xE6, 0x8E, 0xA5, 0xE6, 0xAD, 0xA3, 0xE5, 0x9C, 0xA8, 0xE6, 0x9C, 0x8D, 0xE5, 0x8A, 0xA1, 0xE4, 0xB8, 0xAD]),
      (68, '' EADV 68 // Advertise error '' @ utf8 [0xE5, 0xB9, 0xBF, 0xE5, 0x91, 0x8A, 0xE9, 0x94, 0x99, 0xE8, 0xAF, 0xAF]),
      (69, '' ESRMNT 69 // Srmount error '' @ utf8 [0xEF, 0xBC, 0x9F]),
      (70, '' ECOMM 70 // Communication error on send '' @ utf8 [0xE5, 0x8F, 0x91, 0xE9, 0x80, 0x81, 0xE8, 0xBF, 0x87, 0xE7, 0xA8, 0x8B, 0xE4, 0xB8, 0xAD, 0xE9, 0x80, 0x9A, 0xE8, 0xAE, 0xAF, 0xE9, 0x94, 0x99, 0xE8, 0xAF, 0xAF]),
      (71, '' EPROTO 71 // Protocol error '' @ utf8 [0xE5, 0x8D, 0x8F, 0xE8, 0xAE, 0xAE, 0xE9, 0x94, 0x99, 0xE8, 0xAF, 0xAF]),
      (72, '' EMULTIHOP 72 // Multihop attempted '' @ utf8 [0xE5, 0xA4, 0x9A, 0xE8, 0xB7, 0xB3, 0xE5, 0xB0, 0x9D, 0xE8, 0xAF, 0x95]),
      (73, '' EDOTDOT 73 // RFS specific error RFS'' @ utf8 [0xE7, 0x89, 0xB9, 0xE5, 0xAE, 0x9A, 0xE9, 0x94, 0x99, 0xE8, 0xAF, 0xAF]),
      (74, '' EBADMSG 74 // Not a data message '' @ utf8 [0xE4, 0xB8, 0x8D, 0xE6, 0x98, 0xAF, 0xE6, 0x95, 0xB0, 0xE6, 0x8D, 0xAE, 0xE7, 0xB1, 0xBB, 0xE5, 0x9E, 0x8B, 0xE6, 0xB6, 0x88, 0xE6, 0x81, 0xAF]),
      (75, '' EOVERFLOW 75 // Value too large for defined data type '' @ utf8 [0xE5, 0xAF, 0xB9, 0xE6, 0x8C, 0x87, 0xE5, 0xAE, 0x9A, 0xE7, 0x9A, 0x84, 0xE6, 0x95, 0xB0, 0xE6, 0x8D, 0xAE, 0xE7, 0xB1, 0xBB, 0xE5, 0x9E, 0x8B, 0xE6, 0x9D, 0xA5, 0xE8, 0xAF, 0xB4, 0xE5, 0x80, 0xBC, 0xE5, 0xA4, 0xAA, 0xE5, 0xA4, 0xA7]),
      (76, '' ENOTUNIQ 76 // Name not unique on network '' @ utf8 [0xE7, 0xBD, 0x91, 0xE7, 0xBB, 0x9C, 0xE4, 0xB8, 0x8A, 0xE5, 0x90, 0x8D, 0xE5, 0xAD, 0x97, 0xE4, 0xB8, 0x8D, 0xE5, 0x94, 0xAF, 0xE4, 0xB8, 0x80]),
      (77, '' EBADFD 77 // File descriptor in bad state '' @ utf8 [0xE6, 0x96, 0x87, 0xE4, 0xBB, 0xB6, 0xE6, 0x8F, 0x8F, 0xE8, 0xBF, 0xB0, 0xE7, 0xAC, 0xA6, 0xE7, 0x8A, 0xB6, 0xE6, 0x80, 0x81, 0xE9, 0x94, 0x99, 0xE8, 0xAF, 0xAF]),
      (78, '' EREMCHG 78 // Remote address changed '' @ utf8 [0xE8, 0xBF, 0x9C, 0xE7, 0xA8, 0x8B, 0xE5, 0x9C, 0xB0, 0xE5, 0x9D, 0x80, 0xE6, 0x94, 0xB9, 0xE5, 0x8F, 0x98]),
      (79, '' ELIBACC 79 // Can not access a needed shared library '' @ utf8 [0xE6, 0x97, 0xA0, 0xE6, 0xB3, 0x95, 0xE8, 0xAE, 0xBF, 0xE9, 0x97, 0xAE, 0xE9, 0x9C, 0x80, 0xE8, 0xA6, 0x81, 0xE7, 0x9A, 0x84, 0xE5, 0x85, 0xB1, 0xE4, 0xBA, 0xAB, 0xE5, 0xBA, 0x93]),
      (80, '' ELIBBAD 80 // Accessing a corrupted shared library '' @ utf8 [0xE8, 0xAE, 0xBF, 0xE9, 0x97, 0xAE, 0xE6, 0x8D, 0x9F, 0xE5, 0x9D, 0x8F, 0xE7, 0x9A, 0x84, 0xE5, 0x85, 0xB1, 0xE4, 0xBA, 0xAB, 0xE5, 0xBA, 0x93]),
      (81, '' ELIBSCN 81 // .lib section in a.out corrupted '' @ utf8 [0xE5, 0xBA, 0x93, 0xE9, 0x83, 0xA8, 0xE5, 0x88, 0x86, 0xE5, 0x9C, 0xA8] @ ''a.out'' @ utf8 [0xE6, 0x8D, 0x9F, 0xE5, 0x9D, 0x8F]),
      (82, '' ELIBMAX 82 // Attempting to link in too many shared libraries '' @ utf8 [0xE8, 0xAF, 0x95, 0xE5, 0x9B, 0xBE, 0xE9, 0x93, 0xBE, 0xE6, 0x8E, 0xA5, 0xE5, 0xA4, 0xAA, 0xE5, 0xA4, 0x9A, 0xE7, 0x9A, 0x84, 0xE5, 0x85, 0xB1, 0xE4, 0xBA, 0xAB, 0xE5, 0xBA, 0x93]),
      (83, '' ELIBEXEC 83 // Cannot exec a shared library directly '' @ utf8 [0xE4, 0xB8, 0x8D, 0xE8, 0x83, 0xBD, 0xE7, 0x9B, 0xB4, 0xE6, 0x8E, 0xA5, 0xE8, 0xBF, 0x90, 0xE8, 0xA1, 0x8C, 0xE5, 0x85, 0xB1, 0xE4, 0xBA, 0xAB, 0xE5, 0xBA, 0x93]),
      (84, '' EILSEQ 84 // Illegal byte sequence '' @ utf8 [0xE9, 0x9D, 0x9E, 0xE6, 0xB3, 0x95, 0xE5, 0xAD, 0x97, 0xE8, 0x8A, 0x82, 0xE5, 0xBA, 0x8F]),
      (85, '' ERESTART 85 // Interrupted system call should be restarted '' @ utf8 [0xE5, 0xBA, 0x94, 0xE9, 0x87, 0x8D, 0xE6, 0x96, 0xB0, 0xE5, 0x90, 0xAF, 0xE5, 0x8A, 0xA8, 0xE8, 0xA2, 0xAB, 0xE4, 0xB8, 0xAD, 0xE6, 0x96, 0xAD, 0xE7, 0x9A, 0x84, 0xE7, 0xB3, 0xBB, 0xE7, 0xBB, 0x9F, 0xE8, 0xB0, 0x83, 0xE7, 0x94, 0xA8]),
      (86, '' ESTRPIPE 86 // Streams pipe error '' @ utf8 [0xE6, 0xB5, 0x81, 0xE7, 0xAE, 0xA1, 0xE9, 0x94, 0x99, 0xE8, 0xAF, 0xAF]),
      (87, '' EUSERS 87 // Too many users '' @ utf8 [0xE7, 0x94, 0xA8, 0xE6, 0x88, 0xB7, 0xE5, 0xA4, 0xAA, 0xE5, 0xA4, 0x9A]),
      (88, '' ENOTSOCK 88 // Socket operation on non-socket '' @ utf8 [0xE5, 0x9C, 0xA8, 0xE9, 0x9D, 0x9E, 0xE5, 0xA5, 0x97, 0xE6, 0x8E, 0xA5, 0xE5, 0xAD, 0x97, 0xE4, 0xB8, 0x8A, 0xE8, 0xBF, 0x9B, 0xE8, 0xA1, 0x8C, 0xE5, 0xA5, 0x97, 0xE6, 0x8E, 0xA5, 0xE5, 0xAD, 0x97, 0xE6, 0x93, 0x8D, 0xE4, 0xBD, 0x9C]),
      (89, '' EDESTADDRREQ 89 // Destination address required '' @ utf8 [0xE9, 0x9C, 0x80, 0xE8, 0xA6, 0x81, 0xE7, 0x9B, 0xAE, 0xE7, 0x9A, 0x84, 0xE5, 0x9C, 0xB0, 0xE5, 0x9D, 0x80]),
      (90, '' EMSGSIZE 90 // Message too long '' @ utf8 [0xE6, 0xB6, 0x88, 0xE6, 0x81, 0xAF, 0xE5, 0xA4, 0xAA, 0xE9, 0x95, 0xBF]),
      (91, '' EPROTOTYPE 91 // Protocol wrong type for socket '' @ utf8 [0xE9, 0x94, 0x99, 0xE8, 0xAF, 0xAF, 0xE5, 0x8D, 0x8F, 0xE8, 0xAE, 0xAE, 0xE7, 0xB1, 0xBB, 0xE5, 0x9E, 0x8B]),
      (92, '' ENOPROTOOPT 92 // Protocol not available '' @ utf8 [0xE5, 0x8D, 0x8F, 0xE8, 0xAE, 0xAE, 0xE4, 0xB8, 0x8D, 0xE5, 0x8F, 0xAF, 0xE7, 0x94, 0xA8]),
      (93, '' EPROTONOSUPPORT 93 // Protocol not supported '' @ utf8 [0xE4, 0xB8, 0x8D, 0xE6, 0x94, 0xAF, 0xE6, 0x8C, 0x81, 0xE5, 0x8D, 0x8F, 0xE8, 0xAE, 0xAE]),
      (94, '' ESOCKTNOSUPPORT 94 // Socket type not supported '' @ utf8 [0xE4, 0xB8, 0x8D, 0xE6, 0x94, 0xAF, 0xE6, 0x8C, 0x81, 0xE5, 0xA5, 0x97, 0xE6, 0x8E, 0xA5, 0xE5, 0xAD, 0x97, 0xE7, 0xB1, 0xBB, 0xE5, 0x9E, 0x8B]),
      (95, '' EOPNOTSUPP 95 // Operation not supported on transport endpoint '' @ utf8 [0xE6, 0x93, 0x8D, 0xE4, 0xBD, 0x9C, 0xE4, 0xB8, 0x8A, 0xE4, 0xB8, 0x8D, 0xE6, 0x94, 0xAF, 0xE6, 0x8C, 0x81, 0xE4, 0xBC, 0xA0, 0xE8, 0xBE, 0x93, 0xE7, 0xAB, 0xAF, 0xE7, 0x82, 0xB9]),
      (96, '' EPFNOSUPPORT 96 // Protocol family not supported '' @ utf8 [0xE4, 0xB8, 0x8D, 0xE6, 0x94, 0xAF, 0xE6, 0x8C, 0x81, 0xE5, 0x8D, 0x8F, 0xE8, 0xAE, 0xAE, 0xE6, 0x97, 0x8F]),
      (97, '' EAFNOSUPPORT 97 // Address family not supported by protocol '' @ utf8 [0xE5, 0x8D, 0x8F, 0xE8, 0xAE, 0xAE, 0xE4, 0xB8, 0x8D, 0xE6, 0x94, 0xAF, 0xE6, 0x8C, 0x81, 0xE5, 0x9C, 0xB0, 0xE5, 0x9D, 0x80, 0xE7, 0xBE, 0xA4]),
      (98, '' EADDRINUSE 98 // Address already in use '' @ utf8 [0xE5, 0x9C, 0xB0, 0xE5, 0x9D, 0x80, 0xE5, 0xB7, 0xB2, 0xE8, 0xA2, 0xAB, 0xE4, 0xBD, 0xBF, 0xE7, 0x94, 0xA8]),
      (99, '' EADDRNOTAVAIL 99 // Cannot assign requested address '' @ utf8 [0xE6, 0x97, 0xA0, 0xE6, 0xB3, 0x95, 0xE5, 0x88, 0x86, 0xE9, 0x85, 0x8D, 0xE8, 0xAF, 0xB7, 0xE6, 0xB1, 0x82, 0xE7, 0x9A, 0x84, 0xE5, 0x9C, 0xB0, 0xE5, 0x9D, 0x80]),
      (100, '' ENETDOWN 100 // Network is down '' @ utf8 [0xE7, 0xBD, 0x91, 0xE7, 0xBB, 0x9C, 0xE5, 0xB7, 0xB2, 0xE5, 0x85, 0xB3, 0xE9, 0x97, 0xAD]),
      (101, '' ENETUNREACH 101 // Network is unreachable '' @ utf8 [0xE7, 0xBD, 0x91, 0xE7, 0xBB, 0x9C, 0xE4, 0xB8, 0x8D, 0xE5, 0x8F, 0xAF, 0xE8, 0xBE, 0xBE]),
      (102, '' ENETRESET 102 // Network dropped connection because of reset '' @ utf8 [0xE7, 0xBD, 0x91, 0xE7, 0xBB, 0x9C, 0xE7, 0x94, 0xB1, 0xE4, 0xBA, 0x8E, 0xE5, 0xA4, 0x8D, 0xE4, 0xBD, 0x8D, 0xE6, 0x96, 0xAD, 0xE5, 0xBC, 0x80, 0xE8, 0xBF, 0x9E, 0xE6, 0x8E, 0xA5]),
      (103, '' ECONNABORTED 103 // Software caused connection abort '' @ utf8 [0xE8, 0xBD, 0xAF, 0xE4, 0xBB, 0xB6, 0xE5, 0xAF, 0xBC, 0xE8, 0x87, 0xB4, 0xE8, 0xBF, 0x9E, 0xE6, 0x8E, 0xA5, 0xE7, 0xBB, 0x88, 0xE6, 0xAD, 0xA2]),
      (104, '' ECONNRESET 104 // Connection reset by peer '' @ utf8 [0xE8, 0xBF, 0x9E, 0xE6, 0x8E, 0xA5, 0xE8, 0xA2, 0xAB, 0xE5, 0xAF, 0xB9, 0xE6, 0x96, 0xB9, 0xE5, 0xA4, 0x8D, 0xE4, 0xBD, 0x8D]),
      (105, '' ENOBUFS 105 // No buffer space available '' @ utf8 [0xE6, 0xB2, 0xA1, 0xE6, 0x9C, 0x89, 0xE5, 0x8F, 0xAF, 0xE7, 0x94, 0xA8, 0xE7, 0x9A, 0x84, 0xE7, 0xBC, 0x93, 0xE5, 0xAD, 0x98, 0xE7, 0xA9, 0xBA, 0xE9, 0x97, 0xB4]),
      (106, '' EISCONN 106 // Transport endpoint is already connected '' @ utf8 [0xE4, 0xBC, 0xA0, 0xE8, 0xBE, 0x93, 0xE7, 0xAB, 0xAF, 0xE7, 0x82, 0xB9, 0xE5, 0xB7, 0xB2, 0xE8, 0xBF, 0x9E, 0xE6, 0x8E, 0xA5]),
      (107, '' ENOTCONN 107 // Transport endpoint is not connected '' @ utf8 [0xE4, 0xBC, 0xA0, 0xE8, 0xBE, 0x93, 0xE7, 0xAB, 0xAF, 0xE7, 0x82, 0xB9, 0xE6, 0x9C, 0xAA, 0xE8, 0xBF, 0x9E, 0xE6, 0x8E, 0xA5]),
      (108, '' ESHUTDOWN 108 // Cannot send after transport endpoint shutdown '' @ utf8 [0xE4, 0xBC, 0xA0, 0xE8, 0xBE, 0x93, 0xE7, 0xAB, 0xAF, 0xE7, 0x82, 0xB9, 0xE5, 0x85, 0xB3, 0xE9, 0x97, 0xAD, 0xE5, 0x90, 0x8E, 0xE4, 0xB8, 0x8D, 0xE8, 0x83, 0xBD, 0xE5, 0x9C, 0xA8, 0xE5, 0x8F, 0x91, 0xE9, 0x80, 0x81]),
      (109, '' ETOOMANYREFS 109 // Too many references: cannot splice '' @ utf8 [0xE5, 0xA4, 0xAA, 0xE5, 0xA4, 0x9A, 0xE7, 0x9A, 0x84, 0xE5, 0xBC, 0x95, 0xE7, 0x94, 0xA8, 0xEF, 0xBC, 0x9A, 0xE6, 0x97, 0xA0, 0xE6, 0xB3, 0x95, 0xE6, 0x8E, 0xA5, 0xE5, 0x90, 0x88]),
      (110, '' ETIMEDOUT 110 // Connection timed out '' @ utf8 [0xE8, 0xBF, 0x9E, 0xE6, 0x8E, 0xA5, 0xE8, 0xB6, 0x85, 0xE6, 0x97, 0xB6]),
      (111, '' ECONNREFUSED 111 // Connection refused '' @ utf8 [0xE8, 0xBF, 0x9E, 0xE6, 0x8E, 0xA5, 0xE8, 0xA2, 0xAB, 0xE6, 0x8B, 0x92, 0xE7, 0xBB, 0x9D]),
      (112, '' EHOSTDOWN 112 // Host is down '' @ utf8 [0xE4, 0xB8, 0xBB, 0xE6, 0x9C, 0xBA, 0xE5, 0xB7, 0xB2, 0xE5, 0x85, 0xB3, 0xE9, 0x97, 0xAD]),
      (113, '' EHOSTUNREACH 113 // No route to host '' @ utf8 [0xE6, 0x97, 0xA0, 0xE6, 0xB3, 0x95, 0xE8, 0xB7, 0xAF, 0xE7, 0x94, 0xB1, 0xE5, 0x88, 0xB0, 0xE4, 0xB8, 0xBB, 0xE6, 0x9C, 0xBA]),
      (114, '' EALREADY 114 // Operation already in progress '' @ utf8 [0xE6, 0x93, 0x8D, 0xE4, 0xBD, 0x9C, 0xE5, 0xB7, 0xB2, 0xE5, 0x9C, 0xA8, 0xE8, 0xBF, 0x9B, 0xE7, 0xA8, 0x8B, 0xE4, 0xB8, 0xAD]),
      (115, '' EINPROGRESS 115 // Operation now in progress '' @ utf8 [0xE8, 0xBF, 0x9B, 0xE7, 0xA8, 0x8B, 0xE4, 0xB8, 0xAD, 0xE6, 0xAD, 0xA3, 0xE5, 0x9C, 0xA8, 0xE8, 0xBF, 0x9B, 0xE8, 0xA1, 0x8C, 0xE7, 0x9A, 0x84, 0xE6, 0x93, 0x8D, 0xE4, 0xBD, 0x9C]),
      (116, '' ESTALE 116 // Stale NFS file handle ''),
      (117, '' EUCLEAN 117 // Structure needs cleaning ''),
      (118, '' ENOTNAM 118 // Not a XENIX named type file ''),
      (119, '' ENAVAIL 119 // No XENIX semaphores available ''),
      (120, '' EISNAM 120 // Is a named type file ''),
      (121, '' EREMOTEIO 121 // Remote I/O error ''),
      (122, '' EDQUOT 122 // Quota exceeded ''),
      (123, '' ENOMEDIUM 123 // No medium found ''),
      (124, '' EMEDIUMTYPE 124 // Wrong medium type''),
      (125, '' 125 // Operation canceled''),
      (126, '' 126 // Required key not available''),
      (127, '' 127 // Key has expired''),
      (128, '' 128 // Key has been revoked''),
      (129, '' 129 // Key was rejected by service''),
      (130, '' 130 // Owner died''),
      (131, '' 131 // State not recoverable'')]"

text \<open>A known code gives its table entry, any other a text that contains the number.\<close>

definition error_msg :: "int \<Rightarrow> string" where
  "error_msg eid =
     (case map_of error_map eid of
        Some s \<Rightarrow> s
      | None \<Rightarrow> '' unkown '' @ to_string eid @ '' // unkown'')"

lemma error_keys: "fst ` set error_map = {1..131}"
proof -
  have "map fst error_map = map int [1..<132]" by (simp add: error_map_def upt_rec)
  then have "set (map fst error_map) = int ` {1..<132}" by (simp del: upt_rec)
  also have "\<dots> = {1..131}" unfolding image_int_atLeastLessThan by auto
  finally show ?thesis by simp
qed

lemma error_map_known: "map_of error_map eid = None \<longleftrightarrow> \<not> (1 \<le> eid \<and> eid \<le> 131)"
  by (simp add: map_of_eq_None_iff error_keys)

lemma error_texts_named: "list_all (\<lambda>(k, s). take 4 s \<noteq> '' unk'') error_map"
  by (simp add: error_map_def)

lemma error_text_not_unknown: "map_of error_map e = Some s \<Longrightarrow> s \<noteq> '' unkown '' @ t"
proof
  assume "map_of error_map e = Some s" and s: "s = '' unkown '' @ t"
  then have "(e, s) \<in> set error_map" by (simp add: map_of_SomeD)
  then have "take 4 s \<noteq> '' unk''" using error_texts_named by (auto simp: list_all_iff)
  then show False by (simp add: s)
qed

text \<open>C26: \<open>error_msg\<close> returns the table's text exactly for the codes 1 to 131. For every other code it
  returns the \<open>unkown\<close> text with the number in it, which no table entry equals and which determines the
  code: no two codes are confused in the log unless the table itself confuses them.\<close>

theorem error_msg_total:
  "if 1 \<le> eid \<and> eid \<le> 131 then (eid, error_msg eid) \<in> set error_map
   else error_msg eid = '' unkown '' @ to_string eid @ '' // unkown'' \<and> (\<forall>e. error_msg e = error_msg eid \<longrightarrow> e = eid)"
proof (cases "1 \<le> eid \<and> eid \<le> 131")
  case True
  then obtain s where "map_of error_map eid = Some s" using error_map_known [of eid] by auto
  then have "(eid, error_msg eid) \<in> set error_map" by (simp add: error_msg_def map_of_SomeD)
  then show ?thesis using True by simp
next
  case False
  then have N: "map_of error_map eid = None" using error_map_known [of eid] by blast
  have "e = eid" if e: "error_msg e = error_msg eid" for e
  proof (cases "map_of error_map e")
    case None
    then show ?thesis using e N by (simp add: error_msg_def to_string_inject)
  next
    case (Some s)
    then show ?thesis using e N error_text_not_unknown [OF Some, of "to_string eid @ '' // unkown''"] by (simp add: error_msg_def)
  qed
  moreover have "error_msg eid = '' unkown '' @ to_string eid @ '' // unkown''"
    using N by (simp add: error_msg_def)
  ultimately show ?thesis unfolding if_not_P [OF False] by blast
qed

theorem error_msg_total_witness:
  "error_msg 132 = '' unkown 132 // unkown'' \<and> error_msg 133 \<noteq> error_msg 132"
proof -
  have "to_string 132 = ''132''" by (simp add: to_string_def dec_digits.simps char_of_eq_iff)
  then have t: "error_msg 132 = '' unkown 132 // unkown'' \<and> (\<forall>e. error_msg e = error_msg 132 \<longrightarrow> e = 132)"
    using error_msg_total [of 132] by simp
  then have "error_msg 133 = error_msg 132 \<Longrightarrow> (133 :: int) = 132" by blast
  moreover have "(133 :: int) \<noteq> 132" by simp
  ultimately show ?thesis using t by blast
qed

end
