(* ===== verification/Server.thy ===== *)
theory Server
  imports ClientMsg
begin

text \<open>
  The server of \<open>include/server_async_loop.h\<close>: the buffer a callback returns (\<open>CallStruct\<close>), a
  session per accepted socket (\<open>link_session\<close>) and the acceptor (\<open>link_server\<close>). An asynchronous
  call of Boost.Asio adds an operation to the list of pending ones; the event loop completes a pending
  operation, with data or with an error code, by calling the handler that was bound to it. The
  callback is the caller's function and stays a parameter, as does the answer to the endpoint queries
  of the socket, which throw when the peer is gone.
  Lemmas: one request goes through a session exactly as an abstract server prescribes and leaves it
  idle; hence any number of requests sent one after the other; at most one read is ever pending; what
  goes wrong with pipelined requests, unterminated bodies and empty callback results; the acceptor
  always has exactly one accept pending.
\<close>

section \<open>CallStruct\<close>

text \<open>\<open>data_\<close> is indeterminate (\<^term>\<open>None\<close>) when the constructor did not allocate.\<close>

record CallStruct =
  cs_size :: cint
  cs_data :: "cell list option"

definition CallStruct_new :: "cint \<Rightarrow> CallStruct" where
  "CallStruct_new s = \<lparr>cs_size = s,
     cs_data = (if 0 < sint s then Some (replicate (size_t s) None) else None)\<rparr>"

text \<open>The destructor tests and releases the pointer, whether or not it was ever set.\<close>

definition CallStruct_delete :: "CallStruct \<Rightarrow> unit res" where
  "CallStruct_delete c = rbind (deref Uninit_Read (cs_data c)) (\<lambda>_. Inr ())"

definition CallStruct_set_data :: "CallStruct \<Rightarrow> cell list \<Rightarrow> CallStruct res" where
  "CallStruct_set_data c msg =
     (if 0 < sint (cs_size c) then
        rbind (deref Uninit_Read (cs_data c)) (\<lambda>d.
        rbind (c_memcpy d 0 msg (size_t (cs_size c))) (\<lambda>d'.
        Inr (c\<lparr>cs_data := Some d'\<rparr>)))
      else Inr c)"

definition CallStruct_data :: "CallStruct \<Rightarrow> cell list res" where
  "CallStruct_data c = deref Uninit_Read (cs_data c)"

definition CallStruct_size :: "CallStruct \<Rightarrow> cint" where
  "CallStruct_size c = cs_size c"

text \<open>A callback gets the body pointer and the body length; it may return a null pointer.\<close>

type_synonym callback_fun = "cell list \<Rightarrow> cint \<Rightarrow> CallStruct option res"

section \<open>link\_session\<close>

datatype session_op =
    Read_Head                    \<comment> \<open>12 bytes, then \<open>handle_read_header\<close>\<close>
  | Read_Msg RPCStruct nat       \<comment> \<open>so many bytes into the object, then \<open>handle_read_msg\<close>\<close>
  | Write_Msg "cell list"        \<comment> \<open>these bytes, then \<open>handle_write\<close>\<close>

text \<open>\<open>sent\<close> is a history variable: the buffers whose write has completed.\<close>

record link_session =
  write_msgs :: "RPCStruct list"
  call_fun :: "callback_fun option"
  in_flight :: "session_op list"
  sent :: "cell list list"

definition link_session_new :: link_session where
  "link_session_new = \<lparr>write_msgs = [], call_fun = None, in_flight = [], sent = []\<rparr>"

definition session_do_read :: "link_session \<Rightarrow> link_session" where
  "session_do_read s = s\<lparr>in_flight := in_flight s @ [Read_Head]\<rparr>"

definition session_start :: "link_session \<Rightarrow> link_session" where
  "session_start s = session_do_read s"

definition session_handle_read_header :: "RPCStructHead \<Rightarrow> error_code \<Rightarrow> link_session \<Rightarrow> link_session res" where
  "session_handle_read_header hdr error s =
     (if error = 0 then
        rbind (RPCStruct_recv_msg_buff (RPCStruct_ctor_head hdr default_pbs)) (\<lambda>(p, readBuf).
        Inr (s\<lparr>in_flight := in_flight s @ [Read_Msg readBuf (size_t (RPCStruct_recv_msg_len readBuf))]\<rparr>))
      else Inr s)"

text \<open>\<open>front()\<close> of an empty deque is undefined; the object at the front is printed and sent.\<close>

definition session_do_write :: "link_session \<Rightarrow> link_session res" where
  "session_do_write s =
     (case write_msgs s of
        [] \<Rightarrow> Inl Out_Of_Bounds
      | m # ms \<Rightarrow>
          rbind (RPCStruct_body m) (\<lambda>(p, m').
          rbind (cstr_at p) (\<lambda>_.
          rbind (RPCStruct_showInfo m') (\<lambda>_.
          rbind (wire m') (\<lambda>bytes.
          Inr (s\<lparr>write_msgs := m' # ms, in_flight := in_flight s @ [Write_Msg bytes]\<rparr>))))))"

text \<open>The message that carries a callback's result.\<close>

definition result_msg :: "RPCStruct \<Rightarrow> CallStruct \<Rightarrow> cell list \<Rightarrow> RPCStruct res" where
  "result_msg msg r d =
     rbind (RPCStruct_set_head (RPCStruct_ctor default_pbs)
              (RPCStructHead_new\<lparr>req_id := req_id (head_info msg), body_size := CallStruct_size r\<rparr>)) (\<lambda>m0.
     rbind (RPCStruct_set_meta m0 (map Some meta_s)) (\<lambda>m1.
     RPCStruct_set_body m1 d))"

definition push_reply :: "RPCStruct \<Rightarrow> link_session \<Rightarrow> link_session" where
  "push_reply m s = s\<lparr>write_msgs := write_msgs s @ [m]\<rparr>"

text \<open>
  The result of the callback is tested (\<open>res && res->size()>0 && res->data()\<close>; \<open>new[]\<close> never gives a
  null pointer) and goes out of scope, which runs its destructor, before \<open>do_write\<close> is called.
\<close>

definition reply :: "RPCStruct \<Rightarrow> link_session \<Rightarrow> link_session res" where
  "reply msg s =
     rbind
       (case call_fun s of
          Some f \<Rightarrow>
            rbind (RPCStruct_body msg) (\<lambda>(p, msg').
            rbind (f p (body_size (head_info msg'))) (\<lambda>res.
            (case res of
               Some r \<Rightarrow>
                 rbind
                   (if 0 < sint (CallStruct_size r) then
                      rbind (CallStruct_data r) (\<lambda>d.
                      rbind (result_msg msg' r d) (\<lambda>newMsg. Inr (push_reply newMsg s)))
                    else Inr (push_reply msg' s)) (\<lambda>s'.
                 rbind (CallStruct_delete r) (\<lambda>_. Inr s'))
             | None \<Rightarrow> Inr (push_reply msg' s))))
        | None \<Rightarrow> Inr (push_reply msg s)) (\<lambda>s'.
     if write_msgs s' \<noteq> [] then session_do_write s' else Inr s')"

text \<open>\<open>ep\<close>: the endpoints of the socket can still be queried; otherwise the query throws.\<close>

definition session_handle_read_msg :: "bool \<Rightarrow> RPCStruct \<Rightarrow> error_code \<Rightarrow> link_session \<Rightarrow> link_session res" where
  "session_handle_read_msg ep readBuf error s =
     (if error = 0 then
        rbind (check ep Exception_Thrown) (\<lambda>_.
        rbind (RPCStruct_body readBuf) (\<lambda>(p, m).
        rbind (cstr_at p) (\<lambda>_.
        rbind (RPCStruct_showInfo m) (\<lambda>_.
        rbind (reply m s) (\<lambda>s'. Inr (session_start s'))))))
      else Inr s)"

definition session_handle_write :: "error_code \<Rightarrow> link_session \<Rightarrow> link_session res" where
  "session_handle_write error s =
     (if error = 0 then
        (case write_msgs s of
           [] \<Rightarrow> Inl Out_Of_Bounds
         | m # ms \<Rightarrow>
             (let s' = s\<lparr>write_msgs := ms\<rparr>
              in if write_msgs s' \<noteq> [] then session_do_write s' else Inr s'))
      else Inr s)"

definition session_register_callback :: "callback_fun option \<Rightarrow> link_session \<Rightarrow> link_session" where
  "session_register_callback f s = s\<lparr>call_fun := f\<rparr>"

section \<open>The event loop of a session\<close>

text \<open>A read that succeeds delivers exactly the bytes asked for; a failure has a non-zero code.\<close>

fun op_completes :: "session_op \<Rightarrow> completion \<Rightarrow> bool" where
  "op_completes Read_Head (Done bs) \<longleftrightarrow> length bs = size_t RPCStructHead_data_len"
| "op_completes (Read_Msg m n) (Done bs) \<longleftrightarrow> length bs = n"
| "op_completes (Write_Msg bytes) (Done bs) \<longleftrightarrow> bs = []"
| "op_completes op (Failed e) \<longleftrightarrow> e \<noteq> 0"

fun session_handler :: "bool \<Rightarrow> session_op \<Rightarrow> completion \<Rightarrow> link_session \<Rightarrow> link_session res" where
  "session_handler ep Read_Head (Done bs) s =
     rbind (deref Out_Of_Bounds (RPCStructHead_of_data bs)) (\<lambda>hdr. session_handle_read_header hdr 0 s)"
| "session_handler ep Read_Head (Failed e) s = session_handle_read_header RPCStructHead_new e s"
| "session_handler ep (Read_Msg m n) (Done bs) s =
     rbind (store_recv m bs) (\<lambda>m'. session_handle_read_msg ep m' 0 s)"
| "session_handler ep (Read_Msg m n) (Failed e) s = session_handle_read_msg ep m e s"
| "session_handler ep (Write_Msg bytes) (Done bs) s =
     session_handle_write 0 (s\<lparr>sent := sent s @ [bytes]\<rparr>)"
| "session_handler ep (Write_Msg bytes) (Failed e) s = session_handle_write e s"

text \<open>Completion of the \<open>i\<close>-th pending operation; there is no such event beyond the end.\<close>

definition session_complete :: "bool \<Rightarrow> nat \<Rightarrow> completion \<Rightarrow> link_session \<Rightarrow> link_session res" where
  "session_complete ep i c s =
     (if i < length (in_flight s) then
        session_handler ep (in_flight s ! i) c
          (s\<lparr>in_flight := take i (in_flight s) @ drop (Suc i) (in_flight s)\<rparr>)
      else Inr s)"

fun session_run :: "(bool \<times> nat \<times> completion) list \<Rightarrow> link_session \<Rightarrow> link_session res" where
  "session_run [] s = Inr s"
| "session_run ((ep, i, c) # es) s = rbind (session_complete ep i c s) (session_run es)"

inductive session_step :: "link_session res \<Rightarrow> link_session res \<Rightarrow> bool" where
  session_event: "i < length (in_flight s) \<Longrightarrow> op_completes (in_flight s ! i) c \<Longrightarrow>
     session_step (Inr s) (session_complete ep i c s)"

inductive_cases session_stepE: "session_step r r'"

text \<open>A session as \<open>handle_accept\<close> leaves it: its callback registered and its first read issued.\<close>

definition session_begins :: "link_session res \<Rightarrow> bool" where
  "session_begins r \<longleftrightarrow> (\<exists>f. r = Inr (session_start (session_register_callback f link_session_new)))"

section \<open>link\_server\<close>

text \<open>A pending accept carries the session made for it; \<open>sessions\<close> are those that were started.\<close>

record link_server =
  srv_call_fun :: "callback_fun option"
  accepting :: "link_session list"
  sessions :: "link_session list"

definition link_server_new :: link_server where
  "link_server_new = \<lparr>srv_call_fun = None, accepting = [], sessions = []\<rparr>"

definition start_accept :: "link_server \<Rightarrow> link_server" where
  "start_accept v =
     (let new_session = session_register_callback (srv_call_fun v) link_session_new
      in v\<lparr>accepting := accepting v @ [new_session]\<rparr>)"

definition handle_accept :: "link_session \<Rightarrow> error_code \<Rightarrow> link_server \<Rightarrow> link_server" where
  "handle_accept session error v =
     (let v' = (if error = 0 then v\<lparr>sessions := sessions v @ [session_start session]\<rparr> else v)
      in start_accept v')"

definition server_register_callback :: "callback_fun option \<Rightarrow> link_server \<Rightarrow> link_server" where
  "server_register_callback f v = v\<lparr>srv_call_fun := f\<rparr>"

text \<open>What happens to a server: a pending accept completes, a session advances, \<open>register_callback\<close>.\<close>

inductive server_step :: "link_server \<Rightarrow> link_server \<Rightarrow> bool" where
  server_accept: "accepting v = xs @ session # ys \<Longrightarrow>
     server_step v (handle_accept session error (v\<lparr>accepting := xs @ ys\<rparr>))"
| server_session: "sessions v = xs @ s # ys \<Longrightarrow> session_step (Inr s) (Inr s') \<Longrightarrow>
     server_step v (v\<lparr>sessions := xs @ s' # ys\<rparr>)"
| server_callback: "server_step v (server_register_callback f v)"

section \<open>What the server is meant to do\<close>

text \<open>
  The abstract server: an application function from the body of a request to the body of the answer,
  or nothing, in which case the request is echoed. \<open>implements\<close> says that a registered callback
  computes that function: it is only called on NUL-terminated bodies and returns buffers of the size
  of the answer, which is NUL-terminated too and not longer than an \<open>int\<close> can address.
\<close>

definition valid_request :: "RPCStructHead \<Rightarrow> byte list \<Rightarrow> byte list \<Rightarrow> bool" where
  "valid_request h mt bd \<longleftrightarrow> sint (meta_size h) = int (length mt) \<and> sint (body_size h) = int (length bd)
     \<and> 12 + int (length mt) + max 2048 (int (length bd)) < 2 ^ 31 \<and> 0 \<in> set bd"

definition answer :: "(byte list \<Rightarrow> byte list option) \<Rightarrow> RPCStructHead \<Rightarrow> byte list \<Rightarrow> byte list \<Rightarrow> byte list" where
  "answer g h mt bd = (case g bd of
     None \<Rightarrow> RPCStructHead_data h @ mt @ bd
   | Some a \<Rightarrow> RPCStructHead_data \<lparr>req_id = req_id h, body_size = of_nat (length a), meta_size = 8\<rparr>
       @ take 8 meta_s @ a)"

definition implements :: "callback_fun option \<Rightarrow> (byte list \<Rightarrow> byte list option) \<Rightarrow> bool" where
  "implements cf g \<longleftrightarrow> (case cf of
     None \<Rightarrow> \<forall>bd. g bd = None
   | Some f \<Rightarrow> \<forall>bd rest n. sint n = int (length bd) \<longrightarrow> 0 \<in> set bd \<longrightarrow>
       (case g bd of
          None \<Rightarrow> f (map Some bd @ rest) n = Inr None
        | Some a \<Rightarrow> 0 \<in> set a \<and> int (length a) + 20 < 2 ^ 31 \<and>
            f (map Some bd @ rest) n = Inr (Some \<lparr>cs_size = of_nat (length a), cs_data = Some (map Some a)\<rparr>)))"

text \<open>A session between two requests: its next header read is issued, nothing waits to be sent.\<close>

definition session_idle :: "link_session \<Rightarrow> bool" where
  "session_idle s \<longleftrightarrow> in_flight s = [Read_Head] \<and> write_msgs s = []"

text \<open>A client that waits for the answer before it sends again: header, rest, completed write.\<close>

definition request_events :: "RPCStructHead \<Rightarrow> byte list \<Rightarrow> byte list \<Rightarrow> (bool \<times> nat \<times> completion) list" where
  "request_events h mt bd = [(True, 0, Done (RPCStructHead_data h)), (True, 0, Done (mt @ bd)), (True, 0, Done [])]"

section \<open>One request\<close>

lemma session_run_append: "session_run (xs @ ys) s = rbind (session_run xs s) (session_run ys)"
proof (induction xs s rule: session_run.induct)
  case (2 ep i c es s)
  then show ?case by (cases "session_complete ep i c s") simp_all
qed simp

lemma do_write_frame:
  assumes "write_msgs s = m # ms" "frame m mt bd" "0 \<in> set bd"
  shows "session_do_write s = Inr (s\<lparr>in_flight := in_flight s @
    [Write_Msg (map Some (RPCStructHead_data (head_info m) @ mt @ bd))]\<rparr>)"
proof -
  obtain rest where "RPCStruct_body m = Inr (map Some bd @ rest, m)" using frame_body [OF assms(2)] ..
  then show ?thesis
    using assms cstr_at_terminated [OF assms(3), of rest] frame_showInfo [OF assms(2,3)] frame_wire [OF assms(2)]
    by (simp add: session_do_write_def)
qed

text \<open>What \<open>reply\<close> puts on the queue for a request, once the callback has been asked.\<close>

lemma reply_pushes:
  assumes f: "frame m mt bd" "0 \<in> set bd" and imp: "implements (call_fun s) g"
  obtains m' mt' bd' where "frame m' mt' bd'" "0 \<in> set bd'"
    "RPCStructHead_data (head_info m') @ mt' @ bd' = answer g (head_info m) mt bd"
    "reply m s = session_do_write (s\<lparr>write_msgs := write_msgs s @ [m']\<rparr>)"
proof (cases "call_fun s")
  case None
  then show thesis
    using that [of m mt bd] f imp by (simp add: reply_def implements_def answer_def push_reply_def)
next
  case (Some cf)
  from frame_body [OF f(1)] obtain rest where b: "RPCStruct_body m = Inr (map Some bd @ rest, m)" ..
  have n: "sint (body_size (head_info m)) = int (length bd)" using f(1) by (simp add: frame_def)
  note call = imp [unfolded implements_def Some, simplified, rule_format, OF n f(2), of rest]
  show thesis
  proof (cases "g bd")
    case None
    then show thesis
      using that [of m mt bd] f b call Some by (simp add: reply_def answer_def push_reply_def)
  next
    case ans: (Some a)
    let ?r = "\<lparr>cs_size = of_nat (length a), cs_data = Some (map Some a)\<rparr> :: CallStruct"
    let ?h = "\<lparr>req_id = req_id (head_info m), body_size = of_nat (length a), meta_size = 8\<rparr>"
    have a: "0 \<in> set a" "int (length a) + 20 < 2 ^ 31" "cf (map Some bd @ rest) (body_size (head_info m)) = Inr (Some ?r)"
      using call ans by simp_all
    have sz: "sint (of_nat (length a) :: cint) = int (length a)" using a(2) by (intro sint_of_nat_cint) simp
    have pos: "0 < length a" using a(1) by (cases a) auto
    obtain m0 m1 m2 m' where built: "RPCStruct_set_head (RPCStruct_ctor default_pbs) ?h = Inr m0"
        "RPCStruct_set_body m0 (map Some a) = Inr m1" "RPCStruct_set_meta m1 (map Some meta_s) = Inr m'"
        "RPCStruct_set_meta m0 (map Some meta_s) = Inr m2" "RPCStruct_set_body m2 (map Some a) = Inr m'"
        "frame m' (take 8 meta_s) a" "head_info m' = ?h"
    proof (rule frame_built [of ?h a "map Some a" "map Some meta_s" "take 8 meta_s"])
      show "take 8 (map Some meta_s) = map Some (take 8 meta_s)" "length (take 8 meta_s) = 8"
        by (simp_all add: take_map meta_s_def)
    qed (use sz a(2) in auto)
    have "result_msg m ?r (map Some a) = Inr m'"
      using built by (simp add: result_msg_def CallStruct_size_def RPCStructHead_new_def)
    then have "reply m s = session_do_write (s\<lparr>write_msgs := write_msgs s @ [m']\<rparr>)"
      using b a(3) Some sz pos
      by (simp add: reply_def CallStruct_size_def CallStruct_data_def CallStruct_delete_def push_reply_def)
    then show thesis using that [of m' "take 8 meta_s" a] built a(1) ans by (simp add: answer_def)
  qed
qed

lemma read_msg_frame:
  assumes "frame m mt bd" "0 \<in> set bd"
  shows "session_handle_read_msg True m 0 s = rbind (reply m s) (\<lambda>s'. Inr (session_start s'))"
proof -
  obtain rest where "RPCStruct_body m = Inr (map Some bd @ rest, m)" using frame_body [OF assms(1)] ..
  then show ?thesis
    using assms cstr_at_terminated [OF assms(2), of rest] frame_showInfo [OF assms]
    by (simp add: session_handle_read_msg_def)
qed

text \<open>The two reads of a request, with other operations still pending.\<close>

lemma request_received:
  assumes ops: "in_flight s = ops @ [Read_Head]" and v: "valid_request h mt bd"
  obtains m where "frame m mt bd" "head_info m = h"
    "session_run [(True, length ops, Done (RPCStructHead_data h)), (True, length ops, Done (mt @ bd))] s =
       rbind (reply m (s\<lparr>in_flight := ops\<rparr>)) (\<lambda>s'. Inr (session_start s'))"
proof -
  have v': "sint (meta_size h) = int (length mt)" "sint (body_size h) = int (length bd)" "0 \<in> set bd"
      "12 + int (length mt) + max 2048 (int (length bd)) < 2 ^ 31"
    using v by (simp_all add: valid_request_def)
  obtain p r where r: "RPCStruct_recv_msg_buff (RPCStruct_ctor_head h default_pbs) = Inr (p, r)"
      "synced r" "head_info r = h" "12 + sint (meta_size h) = sint (body_offset r)"
      "size_t (RPCStruct_recv_msg_len r) = length mt + length bd"
    using fresh_receive [OF v'(1,2,4)] .
  have 1: "session_complete True (length ops) (Done (RPCStructHead_data h)) s =
      Inr (s\<lparr>in_flight := ops @ [Read_Msg r (length mt + length bd)]\<rparr>)"
    using r(1,5) ops by (simp add: session_complete_def session_handle_read_header_def head_of_data_data)
  obtain r' where r': "store_recv r (mt @ bd) = Inr r'" "frame r' mt bd" "head_info r' = h"
    using frame_received [of r mt bd] r v' by (metis (lifting))
  have "session_complete True (length ops) (Done (mt @ bd)) (s\<lparr>in_flight := ops @ [Read_Msg r (length mt + length bd)]\<rparr>) =
      rbind (reply r' (s\<lparr>in_flight := ops\<rparr>)) (\<lambda>s'. Inr (session_start s'))"
    using r'(1) read_msg_frame [OF r'(2) v'(3)] by (simp add: session_complete_def)
  with 1 r'(2,3) show thesis by (intro that [of r']) (simp_all add: rbind_assoc)
qed

lemma request_arrives:
  assumes ops: "in_flight s = ops @ [Read_Head]" and v: "valid_request h mt bd"
    and imp: "implements (call_fun s) g"
  obtains m mt' bd' where "frame m mt' bd'" "0 \<in> set bd'"
    "RPCStructHead_data (head_info m) @ mt' @ bd' = answer g h mt bd"
    "session_run [(True, length ops, Done (RPCStructHead_data h)), (True, length ops, Done (mt @ bd))] s =
       rbind (session_do_write (s\<lparr>in_flight := ops, write_msgs := write_msgs s @ [m]\<rparr>)) (\<lambda>s'. Inr (session_start s'))"
proof -
  obtain r where r: "frame r mt bd" "head_info r = h"
    "session_run [(True, length ops, Done (RPCStructHead_data h)), (True, length ops, Done (mt @ bd))] s =
       rbind (reply r (s\<lparr>in_flight := ops\<rparr>)) (\<lambda>s'. Inr (session_start s'))"
    using request_received [OF ops v] .
  have "0 \<in> set bd" using v by (simp add: valid_request_def)
  from reply_pushes [OF r(1) this, of "s\<lparr>in_flight := ops\<rparr>" g] obtain m mt' bd' where
      m: "frame m mt' bd'" "0 \<in> set bd'" "RPCStructHead_data (head_info m) @ mt' @ bd' = answer g h mt bd"
      "reply r (s\<lparr>in_flight := ops\<rparr>) = session_do_write (s\<lparr>in_flight := ops, write_msgs := write_msgs s @ [m]\<rparr>)"
    using imp r(2) by auto
  with r(3) show thesis by (intro that [of m mt' bd']) simp_all
qed

lemma request_cycle:
  assumes idle: "session_idle s" and v: "valid_request h mt bd" and imp: "implements (call_fun s) g"
  shows "session_run (request_events h mt bd) s = Inr (s\<lparr>sent := sent s @ [map Some (answer g h mt bd)]\<rparr>)"
proof -
  have s: "in_flight s = [] @ [Read_Head]" "write_msgs s = []" using idle by (simp_all add: session_idle_def)
  obtain m mt' bd' where m: "frame m mt' bd'" "0 \<in> set bd'"
      "RPCStructHead_data (head_info m) @ mt' @ bd' = answer g h mt bd"
      "session_run [(True, length ([] :: session_op list), Done (RPCStructHead_data h)),
         (True, length ([] :: session_op list), Done (mt @ bd))] s =
       rbind (session_do_write (s\<lparr>in_flight := [], write_msgs := write_msgs s @ [m]\<rparr>)) (\<lambda>s'. Inr (session_start s'))"
    using request_arrives [OF s(1) v imp] .
  let ?w = "Write_Msg (map Some (answer g h mt bd))"
  have "session_do_write (s\<lparr>in_flight := [], write_msgs := write_msgs s @ [m]\<rparr>) =
      Inr (s\<lparr>in_flight := [?w], write_msgs := [m]\<rparr>)"
    using do_write_frame [OF _ m(1,2), of "s\<lparr>in_flight := [], write_msgs := write_msgs s @ [m]\<rparr>" "[]"] s m(3)
    by simp
  with m(4) have two: "session_run [(True, 0, Done (RPCStructHead_data h)), (True, 0, Done (mt @ bd))] s =
      Inr (s\<lparr>in_flight := [?w, Read_Head], write_msgs := [m]\<rparr>)"
    by (simp add: session_start_def session_do_read_def)
  have "session_run (request_events h mt bd) s =
      rbind (session_run [(True, 0, Done (RPCStructHead_data h)), (True, 0, Done (mt @ bd))] s)
        (session_run [(True, 0, Done [])])"
    by (simp only: request_events_def session_run_append [symmetric] append.simps)
  also have "\<dots> = Inr (s\<lparr>sent := sent s @ [map Some (answer g h mt bd)]\<rparr>)"
    unfolding two using s by (simp add: session_complete_def session_handle_write_def)
  finally show ?thesis .
qed

section \<open>Many requests\<close>

type_synonym request = "RPCStructHead \<times> byte list \<times> byte list"

definition requests_events :: "request list \<Rightarrow> (bool \<times> nat \<times> completion) list" where
  "requests_events rs = concat (map (\<lambda>(h, mt, bd). request_events h mt bd) rs)"

lemma requests_cycle:
  assumes "session_idle s" "implements (call_fun s) g" "\<forall>(h, mt, bd) \<in> set rs. valid_request h mt bd"
  shows "session_run (requests_events rs) s =
    Inr (s\<lparr>sent := sent s @ map (\<lambda>(h, mt, bd). map Some (answer g h mt bd)) rs\<rparr>)"
  using assms
proof (induction rs arbitrary: s)
  case Nil
  then show ?case by (simp add: requests_events_def)
next
  case (Cons r rs)
  obtain h mt bd where r: "r = (h, mt, bd)" by (cases r)
  let ?s = "s\<lparr>sent := sent s @ [map Some (answer g h mt bd)]\<rparr>"
  have "session_run (request_events h mt bd) s = Inr ?s"
    using Cons.prems r by (intro request_cycle) auto
  moreover have "session_run (requests_events rs) ?s =
      Inr (?s\<lparr>sent := sent ?s @ map (\<lambda>(h, mt, bd). map Some (answer g h mt bd)) rs\<rparr>)"
    using Cons.prems by (intro Cons.IH) (auto simp: session_idle_def)
  ultimately show ?case by (simp add: r requests_events_def session_run_append)
qed

section \<open>Reads\<close>

fun is_read :: "session_op \<Rightarrow> bool" where
  "is_read (Write_Msg bytes) = False"
| "is_read _ = True"

definition one_reader :: "link_session \<Rightarrow> bool" where
  "one_reader s \<longleftrightarrow> length (filter is_read (in_flight s)) \<le> 1"

lemma do_write_reads:
  "session_do_write s = Inr s' \<Longrightarrow> filter is_read (in_flight s') = filter is_read (in_flight s)"
  by (auto simp: session_do_write_def fault_simps split: list.splits prod.splits)

lemma reply_reads:
  "reply m s = Inr s' \<Longrightarrow> filter is_read (in_flight s') = filter is_read (in_flight s)"
  by (auto simp: reply_def fault_simps push_reply_def dest!: do_write_reads
      split: option.splits if_splits prod.splits)

lemma handler_one_reader:
  assumes "session_handler ep op c s = Inr s'" "op_completes op c"
    "length (filter is_read (op # in_flight s)) \<le> 1"
  shows "one_reader s'"
  using assms
proof (cases "(ep, op, c, s)" rule: session_handler.cases)
  case (1 ep bs s)
  with assms show ?thesis
    by (auto simp: session_handle_read_header_def one_reader_def fault_simps split: prod.splits)
next
  case (2 ep e s)
  with assms show ?thesis by (simp add: session_handle_read_header_def one_reader_def)
next
  case (3 ep m n bs s)
  with assms show ?thesis
    by (auto simp: session_handle_read_msg_def one_reader_def session_start_def session_do_read_def fault_simps
        dest!: reply_reads split: prod.splits)
next
  case (4 ep m n e s)
  with assms show ?thesis by (simp add: session_handle_read_msg_def one_reader_def)
next
  case (5 ep bytes bs s)
  with assms show ?thesis
    by (auto simp: session_handle_write_def one_reader_def Let_def dest!: do_write_reads split: list.splits if_splits)
next
  case (6 ep bytes e s)
  with assms show ?thesis by (simp add: session_handle_write_def one_reader_def)
qed

lemma filter_take_drop:
  "i < length xs \<Longrightarrow> length (filter P (xs ! i # take i xs @ drop (Suc i) xs)) = length (filter P xs)"
  by (subst (4) id_take_nth_drop [of i xs]) auto

lemma step_one_reader: "session_step r r' \<Longrightarrow> res_inv one_reader r \<Longrightarrow> res_inv one_reader r'"
proof (erule session_stepE)
  fix i s c ep
  assume r: "r = Inr s" "r' = session_complete ep i c s" "i < length (in_flight s)" "op_completes (in_flight s ! i) c"
    and "res_inv one_reader r"
  let ?t = "s\<lparr>in_flight := take i (in_flight s) @ drop (Suc i) (in_flight s)\<rparr>"
  have len: "length (filter is_read (in_flight s ! i # in_flight ?t)) \<le> 1"
    using filter_take_drop [OF r(3), of is_read] \<open>res_inv one_reader r\<close> r(1) by (simp add: one_reader_def)
  show "res_inv one_reader r'"
  proof (cases r')
    case (Inr s')
    with r have "session_handler ep (in_flight s ! i) c ?t = Inr s'" by (simp add: session_complete_def)
    from handler_one_reader [OF this r(4) len] Inr show ?thesis by simp
  qed simp
qed

interpretation session_reads: inductive_invariant session_begins session_step "res_inv one_reader"
  by unfold_locales (auto simp: session_begins_def session_start_def session_do_read_def one_reader_def
      session_register_callback_def link_session_new_def step_one_reader)

section \<open>The acceptor\<close>

definition server_begins :: "link_server \<Rightarrow> bool" where
  "server_begins v \<longleftrightarrow> (\<exists>f. v = start_accept (server_register_callback f link_server_new))"

definition server_inv :: "link_server \<Rightarrow> bool" where
  "server_inv v \<longleftrightarrow> (\<exists>s. accepting v = [s] \<and> in_flight s = []) \<and> (\<forall>s \<in> set (sessions v). one_reader s)"

lemma server_step_inv: "server_step v v' \<Longrightarrow> server_inv v \<Longrightarrow> server_inv v'"
proof (induction rule: server_step.induct)
  case (server_accept v xs session ys error)
  then show ?case
    by (auto simp: server_inv_def handle_accept_def start_accept_def Let_def session_start_def session_do_read_def
        session_register_callback_def link_session_new_def one_reader_def append_eq_Cons_conv)
next
  case (server_session v xs s ys s')
  then show ?case using step_one_reader [of "Inr s" "Inr s'"] by (auto simp: server_inv_def)
next
  case (server_callback v f)
  then show ?case by (auto simp: server_inv_def server_register_callback_def)
qed

interpretation server_runs: inductive_invariant server_begins server_step server_inv
proof unfold_locales
  show "server_begins v \<Longrightarrow> server_inv v" for v
    by (auto simp: server_begins_def server_inv_def start_accept_def Let_def link_server_new_def
        server_register_callback_def session_register_callback_def link_session_new_def)
qed (rule server_step_inv)

section \<open>Messages that break a session\<close>

text \<open>
  \<open>std::cout << readBuf->body()\<close> runs on behind the received bytes when they hold no NUL: into the
  part of the buffer nobody wrote, or past its end when the body fills the buffer.
\<close>

lemma print_unterminated:
  assumes m: "synced m" "head_info m = h" "12 + sint (meta_size h) = sint (body_offset m)"
      "data_buf m = Some (map Some (RPCStructHead_data h) @ replicate (length mt + max 2048 (length bd)) None)"
    and sz: "sint (meta_size h) = int (length mt)" "sint (body_size h) = int (length bd)"
    and nul: "0 \<notin> set bd"
  shows "\<exists>m'. store_recv m (mt @ bd) = Inr m' \<and>
    session_handle_read_msg True m' 0 s = Inl (if length bd < 2048 then Uninit_Read else Out_Of_Bounds)"
proof -
  let ?rest = "replicate (2048 - length bd) (None :: cell)"
  have off: "size_t (meta_offset m) = 12" using m(1) by (simp add: synced_def msg_wf_def)
  have "length mt + max 2048 (length bd) = length mt + length bd + (2048 - length bd)" by simp
  then have st: "store_recv m (mt @ bd) =
      Inr (m\<lparr>data_buf := Some (map Some (RPCStructHead_data h @ mt @ bd) @ ?rest)\<rparr>)" (is "_ = Inr ?m")
    using m(4) off by (simp add: store_recv_def memcpy_ok)
  have sy: "synced ?m" using m(1,4) by (intro synced_store) auto
  have "size_t (body_offset m) = 12 + length mt" using m(3) sz by simp
  then have "RPCStruct_body ?m = Inr (map Some bd @ ?rest, ?m)"
    using new_data_idem [OF sy] by (simp add: RPCStruct_body_def at_offset_def)
  moreover have "cstr_at ?rest = Inl (if length bd < 2048 then Uninit_Read else Out_Of_Bounds)"
    by (cases "2048 - length bd") auto
  ultimately have "session_handle_read_msg True ?m 0 s = Inl (if length bd < 2048 then Uninit_Read else Out_Of_Bounds)"
    using cstr_at_unterminated [OF nul, of ?rest] by (simp add: session_handle_read_msg_def)
  with st show ?thesis by blast
qed

section \<open>Properties\<close>

text \<open>C3: A session serves any number of requests, sent one after the other, exactly as the abstract
  server prescribes: for each request one buffer is written, the echo of the request or the callback's
  answer with the request's id, and nothing else of the session changes.\<close>

theorem session_refines_spec:
  assumes "session_idle s" and "implements (call_fun s) g"
    and "\<forall>(h, mt, bd) \<in> set rs. valid_request h mt bd"
  shows "session_run (requests_events rs) s =
    Inr (s\<lparr>sent := sent s @ map (\<lambda>(h, mt, bd). map Some (answer g h mt bd)) rs\<rparr>)"
  using assms by (rule requests_cycle)

theorem session_refines_spec_witness:
  "let h = \<lparr>req_id = 7, body_size = 3, meta_size = 1\<rparr>; s = session_start link_session_new
   in session_run (requests_events [(h, [9], [72, 105, 0]), (h, [9], [72, 111, 0])]) s =
     Inr (s\<lparr>sent := [map Some (RPCStructHead_data h @ [9] @ [72, 105, 0]),
                     map Some (RPCStructHead_data h @ [9] @ [72, 111, 0])]\<rparr>)"
proof -
  let ?h = "\<lparr>req_id = 7, body_size = 3, meta_size = 1\<rparr>" and ?s = "session_start link_session_new"
  have s: "session_idle ?s" "implements (call_fun ?s) (\<lambda>_. None)" "sent ?s = []"
    by (simp_all add: session_idle_def session_start_def session_do_read_def link_session_new_def implements_def)
  have "valid_request ?h [9] [72, 105, 0]" "valid_request ?h [9] [72, 111, 0]"
    by (simp_all add: valid_request_def)
  then show ?thesis
    using session_refines_spec [OF s(1,2), of "[(?h, [9], [72, 105, 0]), (?h, [9], [72, 111, 0])]"] s(3)
    by (simp add: answer_def Let_def)
qed

text \<open>C27: A second request that arrives while the first answer is still being written makes the
  session write the first answer twice, and once every write has completed the queue is popped when it
  is empty: the undefined \<open>pop_front\<close> of an empty deque.\<close>

theorem pipelined_requests_fault:
  assumes idle: "session_idle s" and imp: "implements (call_fun s) g"
    and v: "valid_request h mt bd" "valid_request h' mt' bd'"
  shows "\<exists>s2. session_run [(True, 0, Done (RPCStructHead_data h)), (True, 0, Done (mt @ bd)),
        (True, 1, Done (RPCStructHead_data h')), (True, 1, Done (mt' @ bd'))] s = Inr s2
    \<and> in_flight s2 = [Write_Msg (map Some (answer g h mt bd)), Write_Msg (map Some (answer g h mt bd)), Read_Head]
    \<and> session_run [(True, 0, Done []), (True, 0, Done []), (True, 1, Done [])] s2 = Inl Out_Of_Bounds"
proof -
  let ?a = "Write_Msg (map Some (answer g h mt bd))"
  have s: "in_flight s = [] @ [Read_Head]" "write_msgs s = []" using idle by (simp_all add: session_idle_def)
  obtain m mtm bdm where m: "frame m mtm bdm" "0 \<in> set bdm"
      "RPCStructHead_data (head_info m) @ mtm @ bdm = answer g h mt bd"
      "session_run [(True, length ([] :: session_op list), Done (RPCStructHead_data h)),
         (True, length ([] :: session_op list), Done (mt @ bd))] s =
       rbind (session_do_write (s\<lparr>in_flight := [], write_msgs := write_msgs s @ [m]\<rparr>)) (\<lambda>s'. Inr (session_start s'))"
    using request_arrives [OF s(1) v(1) imp] .
  let ?s1 = "s\<lparr>in_flight := [?a] @ [Read_Head], write_msgs := [m]\<rparr>"
  have 1: "session_run [(True, 0, Done (RPCStructHead_data h)), (True, 0, Done (mt @ bd))] s = Inr ?s1"
    using m(3,4) s do_write_frame [OF _ m(1,2), of "s\<lparr>in_flight := [], write_msgs := [m]\<rparr>" "[]"]
    by (simp add: session_start_def session_do_read_def)
  have s1: "in_flight ?s1 = [?a] @ [Read_Head]" "implements (call_fun ?s1) g" using imp by simp_all
  obtain n mtn bdn where n: "frame n mtn bdn" "0 \<in> set bdn"
      "session_run [(True, length [?a], Done (RPCStructHead_data h')), (True, length [?a], Done (mt' @ bd'))] ?s1 =
       rbind (session_do_write (?s1\<lparr>in_flight := [?a], write_msgs := write_msgs ?s1 @ [n]\<rparr>)) (\<lambda>s'. Inr (session_start s'))"
    using request_arrives [OF s1(1) v(2) s1(2)] by blast
  let ?s2 = "s\<lparr>in_flight := [?a, ?a, Read_Head], write_msgs := [m, n]\<rparr>"
  have 2: "session_run [(True, 1, Done (RPCStructHead_data h')), (True, 1, Done (mt' @ bd'))] ?s1 = Inr ?s2"
    using n(3) m(3) do_write_frame [OF _ m(1,2), of "s\<lparr>in_flight := [?a], write_msgs := [m, n]\<rparr>" "[n]"]
    by (simp add: session_start_def session_do_read_def)
  have "session_run ([(True, 0, Done (RPCStructHead_data h)), (True, 0, Done (mt @ bd))] @
      [(True, 1, Done (RPCStructHead_data h')), (True, 1, Done (mt' @ bd'))]) s = Inr ?s2"
    unfolding session_run_append 1 using 2 by simp
  moreover have "session_run [(True, 0, Done []), (True, 0, Done []), (True, 1, Done [])] ?s2 = Inl Out_Of_Bounds"
    using do_write_frame [OF _ n(1,2), of "s\<lparr>in_flight := [?a, Read_Head],
        sent := sent s @ [map Some (answer g h mt bd)], write_msgs := [n]\<rparr>" "[]"]
    by (simp add: session_complete_def session_handle_write_def)
  ultimately show ?thesis by (intro exI [of _ ?s2]) simp
qed

theorem pipelined_requests_fault_witness:
  "\<exists>s2. session_run [(True, 0, Done (RPCStructHead_data \<lparr>req_id = 1, body_size = 1, meta_size = 0\<rparr>)), (True, 0, Done [0]),
        (True, 1, Done (RPCStructHead_data \<lparr>req_id = 2, body_size = 1, meta_size = 0\<rparr>)), (True, 1, Done [0])]
      (session_start link_session_new) = Inr s2
    \<and> session_run [(True, 0, Done []), (True, 0, Done []), (True, 1, Done [])] s2 = Inl Out_Of_Bounds"
proof -
  let ?s = "session_start link_session_new"
  have "session_idle ?s" "implements (call_fun ?s) (\<lambda>_. None)"
    by (simp_all add: session_idle_def session_start_def session_do_read_def link_session_new_def implements_def)
  moreover have "valid_request \<lparr>req_id = i, body_size = 1, meta_size = 0\<rparr> [] [0]" for i
    by (simp add: valid_request_def)
  ultimately show ?thesis
    using pipelined_requests_fault [of ?s "\<lambda>_. None" "\<lparr>req_id = 1, body_size = 1, meta_size = 0\<rparr>" "[]" "[0]"
        "\<lparr>req_id = 2, body_size = 1, meta_size = 0\<rparr>" "[]" "[0]"] by auto
qed

text \<open>Whatever completes in whatever order, with or without errors, a session never has more than
  one read pending, so the bytes of one message are never split over two reads.\<close>

lemma session_single_reader:
  assumes "reach session_begins session_step (Inr s)"
  shows "length (filter is_read (in_flight s)) \<le> 1"
  using session_reads.reach_inv [OF assms] by (simp add: one_reader_def)

text \<open>C28: A received body that holds no NUL sends the diagnostic output of the read handler past the
  received bytes: into bytes that were never written, or past the end of the buffer when the body has
  2048 bytes or more.\<close>

theorem unterminated_body_overread:
  assumes "session_idle s" "sint (meta_size h) = int (length mt)" "sint (body_size h) = int (length bd)"
    "12 + int (length mt) + max 2048 (int (length bd)) < 2 ^ 31" "0 \<notin> set bd"
  shows "session_run [(True, 0, Done (RPCStructHead_data h)), (True, 0, Done (mt @ bd))] s =
    Inl (if length bd < 2048 then Uninit_Read else Out_Of_Bounds)"
proof -
  obtain p m where m: "RPCStruct_recv_msg_buff (RPCStruct_ctor_head h default_pbs) = Inr (p, m)" "synced m"
      "head_info m = h" "12 + sint (meta_size h) = sint (body_offset m)"
      "size_t (RPCStruct_recv_msg_len m) = length mt + length bd"
      "data_buf m = Some (map Some (RPCStructHead_data h) @ replicate (length mt + max 2048 (length bd)) None)"
    using fresh_receive [OF assms(2-4)] .
  obtain m' where "store_recv m (mt @ bd) = Inr m'"
      "session_handle_read_msg True m' 0 (s\<lparr>in_flight := []\<rparr>) = Inl (if length bd < 2048 then Uninit_Read else Out_Of_Bounds)"
    using print_unterminated [OF m(2-4,6) assms(2,3,5)] by blast
  then show ?thesis
    using assms(1) m(1) by (simp add: session_idle_def session_complete_def session_handle_read_header_def head_of_data_data)
qed

theorem unterminated_body_overread_witness:
  "session_run [(True, 0, Done (RPCStructHead_data \<lparr>req_id = 1, body_size = 2, meta_size = 0\<rparr>)), (True, 0, Done [65, 66])]
    (session_start link_session_new) = Inl Uninit_Read"
  using unterminated_body_overread [of "session_start link_session_new" "\<lparr>req_id = 1, body_size = 2, meta_size = 0\<rparr>" "[]" "[65, 66]"]
  by (simp add: session_idle_def session_start_def session_do_read_def link_session_new_def)



text \<open>C31: A callback result of size zero or less does not lead to the echo that \<open>reply\<close> intends for an
  empty result: when the result goes out of scope its destructor tests a pointer the constructor never
  set.\<close>

theorem empty_result_faults:
  assumes "frame m mt bd" "call_fun s = Some f" "sint n \<le> 0"
    and "\<And>p k. f p k = Inr (Some (CallStruct_new n))"
  shows "reply m s = Inl Uninit_Read"
proof -
  obtain rest where "RPCStruct_body m = Inr (map Some bd @ rest, m)" using frame_body [OF assms(1)] ..
  then show ?thesis
    using assms(2-4) by (simp add: reply_def CallStruct_new_def CallStruct_size_def CallStruct_delete_def)
qed

theorem empty_result_faults_witness:
  "\<exists>m. RPCStruct_set_head (RPCStruct_ctor default_pbs) \<lparr>req_id = 1, body_size = 0, meta_size = 8\<rparr> = Inr m \<and>
    (\<exists>m'. rbind (RPCStruct_set_body m []) (\<lambda>m. RPCStruct_set_meta m (map Some meta_s)) = Inr m' \<and>
      reply m' (session_register_callback (Some (\<lambda>_ _. Inr (Some (CallStruct_new 0)))) link_session_new) = Inl Uninit_Read)"
proof -
  obtain m0 m1 m2 m where "RPCStruct_set_head (RPCStruct_ctor default_pbs) \<lparr>req_id = 1, body_size = 0, meta_size = 8\<rparr> = Inr m0"
      "RPCStruct_set_body m0 [] = Inr m1" "RPCStruct_set_meta m1 (map Some meta_s) = Inr m" "frame m (take 8 meta_s) []"
    by (rule frame_built [of "\<lparr>req_id = 1, body_size = 0, meta_size = 8\<rparr>" "[]" "[]" "map Some meta_s" "take 8 meta_s"])
      (simp_all add: meta_s_def)
  then show ?thesis
    using empty_result_faults [of m "take 8 meta_s" "[]" "session_register_callback (Some (\<lambda>_ _. Inr (Some (CallStruct_new 0)))) link_session_new" _ 0]
    by (simp add: session_register_callback_def)
qed

text \<open>A server that was started always has exactly one accept pending, after failed accepts too,
  and every session it started has at most one read pending.\<close>

lemma server_keeps_accepting:
  assumes "reach server_begins server_step v"
  shows "length (accepting v) = 1 \<and> (\<forall>s \<in> set (sessions v). length (filter is_read (in_flight s)) \<le> 1)"
  using server_runs.reach_inv [OF assms] by (auto simp: server_inv_def one_reader_def)

end
