(* ===== verification/ClientLoop.thy ===== *)
theory ClientLoop
  imports ClientMsg SafeQueue SafeMap
begin

text \<open>
  The client of \<open>include/client_async_loop.h\<close>. Its state is the record \<open>client_loop\<close>; message objects
  are shared between the receive map, the send queue and pending handlers, so they live in a store and
  an \<open>RPCStruct_ptr\<close> is an address or null. Calls on the socket are recorded in order. What the network
  answers is a parameter: whether the socket with this history of calls is open, whether a call on it
  throws, and which addresses parse. An asynchronous call adds an operation to \<open>io_queue\<close>; the event
  loop completes it by running its handler.
  This theory holds the operations, one definition per method, and the facts about single calls: what
  \<open>write\<close> builds, what \<open>do_write\<close> sends, how a response reaches its receive slot, what \<open>read\<close> returns
  and what \<open>do_close\<close> does. Runs of the client are the subject of \<open>ClientRuns\<close>, its clean-up timer that
  of \<open>ClientErase\<close>.
\<close>

section \<open>State\<close>

datatype client_send_queue = CSQ_OFF | CSQ_ON

datatype socket_call =
    Sock_Connect string "16 word"
  | Sock_Read nat
  | Sock_Write nat
  | Sock_Shutdown
  | Sock_Cancel
  | Sock_Close

record net =
  sock_open :: "socket_call list \<Rightarrow> bool"
  sock_ok :: "socket_call list \<Rightarrow> socket_call \<Rightarrow> bool"
  addr_ok :: "string \<Rightarrow> bool"

datatype client_op =
    Op_Connect                    \<comment> \<open>\<open>async_connect\<close>, then \<open>handle_connect\<close>\<close>
  | Op_Read_Head                  \<comment> \<open>read 12 bytes, then \<open>handle_read_header\<close>\<close>
  | Op_Read_Msg nat nat           \<comment> \<open>read so many bytes into an object, then \<open>handle_read_msg\<close>\<close>
  | Op_Write "cell list"          \<comment> \<open>write these bytes, then \<open>handle_write\<close>\<close>
  | Post_Write                    \<comment> \<open>posted \<open>do_write()\<close>\<close>
  | Post_Write_Msg nat            \<comment> \<open>posted \<open>do_write(res)\<close>\<close>
  | Post_Close                    \<comment> \<open>posted \<open>do_close()\<close>\<close>
  | Erase_Timer                   \<comment> \<open>wait on \<open>e_timer\<close>, then \<open>erase_msg_timer\<close>\<close>
  | Log_Timer                     \<comment> \<open>wait on \<open>l_timer\<close>, then \<open>log_timer\<close>\<close>
  | Msg_Timer nat                 \<comment> \<open>wait on an object's timer, then \<open>set_timeout\<close>\<close>

text \<open>
  A null \<open>socket_\<close> is \<^term>\<open>None\<close>; a socket is its history of calls. The map's keys are \<open>int\<close>
  values in their signed order. \<open>objs\<close> and \<open>obj_next\<close> are the store of message objects, \<open>delivered\<close>
  the buffers whose write has completed.
\<close>

record client_loop =
  ip :: string
  port :: cint
  csq :: client_send_queue
  socket :: "socket_call list option"
  msg_index :: cint
  recv_msg_map :: "(int, nat option) SafeMap"
  write_msg_queue :: "nat option SafeQueue"
  e_timer :: "timer_call list"
  l_timer :: "timer_call list"
  e_timer_i :: cint
  l_timer_i :: cint
  del_reqid_list :: "cint SafeQueue"
  clietn_status :: client_status_type
  objs :: "nat \<rightharpoonup> RPCStruct"
  obj_next :: nat
  io_queue :: "client_op list"
  delivered :: "cell list list"

definition obj_at :: "client_loop \<Rightarrow> nat option \<Rightarrow> (nat \<times> RPCStruct) res" where
  "obj_at s p =
     rbind (deref Null_Deref p) (\<lambda>r. rbind (deref Use_After_Free (objs s r)) (\<lambda>m. Inr (r, m)))"

definition put_obj :: "nat \<Rightarrow> RPCStruct \<Rightarrow> client_loop \<Rightarrow> client_loop" where
  "put_obj r m s = s\<lparr>objs := (objs s)(r \<mapsto> m)\<rparr>"

text \<open>\<open>RPCStruct_ptr(new RPCStruct(...))\<close>.\<close>

definition new_obj :: "RPCStruct \<Rightarrow> client_loop \<Rightarrow> nat \<times> client_loop" where
  "new_obj m s = (obj_next s, s\<lparr>objs := (objs s)(obj_next s \<mapsto> m), obj_next := Suc (obj_next s)\<rparr>)"

definition issue :: "client_op \<Rightarrow> client_loop \<Rightarrow> client_loop" where
  "issue op s = s\<lparr>io_queue := io_queue s @ [op]\<rparr>"

text \<open>A call on \<open>*socket_\<close>, which may throw.\<close>

definition sock_call :: "net \<Rightarrow> socket_call \<Rightarrow> client_loop \<Rightarrow> client_loop res" where
  "sock_call net c s =
     rbind (deref Null_Deref (socket s)) (\<lambda>h.
     rbind (check (sock_ok net h c) Exception_Thrown) (\<lambda>_.
     Inr (s\<lparr>socket := Some (h @ [c])\<rparr>)))"

text \<open>An asynchronous read or write on \<open>*socket_\<close>; it reports failure through its handler.\<close>

definition sock_async :: "socket_call \<Rightarrow> client_op \<Rightarrow> client_loop \<Rightarrow> client_loop res" where
  "sock_async c op s =
     rbind (deref Null_Deref (socket s)) (\<lambda>h. Inr (issue op (s\<lparr>socket := Some (h @ [c])\<rparr>)))"

text \<open>\<open>recv_msg_map_[reqid]->\<close>: the entry, which is inserted when absent, dereferenced.\<close>

definition map_obj :: "cint \<Rightarrow> client_loop \<Rightarrow> (nat \<times> RPCStruct \<times> client_loop) res" where
  "map_obj reqid s =
     rbind (SafeMap_index None (sint reqid) (recv_msg_map s)) (\<lambda>(p, mp).
     rbind (obj_at (s\<lparr>recv_msg_map := mp\<rparr>) p) (\<lambda>(r, m).
     Inr (r, m, s\<lparr>recv_msg_map := mp\<rparr>)))"

section \<open>Connecting and closing\<close>

definition init_socket :: "client_loop \<Rightarrow> client_loop" where
  "init_socket s = s\<lparr>socket := Some []\<rparr>"

definition reset_socket :: "client_loop \<Rightarrow> client_loop" where
  "reset_socket s = s\<lparr>socket := Some []\<rparr>"

text \<open>The endpoint takes the port as an \<open>unsigned short\<close>; an address that does not parse throws.\<close>

definition do_connect :: "net \<Rightarrow> client_loop \<Rightarrow> client_loop res" where
  "do_connect net s =
     (if clietn_status s = CT_CONN then Inr s
      else
        let s1 = s\<lparr>clietn_status := CT_CONN\<rparr>
        in rbind (check (addr_ok net (ip s1)) Exception_Thrown) (\<lambda>_.
           sock_async (Sock_Connect (ip s1) (ucast (port s1))) Op_Connect s1))"

definition client_is_open :: "net \<Rightarrow> client_loop \<Rightarrow> (bool \<times> client_loop) res" where
  "client_is_open net s =
     rbind (deref Null_Deref (socket s)) (\<lambda>h.
     let res = sock_open net h
     in if res = False then rbind (do_connect net s) (\<lambda>s'. Inr (res, s')) else Inr (res, s))"

definition do_close :: "net \<Rightarrow> client_loop \<Rightarrow> client_loop res" where
  "do_close net s =
     (if CT_CONN_CLOSE = clietn_status s then Inr s
      else
        let s1 = s\<lparr>clietn_status := CT_CONN_CLOSE\<rparr>
        in if socket s1 \<noteq> None then
             rbind (sock_call net Sock_Shutdown s1) (\<lambda>s2.
             rbind (sock_call net Sock_Cancel s2) (\<lambda>s3.
             sock_call net Sock_Close s3))
           else Inr s1)"

definition close :: "client_loop \<Rightarrow> client_loop" where
  "close s = issue Post_Close s"

text \<open>
  The wait on the send queue and the receive map: as long as one of them is not empty the loop goes on
  (\<^term>\<open>None\<close>).
\<close>

definition client_destroy :: "net \<Rightarrow> client_loop \<Rightarrow> client_loop res option" where
  "client_destroy net s =
     (if SafeQueue_size (write_msg_queue s) \<noteq> 0 \<or> SafeMap_size (recv_msg_map s) \<noteq> 0 then None
      else Some (rbind (do_close net s) (\<lambda>s'. Inr (s'\<lparr>socket := None\<rparr>))))"

section \<open>Timers\<close>

text \<open>One iteration of the loop of \<open>erase_msg_timer\<close>.\<close>

definition erase_step :: "client_loop \<Rightarrow> client_loop res" where
  "erase_step s =
     rbind (SafeQueue_pop (del_reqid_list s)) (\<lambda>(reqid, q).
     let s1 = s\<lparr>del_reqid_list := q\<rparr>
     in rbind (SafeMap_has (sint reqid) (recv_msg_map s1)) (\<lambda>found.
        if \<not> found then Inr s1
        else
          rbind (map_obj reqid s1) (\<lambda>(r, m, s2).
          if erase_flag m = CT_ERASE_EXEC then
            Inr (s2\<lparr>recv_msg_map := SafeMap_erase (sint reqid) (recv_msg_map s2)\<rparr>)
          else
            rbind (map_obj reqid s2) (\<lambda>(r, m, s3).
            rbind (if erase_flag m = CT_ERASE_STATE then
                     rbind (map_obj reqid s3) (\<lambda>(r, m, s4).
                     Inr (put_obj r (m\<lparr>erase_flag := CT_ERASE_EXEC\<rparr>) s4))
                   else Inr s3) (\<lambda>s5.
            rbind (SafeQueue_push reqid (del_reqid_list s5)) (\<lambda>q'.
            Inr (s5\<lparr>del_reqid_list := q'\<rparr>)))))))"

text \<open>Each iteration pops one id and pushes at most one back.\<close>

lemma pop_size: "SafeQueue_pop q = Inr (x, q') \<Longrightarrow> size_cnt q' = size_cnt q - 1"
  by (auto simp: SafeQueue_pop_def fault_simps Let_def split: if_splits prod.splits)

lemma push_size: "SafeQueue_push x q = Inr q' \<Longrightarrow> size_cnt q' = size_cnt q + 1"
  by (auto simp: SafeQueue_push_def fault_simps Let_def new_NODE_def split: prod.splits)

lemma map_obj_keeps:
  "map_obj i s = Inr (r, m, s') \<Longrightarrow> \<exists>mp. s' = s\<lparr>recv_msg_map := mp\<rparr>"
  by (auto simp: map_obj_def fault_simps)

lemma put_obj_sel [simp]:
  "del_reqid_list (put_obj r m s) = del_reqid_list s" "recv_msg_map (put_obj r m s) = recv_msg_map s"
  "write_msg_queue (put_obj r m s) = write_msg_queue s" "io_queue (put_obj r m s) = io_queue s"
  "socket (put_obj r m s) = socket s" "clietn_status (put_obj r m s) = clietn_status s"
  "obj_next (put_obj r m s) = obj_next s" "objs (put_obj r m s) = (objs s)(r \<mapsto> m)"
  "csq (put_obj r m s) = csq s" "msg_index (put_obj r m s) = msg_index s"
  by (simp_all add: put_obj_def)

lemma erase_step_size:
  "erase_step s = Inr s' \<Longrightarrow>
     size_cnt (del_reqid_list s') \<in> {size_cnt (del_reqid_list s), size_cnt (del_reqid_list s) - 1}"
  by (auto simp: erase_step_def fault_simps Let_def dest!: pop_size push_size map_obj_keeps
      split: if_splits prod.splits)

text \<open>\<open>for (int i=0; i<del_reqid_list.size(); ++i)\<close>\<close>

function erase_loop :: "nat \<Rightarrow> client_loop \<Rightarrow> client_loop res" where
  "erase_loop i s =
     (if int i < sint (SafeQueue_size (del_reqid_list s)) then
        rbind (erase_step s) (\<lambda>s'. erase_loop (Suc i) s')
      else Inr s)"
  by pat_completeness auto

termination
proof (relation "measure (\<lambda>(i, s). nat (sint (SafeQueue_size (del_reqid_list s)) - int i))")
  fix i s s'
  assume lt: "int i < sint (SafeQueue_size (del_reqid_list s))" and st: "erase_step s = Inr s'"
  let ?w = "size_cnt (del_reqid_list s)"
  have "sint (?w - 1) = sint ?w - 1"
    using lt sint_add_cint [of ?w "- 1"] sint_cint_bounds [of ?w] by (simp add: SafeQueue_size_def)
  then have "sint (size_cnt (del_reqid_list s')) \<le> sint ?w"
    using erase_step_size [OF st] by auto
  with lt show "((Suc i, s'), i, s) \<in> measure (\<lambda>(i, s). nat (sint (SafeQueue_size (del_reqid_list s)) - int i))"
    by (simp add: SafeQueue_size_def)
qed simp

declare erase_loop.simps [simp del]

definition erase_msg_timer :: "client_loop \<Rightarrow> client_loop res" where
  "erase_msg_timer s =
     rbind (erase_loop 0 s) (\<lambda>s1.
     Inr (issue Erase_Timer (s1\<lparr>e_timer := e_timer s1 @ [Expires_From_Now (e_timer_i s1), Async_Wait]\<rparr>)))"

definition log_timer :: "client_loop \<Rightarrow> client_loop" where
  "log_timer s =
     issue Log_Timer (s\<lparr>l_timer := l_timer s @ [Expires_From_Now (l_timer_i s), Async_Wait]\<rparr>)"

definition set_etimeri :: "cint \<Rightarrow> client_loop \<Rightarrow> client_loop" where
  "set_etimeri v s = s\<lparr>e_timer_i := v\<rparr>"

definition set_ltimeri :: "cint \<Rightarrow> client_loop \<Rightarrow> client_loop" where
  "set_ltimeri v s = s\<lparr>l_timer_i := v\<rparr>"

section \<open>Reading\<close>

definition do_read_head :: "client_loop \<Rightarrow> client_loop res" where
  "do_read_head s = sock_async (Sock_Read (size_t RPCStructHead_data_len)) Op_Read_Head s"

definition do_read_msg :: "nat \<Rightarrow> client_loop \<Rightarrow> client_loop res" where
  "do_read_msg r s =
     rbind (obj_at s (Some r)) (\<lambda>(_, m).
     rbind (RPCStruct_recv_msg_buff m) (\<lambda>(p, m').
     let n = size_t (RPCStruct_recv_msg_len m')
     in sock_async (Sock_Read n) (Op_Read_Msg r n) (put_obj r m' s)))"

definition handle_read_header :: "net \<Rightarrow> RPCStructHead \<Rightarrow> error_code \<Rightarrow> client_loop \<Rightarrow> client_loop res" where
  "handle_read_header net hdr error s =
     rbind (client_is_open net s) (\<lambda>(op, s1).
     if \<not> op then Inr s1
     else if error = 0 then
       rbind (SafeMap_has (sint (req_id hdr)) (recv_msg_map s1)) (\<lambda>found.
       if found then
         rbind (map_obj (req_id hdr) s1) (\<lambda>(r, m, s2).
         rbind (RPCStruct_set_head m hdr) (\<lambda>m'.
         rbind (map_obj (req_id hdr) (put_obj r m' s2)) (\<lambda>(r', _, s3).
         do_read_msg r' s3)))
       else
         let (r, s2) = new_obj (RPCStruct_ctor_head hdr default_pbs) s1
         in do_read_msg r s2)
     else do_close net s1)"

definition handle_read_msg :: "net \<Rightarrow> nat \<Rightarrow> error_code \<Rightarrow> client_loop \<Rightarrow> client_loop res" where
  "handle_read_msg net r error s =
     rbind (client_is_open net s) (\<lambda>(op, s1).
     if \<not> op then Inr s1
     else if error = 0 then
       rbind (obj_at s1 (Some r)) (\<lambda>(_, m).
       rbind (RPCStruct_body m) (\<lambda>(p, m1).
       rbind (cstr_at p) (\<lambda>_.
       let m2 = RPCStruct_set_status m1 CT_READ_OK
       in rbind (RPCStruct_showInfo m2) (\<lambda>_.
          do_read_head (put_obj r m2 s1)))))
     else
       rbind (obj_at s1 (Some r)) (\<lambda>(_, m).
       do_close net (put_obj r (RPCStruct_set_status m CT_ERROR) s1)))"

text \<open>
  \<open>read\<close>: first the lookup (\<^term>\<open>None\<close> is the null result), then a loop that polls the status of the
  object; one pass either returns the object or sleeps and goes on.
\<close>

definition client_read_find :: "cint \<Rightarrow> client_loop \<Rightarrow> (nat option \<times> client_loop) res" where
  "client_read_find reqid s =
     rbind (SafeMap_has (sint reqid) (recv_msg_map s)) (\<lambda>found.
     if \<not> found then Inr (None, s)
     else rbind (map_obj reqid s) (\<lambda>(r, m, s'). Inr (Some r, s')))"

fun read_done :: "client_status_type \<Rightarrow> bool" where
  "read_done CT_ERROR = True"
| "read_done CT_READ_OK = True"
| "read_done CT_TIMEOUT = True"
| "read_done _ = False"

definition client_read_poll :: "nat \<Rightarrow> client_loop \<Rightarrow> (bool \<times> client_loop) res" where
  "client_read_poll r s =
     rbind (obj_at s (Some r)) (\<lambda>(_, m).
     if read_done (RPCStruct_get_status m) then
       let s1 = put_obj r (m\<lparr>erase_flag := CT_ERASE_STATE\<rparr>) s
       in rbind (SafeQueue_push (req_id (head_info m)) (del_reqid_list s1)) (\<lambda>q.
          Inr (True, s1\<lparr>del_reqid_list := q\<rparr>))
     else Inr (False, s))"

section \<open>Writing\<close>

text \<open>\<open>async_write\<close> of an object, after it was printed.\<close>

definition send_obj :: "nat \<Rightarrow> client_loop \<Rightarrow> client_loop res" where
  "send_obj r s =
     rbind (obj_at s (Some r)) (\<lambda>(_, m).
     rbind (RPCStruct_showInfo m) (\<lambda>_.
     rbind (wire m) (\<lambda>bytes.
     sock_async (Sock_Write (length bytes)) (Op_Write bytes) s)))"

definition do_write :: "client_loop \<Rightarrow> client_loop res" where
  "do_write s =
     (if clietn_status s \<noteq> CT_CONN_OK then Inr s
      else if SafeQueue_size (write_msg_queue s) \<noteq> 0 then
        rbind (SafeQueue_pop (write_msg_queue s)) (\<lambda>(res, q).
        let s1 = s\<lparr>write_msg_queue := q\<rparr>
        in (case res of Some r \<Rightarrow> send_obj r s1 | None \<Rightarrow> Inr s1))
      else Inr s)"

definition do_write_msg :: "nat option \<Rightarrow> client_loop \<Rightarrow> client_loop res" where
  "do_write_msg res s =
     (if clietn_status s \<noteq> CT_CONN_OK then Inr s
      else (case res of Some r \<Rightarrow> send_obj r s | None \<Rightarrow> Inr s))"

definition handle_write :: "net \<Rightarrow> error_code \<Rightarrow> client_loop \<Rightarrow> client_loop res" where
  "handle_write net error s =
     rbind (client_is_open net s) (\<lambda>(op, s1).
     if \<not> op then Inr s1
     else if error = 0 then (if csq s1 = CSQ_ON then do_write s1 else Inr s1)
     else do_close net s1)"

text \<open>The outgoing object: header with a fresh request id, body, meta.\<close>

definition build_msg :: "cint \<Rightarrow> cell list \<Rightarrow> cint \<Rightarrow> RPCStruct res" where
  "build_msg reqid msg msgL =
     rbind (RPCStruct_set_head (RPCStruct_ctor default_pbs)
              (RPCStructHead_new\<lparr>req_id := reqid, body_size := msgL\<rparr>)) (\<lambda>m0.
     rbind (RPCStruct_set_body m0 msg) (\<lambda>m1.
     RPCStruct_set_meta m1 (map Some meta_s)))"

text \<open>The receive slot before its timer is started.\<close>

definition recv_slot :: "cint \<Rightarrow> RPCStruct" where
  "recv_slot reqid =
     (RPCStruct_ctor default_pbs)\<lparr>head_info := (head_info (RPCStruct_ctor default_pbs))\<lparr>req_id := reqid\<rparr>\<rparr>"

definition newMsgBuf :: "cell list \<Rightarrow> cint \<Rightarrow> cint \<Rightarrow> client_loop \<Rightarrow> (nat \<times> client_loop) res" where
  "newMsgBuf msg msgL timeout s =
     (let reqid = msg_index s; s0 = s\<lparr>msg_index := msg_index s + 1\<rparr>
      in rbind (build_msg reqid msg msgL) (\<lambda>m.
         let (res, s1) = new_obj m s0
         in rbind (if csq s1 = CSQ_ON then
                     rbind (SafeQueue_push (Some res) (write_msg_queue s1)) (\<lambda>q. Inr (s1\<lparr>write_msg_queue := q\<rparr>))
                   else Inr s1) (\<lambda>s2.
            rbind (RPCStruct_body m) (\<lambda>(p, m').
            rbind (cstr_at p) (\<lambda>_.
            let (recv, s3) = new_obj (recv_slot reqid) (put_obj res m' s2)
            in rbind (SafeMap_index_assign None (sint reqid) (Some recv) (recv_msg_map s3)) (\<lambda>mp.
               Inr (res, issue (Msg_Timer recv)
                 (put_obj recv (do_init_timer (recv_slot reqid) timeout) (s3\<lparr>recv_msg_map := mp\<rparr>)))))))))"

definition client_write :: "cell list \<Rightarrow> cint \<Rightarrow> cint \<Rightarrow> client_loop \<Rightarrow> (cint \<times> client_loop) res" where
  "client_write msg msgL timeout s =
     rbind (newMsgBuf msg msgL timeout s) (\<lambda>(tmsg, s1).
     let s2 = issue (if csq s1 = CSQ_ON then Post_Write else Post_Write_Msg tmsg) s1
     in rbind (obj_at s2 (Some tmsg)) (\<lambda>(_, m). Inr (req_id (head_info m), s2)))"

section \<open>Construction and the event loop\<close>

definition handle_connect :: "error_code \<Rightarrow> client_loop \<Rightarrow> client_loop res" where
  "handle_connect error s =
     (if error = 0 then
        rbind (do_read_head (s\<lparr>clietn_status := CT_CONN_OK\<rparr>)) erase_msg_timer
      else Inr (reset_socket (s\<lparr>clietn_status := CT_ERROR\<rparr>)))"

definition client_loop_init :: "string \<Rightarrow> cint \<Rightarrow> client_send_queue \<Rightarrow> client_loop" where
  "client_loop_init i p c = \<lparr>ip = i, port = p, csq = c, socket = None, msg_index = 1,
     recv_msg_map = SafeMap_new, write_msg_queue = SafeQueue_new None, e_timer = [], l_timer = [],
     e_timer_i = 3, l_timer_i = 60 * 10, del_reqid_list = SafeQueue_new 0, clietn_status = CT_UNKNOWN,
     objs = Map.empty, obj_next = 0, io_queue = [], delivered = []\<rparr>"

definition client_loop_new :: "net \<Rightarrow> string \<Rightarrow> cint \<Rightarrow> client_send_queue \<Rightarrow> client_loop res" where
  "client_loop_new net i p c =
     rbind (do_connect net (init_socket (client_loop_init i p c))) (\<lambda>s. Inr (log_timer s))"

text \<open>
  The handler of an operation. A read that succeeds has stored its bytes; the two service timers do not
  look at the error code.
\<close>

fun client_handler :: "net \<Rightarrow> client_op \<Rightarrow> completion \<Rightarrow> client_loop \<Rightarrow> client_loop res" where
  "client_handler net Op_Connect (Done bs) s = handle_connect 0 s"
| "client_handler net Op_Connect (Failed e) s = handle_connect e s"
| "client_handler net Op_Read_Head (Done bs) s =
     rbind (deref Out_Of_Bounds (RPCStructHead_of_data bs)) (\<lambda>hdr. handle_read_header net hdr 0 s)"
| "client_handler net Op_Read_Head (Failed e) s = handle_read_header net RPCStructHead_new e s"
| "client_handler net (Op_Read_Msg r n) (Done bs) s =
     rbind (obj_at s (Some r)) (\<lambda>(_, m).
     rbind (store_recv m bs) (\<lambda>m'. handle_read_msg net r 0 (put_obj r m' s)))"
| "client_handler net (Op_Read_Msg r n) (Failed e) s = handle_read_msg net r e s"
| "client_handler net (Op_Write bytes) (Done bs) s = handle_write net 0 (s\<lparr>delivered := delivered s @ [bytes]\<rparr>)"
| "client_handler net (Op_Write bytes) (Failed e) s = handle_write net e s"
| "client_handler net Post_Write c s = do_write s"
| "client_handler net (Post_Write_Msg r) c s = do_write_msg (Some r) s"
| "client_handler net Post_Close c s = do_close net s"
| "client_handler net Erase_Timer c s = erase_msg_timer s"
| "client_handler net Log_Timer c s = Inr (log_timer s)"
| "client_handler net (Msg_Timer r) (Done bs) s =
     rbind (obj_at s (Some r)) (\<lambda>(_, m). Inr (put_obj r (set_timeout m 0) s))"
| "client_handler net (Msg_Timer r) (Failed e) s =
     rbind (obj_at s (Some r)) (\<lambda>(_, m). Inr (put_obj r (set_timeout m e) s))"

definition client_complete :: "net \<Rightarrow> nat \<Rightarrow> completion \<Rightarrow> client_loop \<Rightarrow> client_loop res" where
  "client_complete net i c s =
     (if i < length (io_queue s) then
        client_handler net (io_queue s ! i) c (s\<lparr>io_queue := take i (io_queue s) @ drop (Suc i) (io_queue s)\<rparr>)
      else Inr s)"

section \<open>The network\<close>

text \<open>
  What the socket documents: a new socket is closed, \<open>async_connect\<close> opens it, \<open>close\<close> closes it and
  no other call changes that. \<open>net_ref\<close> is a network that behaves so and on which no call throws.
\<close>

definition asio_net :: "net \<Rightarrow> bool" where
  "asio_net net \<longleftrightarrow> \<not> sock_open net [] \<and> (\<forall>h a p. sock_open net (h @ [Sock_Connect a p]))
     \<and> (\<forall>h. \<not> sock_open net (h @ [Sock_Close]))
     \<and> (\<forall>h c. c \<noteq> Sock_Close \<longrightarrow> (\<forall>a p. c \<noteq> Sock_Connect a p) \<longrightarrow> sock_open net (h @ [c]) = sock_open net h)"

fun open_upd :: "bool \<Rightarrow> socket_call \<Rightarrow> bool" where
  "open_upd b (Sock_Connect a p) = True"
| "open_upd b Sock_Close = False"
| "open_upd b _ = b"

definition net_ref :: net where
  "net_ref = \<lparr>sock_open = foldl open_upd False, sock_ok = (\<lambda>h c. True), addr_ok = (\<lambda>a. True)\<rparr>"

lemma asio_net_ref: "asio_net net_ref"
proof -
  have "open_upd b c = b" if "c \<noteq> Sock_Close" "\<forall>a p. c \<noteq> Sock_Connect a p" for b c
    using that by (cases c) auto
  then show ?thesis by (auto simp: asio_net_def net_ref_def)
qed

lemma asio_open [simp]:
  assumes "asio_net net"
  shows "\<not> sock_open net []" "sock_open net (h @ [Sock_Connect a p])" "\<not> sock_open net (h @ [Sock_Close])"
    "sock_open net (h @ [Sock_Read n]) = sock_open net h" "sock_open net (h @ [Sock_Write n]) = sock_open net h"
    "sock_open net (h @ [Sock_Shutdown]) = sock_open net h" "sock_open net (h @ [Sock_Cancel]) = sock_open net h"
  using assms by (auto simp: asio_net_def)

lemma is_open_yes: "socket s = Some h \<Longrightarrow> sock_open net h \<Longrightarrow> client_is_open net s = Inr (True, s)"
  by (simp add: client_is_open_def)

section \<open>What write builds\<close>

lemma build_msg_frame:
  assumes "sint msgL = int (length bd)" "int (length bd) + 20 < 2 ^ 31" "take (length bd) msg = map Some bd"
  obtains m where "build_msg i msg msgL = Inr m" "frame m (take 8 meta_s) bd"
    "head_info m = \<lparr>req_id = i, body_size = msgL, meta_size = 8\<rparr>" "status m = CT_UNKNOWN"
proof -
  let ?h = "\<lparr>req_id = i, body_size = msgL, meta_size = 8\<rparr>"
  have meta: "take 8 (map Some meta_s) = map Some (take 8 meta_s)" "length (take 8 meta_s) = 8"
    by (simp_all add: take_map meta_s_def)
  obtain m0 m1 m2 m where "RPCStruct_set_head (RPCStruct_ctor default_pbs) ?h = Inr m0"
      "RPCStruct_set_body m0 msg = Inr m1" "RPCStruct_set_meta m1 (map Some meta_s) = Inr m"
      "frame m (take 8 meta_s) bd" "head_info m = ?h" "status m = CT_UNKNOWN"
    by (rule frame_built [of ?h bd msg "map Some meta_s" "take 8 meta_s"]) (use assms meta in auto)
  then show thesis by (intro that [of m]) (simp_all add: build_msg_def RPCStructHead_new_def)
qed

text \<open>The state after a successful \<open>write\<close>, field by field.\<close>

definition written :: "client_loop \<Rightarrow> cint \<Rightarrow> RPCStruct \<Rightarrow> client_loop \<Rightarrow> bool" where
  "written s timeout m s' \<longleftrightarrow>
     msg_index s' = msg_index s + 1 \<and> obj_next s' = obj_next s + 2
     \<and> objs s' = (objs s)(obj_next s \<mapsto> m, Suc (obj_next s) \<mapsto> do_init_timer (recv_slot (msg_index s)) timeout)
     \<and> SafeMap_inv (recv_msg_map s')
     \<and> SafeMap_lookup (recv_msg_map s') = (SafeMap_lookup (recv_msg_map s))(sint (msg_index s) \<mapsto> Some (Suc (obj_next s)))
     \<and> SafeQueue_inv (write_msg_queue s')
     \<and> contents (write_msg_queue s') = contents (write_msg_queue s) @ (if csq s = CSQ_ON then [Some (obj_next s)] else [])
     \<and> io_queue s' = io_queue s @ [Msg_Timer (Suc (obj_next s)), if csq s = CSQ_ON then Post_Write else Post_Write_Msg (obj_next s)]
     \<and> csq s' = csq s \<and> socket s' = socket s \<and> clietn_status s' = clietn_status s
     \<and> del_reqid_list s' = del_reqid_list s \<and> delivered s' = delivered s"

lemma newMsgBuf_state:
  assumes inv: "SafeMap_inv (recv_msg_map s)" "SafeQueue_inv (write_msg_queue s)"
    and b: "build_msg (msg_index s) msg msgL = Inr m" "RPCStruct_body m = Inr (p, m')" "cstr_at p = Inr str"
  obtains q mp where "SafeQueue_inv q" "SafeMap_inv mp"
    "contents q = contents (write_msg_queue s) @ (if csq s = CSQ_ON then [Some (obj_next s)] else [])"
    "SafeMap_lookup mp = (SafeMap_lookup (recv_msg_map s))(sint (msg_index s) \<mapsto> Some (Suc (obj_next s)))"
    "newMsgBuf msg msgL timeout s = Inr (obj_next s,
       s\<lparr>msg_index := msg_index s + 1, obj_next := obj_next s + 2, recv_msg_map := mp, write_msg_queue := q,
         objs := (objs s)(obj_next s \<mapsto> m', Suc (obj_next s) \<mapsto> do_init_timer (recv_slot (msg_index s)) timeout),
         io_queue := io_queue s @ [Msg_Timer (Suc (obj_next s))]\<rparr>)"
proof -
  obtain q' where q': "SafeQueue_push (Some (obj_next s)) (write_msg_queue s) = Inr q'" "SafeQueue_inv q'"
      "contents q' = contents (write_msg_queue s) @ [Some (obj_next s)]"
    using sq.pushE [OF inv(2)] .
  obtain mp where mp: "SafeMap_index_assign None (sint (msg_index s)) (Some (Suc (obj_next s))) (recv_msg_map s) = Inr mp"
      "SafeMap_inv mp" "SafeMap_lookup mp = (SafeMap_lookup (recv_msg_map s))(sint (msg_index s) \<mapsto> Some (Suc (obj_next s)))"
    using sm.putE [OF inv(1)] .
  show thesis
    by (rule that [of "if csq s = CSQ_ON then q' else write_msg_queue s" mp])
      (use q' mp inv b in \<open>auto simp: newMsgBuf_def Let_def new_obj_def put_obj_def issue_def numeral_2_eq_2\<close>)
qed

lemma client_write_built:
  assumes inv: "SafeMap_inv (recv_msg_map s)" "SafeQueue_inv (write_msg_queue s)"
    and b: "build_msg (msg_index s) msg msgL = Inr m" "RPCStruct_body m = Inr (p, m)" "cstr_at p = Inr str"
  shows "\<exists>s'. client_write msg msgL timeout s = Inr (req_id (head_info m), s') \<and> written s timeout m s'"
proof -
  obtain q mp where *: "SafeQueue_inv q" "SafeMap_inv mp"
    "contents q = contents (write_msg_queue s) @ (if csq s = CSQ_ON then [Some (obj_next s)] else [])"
    "SafeMap_lookup mp = (SafeMap_lookup (recv_msg_map s))(sint (msg_index s) \<mapsto> Some (Suc (obj_next s)))"
    "newMsgBuf msg msgL timeout s = Inr (obj_next s,
       s\<lparr>msg_index := msg_index s + 1, obj_next := obj_next s + 2, recv_msg_map := mp, write_msg_queue := q,
         objs := (objs s)(obj_next s \<mapsto> m, Suc (obj_next s) \<mapsto> do_init_timer (recv_slot (msg_index s)) timeout),
         io_queue := io_queue s @ [Msg_Timer (Suc (obj_next s))]\<rparr>)"
    using newMsgBuf_state [OF inv b] .
  then show ?thesis
    by (simp add: client_write_def issue_def obj_at_def written_def)
qed

lemma client_write_frame:
  assumes inv: "SafeMap_inv (recv_msg_map s)" "SafeQueue_inv (write_msg_queue s)"
    and msg: "sint msgL = int (length bd)" "int (length bd) + 20 < 2 ^ 31" "take (length bd) msg = map Some bd" "0 \<in> set bd"
  obtains m s' where "client_write msg msgL timeout s = Inr (msg_index s, s')" "written s timeout m s'"
    "frame m (take 8 meta_s) bd" "head_info m = \<lparr>req_id = msg_index s, body_size = msgL, meta_size = 8\<rparr>"
proof -
  obtain m where m: "build_msg (msg_index s) msg msgL = Inr m" "frame m (take 8 meta_s) bd"
      "head_info m = \<lparr>req_id = msg_index s, body_size = msgL, meta_size = 8\<rparr>"
    using build_msg_frame [OF msg(1-3)] .
  obtain rest where "RPCStruct_body m = Inr (map Some bd @ rest, m)" using frame_body [OF m(2)] ..
  from client_write_built [OF inv m(1) this cstr_at_terminated [OF msg(4)], of timeout] m that
  show thesis by auto
qed

section \<open>What do\_write sends\<close>

lemma send_obj_frame:
  assumes "objs s r = Some m" "frame m mt bd" "0 \<in> set bd" "socket s = Some h"
  defines "bytes \<equiv> map Some (RPCStructHead_data (head_info m) @ mt @ bd)"
  shows "send_obj r s = Inr (s\<lparr>socket := Some (h @ [Sock_Write (length bytes)]), io_queue := io_queue s @ [Op_Write bytes]\<rparr>)"
  using assms frame_showInfo [OF assms(2,3)] frame_wire [OF assms(2)]
  by (simp add: send_obj_def obj_at_def sock_async_def issue_def bytes_def)

lemma do_write_front:
  assumes q: "SafeQueue_inv (write_msg_queue s)" "contents (write_msg_queue s) = Some r # rs"
      "length rs < 2 ^ 31"
    and s: "clietn_status s = CT_CONN_OK" "socket s = Some h"
    and m: "objs s r = Some m" "frame m mt bd" "0 \<in> set bd"
  defines "bytes \<equiv> map Some (RPCStructHead_data (head_info m) @ mt @ bd)"
  shows "\<exists>q'. do_write s = Inr (s\<lparr>write_msg_queue := q', socket := Some (h @ [Sock_Write (length bytes)]),
      io_queue := io_queue s @ [Op_Write bytes]\<rparr>) \<and> SafeQueue_inv q' \<and> contents q' = rs"
proof -
  have "SafeQueue_size (write_msg_queue s) \<noteq> 0" using sq.size_zero_iff [OF q(1)] q(2,3) by simp
  moreover obtain q' where "SafeQueue_pop (write_msg_queue s) = Inr (Some r, q')" "SafeQueue_inv q'" "contents q' = rs"
    using sq.pop_law [OF q(1,2)] by blast
  ultimately show ?thesis
    using s m send_obj_frame [of "s\<lparr>write_msg_queue := q'\<rparr>" r m mt bd h]
    by (intro exI [of _ q']) (simp add: do_write_def bytes_def)
qed

section \<open>How a response is received\<close>

text \<open>A receive slot: well-formed, with the offsets of its construction.\<close>

definition slot_ok :: "RPCStruct \<Rightarrow> bool" where
  "slot_ok m \<longleftrightarrow> msg_wf m \<and> body_offset m = 20"

lemma map_obj_hit:
  assumes "SafeMap_inv (recv_msg_map s)" "SafeMap_lookup (recv_msg_map s) (sint i) = Some (Some r)" "objs s r = Some m"
  shows "map_obj i s = Inr (r, m, s)"
  using sm.get_hit [OF assms(1,2), of None] assms(3) by (simp add: map_obj_def obj_at_def)

lemma set_head_slot:
  assumes "slot_ok m" "sint (body_size hdr) + 20 < 2 ^ 31"
  obtains m' where "RPCStruct_set_head m hdr = Inr m'" "synced m'" "head_info m' = hdr" "body_offset m' = 20"
    "status m' = status m" "erase_flag m' = erase_flag m" "timer m' = timer m"
proof -
  let ?h = "m\<lparr>head_info := hdr\<rparr>"
  have wf: "msg_wf ?h" "head_fits ?h" using assms by (auto simp: slot_ok_def msg_wf_def head_fits_def)
  have "body_offset m = 20" using assms by (simp add: slot_ok_def)
  with wf show thesis
    using that [of "?h\<lparr>pre_body_size := new_pre ?h, data_buf := Some (new_buf ?h)\<rparr>"] new_data_eq new_data_synced
    by (auto simp: RPCStruct_set_head_def)
qed

lemma do_read_msg_synced:
  assumes "objs s r = Some m" "synced m" "socket s = Some h"
  shows "do_read_msg r s = Inr (s\<lparr>socket := Some (h @ [Sock_Read (size_t (RPCStruct_recv_msg_len m))]),
    io_queue := io_queue s @ [Op_Read_Msg r (size_t (RPCStruct_recv_msg_len m))]\<rparr>)"
proof -
  obtain buf where "data_buf m = Some buf" using assms(2) by (rule synced_bufE)
  then show ?thesis
    using assms recv_buff_eq [OF assms(2)]
    by (simp add: do_read_msg_def obj_at_def put_obj_def sock_async_def issue_def fun_upd_idem Let_def)
qed

lemma handle_read_msg_frame:
  assumes "asio_net net" "socket s = Some h" "sock_open net h" "objs s r = Some m" "frame m mt bd" "0 \<in> set bd"
  shows "handle_read_msg net r 0 s = Inr (s\<lparr>objs := (objs s)(r \<mapsto> RPCStruct_set_status m CT_READ_OK),
    socket := Some (h @ [Sock_Read 12]), io_queue := io_queue s @ [Op_Read_Head]\<rparr>)"
proof -
  obtain rest where b: "RPCStruct_body m = Inr (map Some bd @ rest, m)" using frame_body [OF assms(5)] ..
  have "frame (RPCStruct_set_status m CT_READ_OK) mt bd"
    using assms(5) by (simp add: frame_def synced_def msg_wf_def RPCStruct_set_status_def do_close_timer_def)
  from frame_showInfo [OF this assms(6)] show ?thesis
    using b assms is_open_yes [OF assms(2,3)] cstr_at_terminated [OF assms(6), of rest]
    by (simp add: handle_read_msg_def obj_at_def do_read_head_def sock_async_def issue_def put_obj_def RPCStructHead_data_len_def)
qed

text \<open>The two reads of a response into the slot of its request.\<close>

lemma response_delivered:
  assumes net: "asio_net net" "socket s = Some h" "sock_open net h"
    and slot: "SafeMap_inv (recv_msg_map s)" "SafeMap_lookup (recv_msg_map s) (sint (req_id hdr)) = Some (Some r)"
      "objs s r = Some m" "slot_ok m"
    and op: "i < length (io_queue s)" "io_queue s ! i = Op_Read_Head"
    and msg: "sint (meta_size hdr) = int (length mt)" "length mt = 8" "sint (body_size hdr) = int (length bd)"
      "int (length bd) + 20 < 2 ^ 31" "0 \<in> set bd"
  defines "rest \<equiv> take i (io_queue s) @ drop (Suc i) (io_queue s)"
  obtains s1 m' n where "client_complete net i (Done (RPCStructHead_data hdr)) s = Inr s1"
    "io_queue s1 = rest @ [Op_Read_Msg r n]" "n = length (mt @ bd)"
    "client_complete net (length rest) (Done (mt @ bd)) s1 =
       Inr (s\<lparr>objs := (objs s)(r \<mapsto> RPCStruct_set_status m' CT_READ_OK),
         socket := Some (h @ [Sock_Read (length (mt @ bd)), Sock_Read 12]), io_queue := rest @ [Op_Read_Head]\<rparr>)"
    "frame m' mt bd" "head_info m' = hdr" "erase_flag m' = erase_flag m"
proof -
  have "sint (body_size hdr) + 20 < 2 ^ 31" using msg by simp
  from set_head_slot [OF slot(4) this] obtain m1 where m1: "RPCStruct_set_head m hdr = Inr m1" "synced m1" "head_info m1 = hdr"
      "body_offset m1 = 20" "erase_flag m1 = erase_flag m" by metis
  have len: "size_t (RPCStruct_recv_msg_len m1) = length (mt @ bd)"
    using size_t_sum [of "body_size hdr" "meta_size hdr"] msg m1(3) by (simp add: RPCStruct_recv_msg_len_def)
  let ?h1 = "h @ [Sock_Read (length (mt @ bd))]"
  let ?s0 = "s\<lparr>io_queue := rest\<rparr>"
  let ?s1 = "?s0\<lparr>objs := (objs s)(r \<mapsto> m1), socket := Some ?h1, io_queue := rest @ [Op_Read_Msg r (length (mt @ bd))]\<rparr>"
  have "handle_read_header net hdr 0 ?s0 = do_read_msg r (put_obj r m1 ?s0)"
    using is_open_yes [of ?s0 h net] net slot m1(1) sm.has_law [OF slot(1)] map_obj_hit [of ?s0 "req_id hdr" r m]
      map_obj_hit [of "put_obj r m1 ?s0" "req_id hdr" r m1]
    by (simp add: handle_read_header_def)
  also have "\<dots> = Inr ?s1"
    using do_read_msg_synced [of "put_obj r m1 ?s0" r m1 h] m1(2) net(2) len by (simp add: put_obj_def)
  finally have c1: "client_complete net i (Done (RPCStructHead_data hdr)) s = Inr ?s1"
    using op by (simp add: client_complete_def head_of_data_data rest_def)
  obtain m' where m': "store_recv m1 (mt @ bd) = Inr m'" "frame m' mt bd" "m' = m1\<lparr>data_buf := data_buf m'\<rparr>" "head_info m' = hdr"
    using frame_received [OF m1(2), of mt bd] msg m1(3,4) by auto
  have ef: "erase_flag m' = erase_flag m" using arg_cong [OF m'(3), of erase_flag] m1(5) by simp
  have "client_complete net (length rest) (Done (mt @ bd)) ?s1 =
      handle_read_msg net r 0 (put_obj r m' (?s1\<lparr>io_queue := rest\<rparr>))"
    using m'(1) by (simp add: client_complete_def obj_at_def)
  also have "\<dots> = Inr (s\<lparr>objs := (objs s)(r \<mapsto> RPCStruct_set_status m' CT_READ_OK),
      socket := Some (h @ [Sock_Read (length (mt @ bd)), Sock_Read 12]), io_queue := rest @ [Op_Read_Head]\<rparr>)"
    using handle_read_msg_frame [OF net(1) _ _ _ m'(2) msg(5), of "put_obj r m' (?s1\<lparr>io_queue := rest\<rparr>)" ?h1 r] net
    by (simp add: put_obj_def)
  finally have c2: "client_complete net (length rest) (Done (mt @ bd)) ?s1 =
      Inr (s\<lparr>objs := (objs s)(r \<mapsto> RPCStruct_set_status m' CT_READ_OK),
        socket := Some (h @ [Sock_Read (length (mt @ bd)), Sock_Read 12]), io_queue := rest @ [Op_Read_Head]\<rparr>)" .
  show thesis by (rule that [OF c1 _ refl c2 m'(2,4) ef]) simp
qed

lemma response_skipped:
  assumes net: "asio_net net" "socket s = Some h" "sock_open net h"
    and map: "SafeMap_inv (recv_msg_map s)" "SafeMap_lookup (recv_msg_map s) (sint (req_id hdr)) = None"
    and op: "i < length (io_queue s)" "io_queue s ! i = Op_Read_Head"
    and msg: "sint (meta_size hdr) = int (length mt)" "sint (body_size hdr) = int (length bd)"
      "12 + int (length mt) + max 2048 (int (length bd)) < 2 ^ 31" "0 \<in> set bd"
  defines "rest \<equiv> take i (io_queue s) @ drop (Suc i) (io_queue s)"
  obtains s1 m' where "client_complete net i (Done (RPCStructHead_data hdr)) s = Inr s1"
    "client_complete net (length rest) (Done (mt @ bd)) s1 =
       Inr (s\<lparr>objs := (objs s)(obj_next s \<mapsto> RPCStruct_set_status m' CT_READ_OK), obj_next := Suc (obj_next s),
         socket := Some (h @ [Sock_Read (length (mt @ bd)), Sock_Read 12]), io_queue := rest @ [Op_Read_Head]\<rparr>)"
proof -
  let ?r = "obj_next s" and ?c = "RPCStruct_ctor_head hdr default_pbs"
  obtain p m1 where m1: "RPCStruct_recv_msg_buff ?c = Inr (p, m1)" "synced m1" "head_info m1 = hdr"
      "12 + sint (meta_size hdr) = sint (body_offset m1)" "size_t (RPCStruct_recv_msg_len m1) = length mt + length bd"
    using fresh_receive [OF msg(1-3)] .
  let ?h1 = "h @ [Sock_Read (length (mt @ bd))]"
  let ?s0 = "s\<lparr>io_queue := rest\<rparr>"
  let ?s1 = "?s0\<lparr>objs := (objs s)(?r \<mapsto> m1), obj_next := Suc ?r, socket := Some ?h1,
    io_queue := rest @ [Op_Read_Msg ?r (length (mt @ bd))]\<rparr>"
  have "handle_read_header net hdr 0 ?s0 = Inr ?s1"
    using is_open_yes [of ?s0 h net] net map sm.has_law [OF map(1)] m1
    by (simp add: handle_read_header_def new_obj_def do_read_msg_def obj_at_def sock_async_def issue_def put_obj_def Let_def)
  then have c1: "client_complete net i (Done (RPCStructHead_data hdr)) s = Inr ?s1"
    using op by (simp add: client_complete_def head_of_data_data rest_def)
  obtain m' where m': "store_recv m1 (mt @ bd) = Inr m'" "frame m' mt bd"
    using frame_received [OF m1(2), of mt bd] msg m1(3,4) by auto
  have "client_complete net (length rest) (Done (mt @ bd)) ?s1 =
      handle_read_msg net ?r 0 (put_obj ?r m' (?s1\<lparr>io_queue := rest\<rparr>))"
    using m'(1) by (simp add: client_complete_def obj_at_def)
  also have "\<dots> = Inr (s\<lparr>objs := (objs s)(?r \<mapsto> RPCStruct_set_status m' CT_READ_OK), obj_next := Suc ?r,
      socket := Some (h @ [Sock_Read (length (mt @ bd)), Sock_Read 12]), io_queue := rest @ [Op_Read_Head]\<rparr>)"
    using handle_read_msg_frame [OF net(1) _ _ _ m'(2) msg(4), of "put_obj ?r m' (?s1\<lparr>io_queue := rest\<rparr>)" ?h1 ?r] net
    by (simp add: put_obj_def)
  finally show thesis using that [OF c1] by blast
qed

section \<open>Draining the send queue\<close>

text \<open>The bytes a queued object puts on the wire.\<close>

definition sendable :: "client_loop \<Rightarrow> nat \<Rightarrow> byte list \<Rightarrow> bool" where
  "sendable s r bs \<longleftrightarrow> (\<exists>m mt bd. objs s r = Some m \<and> frame m mt bd \<and> 0 \<in> set bd
     \<and> bs = RPCStructHead_data (head_info m) @ mt @ bd)"

lemma sendable_cong: "objs s' = objs s \<Longrightarrow> sendable s' r bs = sendable s r bs"
  by (simp add: sendable_def)

lemma do_write_sends:
  assumes q: "SafeQueue_inv (write_msg_queue s)" "contents (write_msg_queue s) = Some r # rs" "length rs < 2 ^ 31"
    and s: "clietn_status s = CT_CONN_OK" "socket s = Some h" "sendable s r bs"
  shows "\<exists>q'. do_write s = Inr (s\<lparr>write_msg_queue := q', socket := Some (h @ [Sock_Write (length bs)]),
      io_queue := io_queue s @ [Op_Write (map Some bs)]\<rparr>) \<and> SafeQueue_inv q' \<and> contents q' = rs"
proof -
  obtain m mt bd where m: "objs s r = Some m" "frame m mt bd" "0 \<in> set bd" "bs = RPCStructHead_data (head_info m) @ mt @ bd"
    using s(3) by (auto simp: sendable_def)
  from do_write_front [OF q s(1,2) m(1-3)] m(4) show ?thesis by (simp only: length_map)
qed

lemma do_write_empty:
  assumes "SafeQueue_inv (write_msg_queue s)" "contents (write_msg_queue s) = []"
  shows "do_write s = Inr s"
  using sq.size_law [OF assms(1)] assms(2) by (simp add: do_write_def)

text \<open>Everything \<open>handle_write\<close> relies on to go on sending.\<close>

definition sending :: "net \<Rightarrow> client_loop \<Rightarrow> client_op list \<Rightarrow> byte list \<Rightarrow> (nat \<times> byte list) list \<Rightarrow> bool" where
  "sending net s ops b rbs \<longleftrightarrow> csq s = CSQ_ON \<and> clietn_status s = CT_CONN_OK
     \<and> (\<exists>h. socket s = Some h \<and> sock_open net h) \<and> SafeQueue_inv (write_msg_queue s)
     \<and> contents (write_msg_queue s) = map (Some \<circ> fst) rbs \<and> length rbs < 2 ^ 31
     \<and> (\<forall>(r, bs) \<in> set rbs. sendable s r bs) \<and> io_queue s = ops @ [Op_Write (map Some b)]"

lemma write_completes_last:
  assumes "sending net s ops b []"
  shows "client_complete net (length ops) (Done []) s =
    Inr (s\<lparr>io_queue := ops, delivered := delivered s @ [map Some b]\<rparr>)"
proof -
  obtain h where s: "csq s = CSQ_ON" "socket s = Some h" "sock_open net h" "SafeQueue_inv (write_msg_queue s)"
      "contents (write_msg_queue s) = []" "io_queue s = ops @ [Op_Write (map Some b)]"
    using assms by (auto simp: sending_def)
  let ?s = "s\<lparr>io_queue := ops, delivered := delivered s @ [map Some b]\<rparr>"
  have "do_write ?s = Inr ?s" using s by (intro do_write_empty) simp_all
  then show ?thesis
    using s is_open_yes [of ?s h net] by (simp add: client_complete_def handle_write_def)
qed

lemma write_completes_next:
  assumes net: "asio_net net" and sd: "sending net s ops b ((r, bs) # rbs)"
  shows "\<exists>s'. client_complete net (length ops) (Done []) s = Inr s' \<and> sending net s' ops bs rbs
    \<and> delivered s' = delivered s @ [map Some b]"
proof -
  obtain h where s: "csq s = CSQ_ON" "clietn_status s = CT_CONN_OK" "socket s = Some h" "sock_open net h"
      "SafeQueue_inv (write_msg_queue s)" "contents (write_msg_queue s) = Some r # map (Some \<circ> fst) rbs"
      "length rbs < 2 ^ 31" "sendable s r bs" "\<forall>(r, bs) \<in> set rbs. sendable s r bs" "io_queue s = ops @ [Op_Write (map Some b)]"
    using sd by (auto simp: sending_def)
  let ?s = "s\<lparr>io_queue := ops, delivered := delivered s @ [map Some b]\<rparr>"
  have "contents (write_msg_queue ?s) = Some r # map (Some \<circ> fst) rbs" "sendable ?s r bs"
    using s by (simp_all add: sendable_def)
  from do_write_sends [OF _ this(1) _ _ _ this(2), of h] s obtain q' where
    q: "do_write ?s = Inr (?s\<lparr>write_msg_queue := q', socket := Some (h @ [Sock_Write (length bs)]),
        io_queue := ops @ [Op_Write (map Some bs)]\<rparr>)" "SafeQueue_inv q'" "contents q' = map (Some \<circ> fst) rbs"
    by auto
  have "client_complete net (length ops) (Done []) s = do_write ?s"
    using s is_open_yes [of ?s h net] by (simp add: client_complete_def handle_write_def)
  with q s net show ?thesis by (auto simp: sending_def sendable_def)
qed

fun client_run :: "net \<Rightarrow> (nat \<times> completion) list \<Rightarrow> client_loop \<Rightarrow> client_loop res" where
  "client_run net [] s = Inr s"
| "client_run net ((i, c) # es) s = rbind (client_complete net i c s) (client_run net es)"

lemma writes_complete:
  assumes "asio_net net" "sending net s ops b rbs"
  shows "\<exists>s'. client_run net (replicate (Suc (length rbs)) (length ops, Done [])) s = Inr s'
    \<and> delivered s' = delivered s @ map Some b # map (map Some \<circ> snd) rbs
    \<and> contents (write_msg_queue s') = [] \<and> io_queue s' = ops"
  using assms(2)
proof (induction rbs arbitrary: s b)
  case Nil
  then show ?case using write_completes_last [OF Nil] by (auto simp: sending_def)
next
  case (Cons rb rbs)
  obtain r bs where rb: "rb = (r, bs)" by (cases rb)
  from write_completes_next [OF assms(1) Cons.prems [unfolded rb]] obtain s1 where
    s1: "client_complete net (length ops) (Done []) s = Inr s1" "sending net s1 ops bs rbs" "delivered s1 = delivered s @ [map Some b]"
    by blast
  from Cons.IH [OF s1(2)] s1 rb show ?case by auto
qed

section \<open>Closing and connecting again\<close>

lemma do_close_open:
  assumes "clietn_status s \<noteq> CT_CONN_CLOSE" "socket s = Some h" "\<And>h c. sock_ok net h c"
  shows "do_close net s = Inr (s\<lparr>clietn_status := CT_CONN_CLOSE,
    socket := Some (h @ [Sock_Shutdown, Sock_Cancel, Sock_Close])\<rparr>)"
  using assms by (simp add: do_close_def sock_call_def)

lemma is_open_reconnects:
  assumes "asio_net net" "socket s = Some (h @ [Sock_Close])" "clietn_status s \<noteq> CT_CONN" "addr_ok net (ip s)"
  shows "client_is_open net s = Inr (False, s\<lparr>clietn_status := CT_CONN,
    socket := Some (h @ [Sock_Close, Sock_Connect (ip s) (ucast (port s))]), io_queue := io_queue s @ [Op_Connect]\<rparr>)"
  using assms by (simp add: client_is_open_def do_connect_def sock_async_def issue_def)

section \<open>Properties\<close>

text \<open>C5: \<open>write\<close> of a NUL-terminated message always succeeds: it returns the old request counter, which
  it advances by one; the outgoing object serialises to the header (that id, the length, 8), the meta
  field and the message; it is queued when the send queue is on; a receive slot under that id is in the
  map with its timeout armed, no other entry changed, and the send is posted.\<close>

theorem write_builds_request:
  assumes "SafeMap_inv (recv_msg_map s)" "SafeQueue_inv (write_msg_queue s)"
    and "sint msgL = int (length bd)" "int (length bd) + 20 < 2 ^ 31" "take (length bd) msg = map Some bd" "0 \<in> set bd"
  shows "\<exists>s' m. client_write msg msgL timeout s = Inr (msg_index s, s') \<and> written s timeout m s'
    \<and> wire m = Inr (map Some (RPCStructHead_data \<lparr>req_id = msg_index s, body_size = msgL, meta_size = 8\<rparr> @ take 8 meta_s @ bd))"
proof -
  obtain m s' where m: "client_write msg msgL timeout s = Inr (msg_index s, s')" "written s timeout m s'"
    "frame m (take 8 meta_s) bd" "head_info m = \<lparr>req_id = msg_index s, body_size = msgL, meta_size = 8\<rparr>"
    using client_write_frame [OF assms] .
  from frame_wire [OF m(3)] m show ?thesis by auto
qed

lemma new_queue_inv: "SafeQueue_inv (SafeQueue_new d)" "contents (SafeQueue_new d) = []"
proof -
  have "on_chain (SafeQueue_new d) [0]" by (auto simp: on_chain_def SafeQueue_new_def new_NODE_def)
  then show "SafeQueue_inv (SafeQueue_new d)" by (auto simp: SafeQueue_inv_def)
  show "contents (SafeQueue_new d) = []" by (simp add: contents_def SafeQueue_new_def new_NODE_def)
qed

lemma init_client_inv:
  "SafeMap_inv (recv_msg_map (client_loop_init i p c))" "SafeQueue_inv (write_msg_queue (client_loop_init i p c))"
  "SafeQueue_inv (del_reqid_list (client_loop_init i p c))"
  by (simp_all add: client_loop_init_def SafeMap_new_def SafeMap_inv_def new_queue_inv)

theorem write_builds_request_witness:
  "\<exists>s' m. client_write [Some 72, Some 0] 2 80 (client_loop_init ''127.0.0.1'' 6688 CSQ_ON) = Inr (1, s')
    \<and> wire m = Inr (map Some (RPCStructHead_data \<lparr>req_id = 1, body_size = 2, meta_size = 8\<rparr> @ take 8 meta_s @ [72, 0]))"
proof -
  let ?s = "client_loop_init ''127.0.0.1'' 6688 CSQ_ON"
  have "msg_index ?s = 1" by (simp add: client_loop_init_def)
  then show ?thesis
    using write_builds_request [where s = ?s and msgL = 2 and bd = "[72, 0]" and msg = "[Some 72, Some 0]" and timeout = 80]
      init_client_inv by auto
qed

text \<open>C6: With the send queue on, once one write is in flight the completions alone carry the queue: as
  many completions as there are queued messages, plus one, put every queued message on the wire, whole
  and in the order of the \<open>write\<close> calls, and leave the queue empty.\<close>

theorem queue_drains_in_order:
  assumes "asio_net net" "sending net s ops b rbs"
  shows "\<exists>s'. client_run net (replicate (Suc (length rbs)) (length ops, Done [])) s = Inr s'
    \<and> delivered s' = delivered s @ map Some b # map (map Some \<circ> snd) rbs
    \<and> contents (write_msg_queue s') = [] \<and> io_queue s' = ops"
  using assms by (rule writes_complete)


text \<open>A connected client with one request outstanding, for the witnesses.\<close>

definition waiting_client :: client_loop where
  "waiting_client = (client_loop_init ''127.0.0.1'' 6688 CSQ_ON)\<lparr>socket := Some [Sock_Connect ''127.0.0.1'' 6688],
     clietn_status := CT_CONN_OK, msg_index := 2, recv_msg_map := \<lparr>wdmap = [(1, Some 0)]\<rparr>,
     objs := [0 \<mapsto> recv_slot 1], obj_next := 1, io_queue := [Op_Read_Head]\<rparr>"

lemma slot_ok_recv_slot: "slot_ok (recv_slot i)"
  by (simp add: slot_ok_def recv_slot_def msg_wf_def RPCStruct_ctor_def RPCStruct_ctor_head_def RPCStructHead_new_def
      RPCStructHead_data_len_def default_pbs_def Let_def)

lemma waiting_client_facts:
  "socket waiting_client = Some [Sock_Connect ''127.0.0.1'' 6688]" "sock_open net_ref [Sock_Connect ''127.0.0.1'' 6688]"
  "SafeMap_inv (recv_msg_map waiting_client)" "SafeMap_lookup (recv_msg_map waiting_client) 1 = Some (Some 0)"
  "SafeMap_lookup (recv_msg_map waiting_client) 5 = None"
  "objs waiting_client 0 = Some (recv_slot 1)" "slot_ok (recv_slot 1)" "SafeQueue_inv (del_reqid_list waiting_client)"
  "contents (del_reqid_list waiting_client) = []" "io_queue waiting_client = [Op_Read_Head]"
  "SafeQueue_inv (write_msg_queue waiting_client)" "contents (write_msg_queue waiting_client) = []"
  "csq waiting_client = CSQ_ON" "clietn_status waiting_client = CT_CONN_OK" "obj_next waiting_client = 1"
  by (simp_all add: waiting_client_def net_ref_def SafeMap_inv_def SafeMap_lookup_def stdmap_ok_def slot_ok_recv_slot
      client_loop_init_def new_queue_inv)




theorem queue_drains_in_order_witness:
  "\<exists>s s'. contents (write_msg_queue s) = [Some 1] \<and> client_run net_ref [(0, Done []), (0, Done [])] s = Inr s'
    \<and> delivered s' = delivered s @ [[Some 0], map Some (RPCStructHead_data \<lparr>req_id = msg_index waiting_client, body_size = 1, meta_size = 8\<rparr> @ take 8 meta_s @ [0])]
    \<and> contents (write_msg_queue s') = []"
proof -
  obtain m s1 where m: "written waiting_client 80 m s1" "frame m (take 8 meta_s) [0]"
      "head_info m = \<lparr>req_id = msg_index waiting_client, body_size = 1, meta_size = 8\<rparr>"
    by (rule client_write_frame [OF waiting_client_facts(3,11), of 1 "[0]" "[Some 0]" 80]) simp_all
  let ?s = "s1\<lparr>io_queue := [Op_Write (map Some [0])]\<rparr>"
  let ?b = "RPCStructHead_data \<lparr>req_id = msg_index waiting_client, body_size = 1, meta_size = 8\<rparr> @ take 8 meta_s @ [0]"
  have "sendable ?s 1 ?b" 
    unfolding sendable_def using m waiting_client_facts
    by (intro exI [of _ m] exI [of _ "take 8 meta_s"] exI [of _ "[0]"]) (simp add: written_def)
  then have "sending net_ref ?s [] [0] [(1, ?b)]" "contents (write_msg_queue ?s) = [Some 1]"
    using m(1) waiting_client_facts by (auto simp: sending_def written_def)
  moreover from queue_drains_in_order [OF asio_net_ref this(1)] obtain s' where
    "client_run net_ref (replicate (Suc (length [(1 :: nat, ?b)])) (length ([] :: client_op list), Done [])) ?s = Inr s'"
    "delivered s' = delivered ?s @ map Some [0] # map (map Some \<circ> snd) [(1 :: nat, ?b)]" "contents (write_msg_queue s') = []"
    by blast
  ultimately show ?thesis by (intro exI [of _ ?s] exI [of _ s']) simp
qed



end
