(* ===== verification/ClientErase.thy ===== *)
theory ClientErase
  imports ClientLoop
begin

text \<open>
  The clean-up timer of \<open>include/client_async_loop.h\<close>: \<open>erase_msg_timer\<close> walks the list of request ids
  that \<open>read\<close> has returned, marks each slot on a first visit and removes it from the receive map on a
  second one. The loop is compared with the same walk on a plain list and a table of flags
  (\<open>erase_pass\<close>), on which its effect is then computed: a slot that was just read survives the pass that
  marks it, and after at most twice as many passes as there are ids every listed slot is gone.
\<close>

section \<open>The slots\<close>

text \<open>Every entry of the receive map points at an object of the store with that request id.\<close>

definition slots_ok :: "client_loop \<Rightarrow> bool" where
  "slots_ok s \<longleftrightarrow> SafeMap_inv (recv_msg_map s) \<and>
     (\<forall>k p. SafeMap_lookup (recv_msg_map s) k = Some p \<longrightarrow>
        (\<exists>r m. p = Some r \<and> objs s r = Some m \<and> sint (req_id (head_info m)) = k))"

lemma slots_okE:
  assumes "slots_ok s" "SafeMap_lookup (recv_msg_map s) k = Some p"
  obtains r m where "p = Some r" "objs s r = Some m" "sint (req_id (head_info m)) = k"
  using assms unfolding slots_ok_def by blast

text \<open>The mark of the slot under a key.\<close>

definition flag_of :: "client_loop \<Rightarrow> int \<Rightarrow> client_status_type option" where
  "flag_of s k = (case SafeMap_lookup (recv_msg_map s) k of
     Some (Some r) \<Rightarrow> map_option erase_flag (objs s r)
   | _ \<Rightarrow> None)"

lemma slots_cong:
  assumes "recv_msg_map s' = recv_msg_map s" "objs s' = objs s"
  shows "slots_ok s' = slots_ok s" "flag_of s' = flag_of s"
proof -
  show "slots_ok s' = slots_ok s" using assms by (simp add: slots_ok_def)
  show "flag_of s' = flag_of s" using assms by (auto simp: flag_of_def fun_eq_iff split: option.split)
qed

lemma flag_of_None: "slots_ok s \<Longrightarrow> flag_of s k = None \<longleftrightarrow> SafeMap_lookup (recv_msg_map s) k = None"
  by (cases "SafeMap_lookup (recv_msg_map s) k") (auto simp: flag_of_def elim: slots_okE)

lemma flag_of_Some:
  assumes "slots_ok s" "flag_of s k = Some f"
  obtains r m where "SafeMap_lookup (recv_msg_map s) k = Some (Some r)" "objs s r = Some m" "erase_flag m = f"
    "sint (req_id (head_info m)) = k"
proof (cases "SafeMap_lookup (recv_msg_map s) k")
  case None
  then show thesis using assms by (simp add: flag_of_def)
next
  case (Some p)
  obtain r m where "p = Some r" "objs s r = Some m" "sint (req_id (head_info m)) = k"
    using assms(1) Some by (rule slots_okE)
  then show thesis using that assms(2) Some by (simp add: flag_of_def)
qed

section \<open>The walk on a list\<close>

fun erase_list_step :: "cint list \<times> (int \<Rightarrow> client_status_type option) \<Rightarrow> cint list \<times> (int \<Rightarrow> client_status_type option)" where
  "erase_list_step ([], F) = ([], F)"
| "erase_list_step (x # xs, F) =
     (case F (sint x) of
        None \<Rightarrow> (xs, F)
      | Some f \<Rightarrow>
          if f = CT_ERASE_EXEC then (xs, F(sint x := None))
          else if f = CT_ERASE_STATE then (xs @ [x], F(sint x \<mapsto> CT_ERASE_EXEC))
          else (xs @ [x], F))"

lemma erase_list_step_length: "length (fst (erase_list_step (l, F))) \<le> length l"
  by (cases l) (auto split: option.split)

function erase_pass :: "nat \<Rightarrow> cint list \<times> (int \<Rightarrow> client_status_type option) \<Rightarrow> cint list \<times> (int \<Rightarrow> client_status_type option)" where
  "erase_pass i (l, F) = (if i < length l then erase_pass (Suc i) (erase_list_step (l, F)) else (l, F))"
  by pat_completeness auto
termination
proof (relation "measure (\<lambda>(i, l, F). length l - i)")
  fix i :: nat and l :: "cint list" and F :: "int \<Rightarrow> client_status_type option"
  assume "i < length l"
  then show "((Suc i, erase_list_step (l, F)), i, l, F) \<in> measure (\<lambda>(i, l, F). length l - i)"
    using erase_list_step_length [of l F] by (cases "erase_list_step (l, F)") simp
qed simp

declare erase_pass.simps [simp del]

definition erase_abs :: "client_loop \<Rightarrow> cint list \<times> (int \<Rightarrow> client_status_type option)" where
  "erase_abs s = (contents (del_reqid_list s), flag_of s)"

section \<open>The loop implements the walk\<close>

definition erase_ready :: "client_loop \<Rightarrow> bool" where
  "erase_ready s \<longleftrightarrow> slots_ok s \<and> SafeQueue_inv (del_reqid_list s) \<and> length (contents (del_reqid_list s)) < 2 ^ 31"

text \<open>The fields a pass does not touch.\<close>

definition erase_frame :: "client_loop \<Rightarrow> client_loop \<Rightarrow> bool" where
  "erase_frame s s' \<longleftrightarrow> io_queue s' = io_queue s \<and> write_msg_queue s' = write_msg_queue s \<and> socket s' = socket s
     \<and> clietn_status s' = clietn_status s \<and> csq s' = csq s \<and> msg_index s' = msg_index s \<and> obj_next s' = obj_next s
     \<and> delivered s' = delivered s \<and> dom (objs s') = dom (objs s)
     \<and> (\<forall>r m. objs s r = Some m \<longrightarrow> (\<exists>f. objs s' r = Some (m\<lparr>erase_flag := f\<rparr>)))
     \<and> (\<forall>k. SafeMap_lookup (recv_msg_map s') k \<in> {None, SafeMap_lookup (recv_msg_map s) k})"

lemma erase_frame_refl: "erase_frame s s"
proof -
  have "\<exists>f. Some m = Some (m\<lparr>erase_flag := f\<rparr>)" for m :: RPCStruct by (rule exI [of _ "erase_flag m"]) simp
  then show ?thesis by (simp add: erase_frame_def)
qed

lemma erase_frame_trans:
  assumes "erase_frame s s'" "erase_frame s' s''"
  shows "erase_frame s s''"
proof -
  have "\<exists>f. objs s'' r = Some (m\<lparr>erase_flag := f\<rparr>)" if m: "objs s r = Some m" for r m
  proof -
    obtain f where "objs s' r = Some (m\<lparr>erase_flag := f\<rparr>)" using assms(1) m unfolding erase_frame_def by blast
    then obtain f' where "objs s'' r = Some (m\<lparr>erase_flag := f\<rparr>\<lparr>erase_flag := f'\<rparr>)"
      using assms(2) unfolding erase_frame_def by blast
    then show ?thesis by auto
  qed
  moreover have "SafeMap_lookup (recv_msg_map s'') k \<in> {None, SafeMap_lookup (recv_msg_map s) k}" for k
    using assms unfolding erase_frame_def by (metis insert_iff singletonD)
  ultimately show ?thesis using assms by (simp add: erase_frame_def)
qed

text \<open>One iteration on a listed id that is no longer in the map, and on one that is.\<close>

lemma erase_step_absent:
  assumes ok: "slots_ok s" "SafeQueue_inv (del_reqid_list s)" "contents (del_reqid_list s) = x # xs" "flag_of s (sint x) = None"
  obtains q where "SafeQueue_inv q" "contents q = xs" "erase_step s = Inr (s\<lparr>del_reqid_list := q\<rparr>)"
proof -
  obtain q where q: "SafeQueue_pop (del_reqid_list s) = Inr (x, q)" "SafeQueue_inv q" "contents q = xs"
    using sq.pop_law [OF ok(2,3)] by blast
  have mi: "SafeMap_inv (recv_msg_map s)" using ok(1) by (simp add: slots_ok_def)
  have "SafeMap_has (sint x) (recv_msg_map s) = Inr False" using sm.has_law [OF mi] flag_of_None [OF ok(1)] ok(4) by simp
  with q show thesis by (intro that [of q]) (simp_all add: erase_step_def Let_def)
qed

lemma erase_step_present:
  assumes ok: "slots_ok s" "SafeQueue_inv (del_reqid_list s)" "contents (del_reqid_list s) = x # xs"
    and l: "SafeMap_lookup (recv_msg_map s) (sint x) = Some (Some r)" "objs s r = Some m"
  obtains q q' where "SafeQueue_inv q" "contents q = xs" "SafeQueue_inv q'" "contents q' = xs @ [x]"
    "erase_step s = Inr
       (if erase_flag m = CT_ERASE_EXEC then s\<lparr>del_reqid_list := q, recv_msg_map := SafeMap_erase (sint x) (recv_msg_map s)\<rparr>
        else (if erase_flag m = CT_ERASE_STATE then put_obj r (m\<lparr>erase_flag := CT_ERASE_EXEC\<rparr>) s else s)\<lparr>del_reqid_list := q'\<rparr>)"
proof -
  obtain q where q: "SafeQueue_pop (del_reqid_list s) = Inr (x, q)" "SafeQueue_inv q" "contents q = xs"
    using sq.pop_law [OF ok(2,3)] by blast
  obtain q' where q': "SafeQueue_push x q = Inr q'" "SafeQueue_inv q'" "contents q' = xs @ [x]"
    using sq.pushE [OF q(2)] q(3) by metis
  have mi: "SafeMap_inv (recv_msg_map s)" using ok(1) by (simp add: slots_ok_def)
  have has: "SafeMap_has (sint x) (recv_msg_map s) = Inr True" using sm.has_law [OF mi] l(1) by simp
  have mo: "map_obj x (s\<lparr>del_reqid_list := q\<rparr>) = Inr (r, m, s\<lparr>del_reqid_list := q\<rparr>)"
    using map_obj_hit [of "s\<lparr>del_reqid_list := q\<rparr>" x r m] mi l by simp
  show thesis
    by (rule that [OF q(2,3) q'(2,3)]) (use q(1) q'(1) has mo in \<open>simp add: erase_step_def Let_def put_obj_def\<close>)
qed

text \<open>Marking a slot changes the flag of its own id only.\<close>

lemma flag_of_mark:
  assumes ok: "slots_ok s" and l: "SafeMap_lookup (recv_msg_map s) k = Some (Some r)" "objs s r = Some m" "sint (req_id (head_info m)) = k"
  shows "flag_of (put_obj r (m\<lparr>erase_flag := f\<rparr>) s) = (flag_of s)(k \<mapsto> f)"
proof
  fix k'
  have "r' \<noteq> r" if "SafeMap_lookup (recv_msg_map s) k' = Some (Some r')" "k' \<noteq> k" for r'
    using slots_okE [OF ok that(1)] that(2) l(2,3) by fastforce
  then show "flag_of (put_obj r (m\<lparr>erase_flag := f\<rparr>) s) k' = ((flag_of s)(k \<mapsto> f)) k'"
    using l(1) by (cases "k' = k") (auto simp: flag_of_def split: option.splits)
qed

lemma erase_step_refines:
  assumes ok: "slots_ok s" "SafeQueue_inv (del_reqid_list s)" "contents (del_reqid_list s) = x # xs"
  shows "\<exists>s'. erase_step s = Inr s' \<and> slots_ok s' \<and> SafeQueue_inv (del_reqid_list s')
    \<and> erase_abs s' = erase_list_step (erase_abs s) \<and> erase_frame s s'"
proof (cases "flag_of s (sint x)")
  case None
  obtain q where q: "SafeQueue_inv q" "contents q = xs" "erase_step s = Inr (s\<lparr>del_reqid_list := q\<rparr>)"
    using erase_step_absent [OF ok None] .
  then show ?thesis
    using ok(1,3) None slots_cong [of "s\<lparr>del_reqid_list := q\<rparr>" s] erase_frame_refl [of s]
    by (simp add: erase_abs_def erase_frame_def)
next
  case (Some f)
  have mi: "SafeMap_inv (recv_msg_map s)" using ok(1) by (simp add: slots_ok_def)
  obtain r m where l: "SafeMap_lookup (recv_msg_map s) (sint x) = Some (Some r)" "objs s r = Some m" "erase_flag m = f"
      "sint (req_id (head_info m)) = sint x"
    using flag_of_Some [OF ok(1) Some] .
  obtain q q' where q: "SafeQueue_inv q" "contents q = xs" "SafeQueue_inv q'" "contents q' = xs @ [x]"
    and e: "erase_step s = Inr
       (if erase_flag m = CT_ERASE_EXEC then s\<lparr>del_reqid_list := q, recv_msg_map := SafeMap_erase (sint x) (recv_msg_map s)\<rparr>
        else (if erase_flag m = CT_ERASE_STATE then put_obj r (m\<lparr>erase_flag := CT_ERASE_EXEC\<rparr>) s else s)\<lparr>del_reqid_list := q'\<rparr>)"
    using erase_step_present [OF ok l(1,2)] .
  consider "f = CT_ERASE_EXEC" | "f = CT_ERASE_STATE" | "f \<noteq> CT_ERASE_EXEC" "f \<noteq> CT_ERASE_STATE" by blast
  then show ?thesis
  proof cases
    case 1
    let ?s = "s\<lparr>del_reqid_list := q, recv_msg_map := SafeMap_erase (sint x) (recv_msg_map s)\<rparr>"
    have "flag_of ?s = (flag_of s)(sint x := None)"
      using sm.lookup_del [OF mi] by (auto simp: flag_of_def fun_eq_iff split: option.split)
    moreover have "slots_ok ?s" using ok(1) sm.inv_del [OF mi] sm.lookup_del [OF mi] by (simp add: slots_ok_def)
    moreover have "erase_frame s ?s" using erase_frame_refl [of s] sm.lookup_del [OF mi] by (simp add: erase_frame_def)
    ultimately show ?thesis using q e l(3) ok(3) Some 1 by (simp add: erase_abs_def)
  next
    case 2
    let ?p = "put_obj r (m\<lparr>erase_flag := CT_ERASE_EXEC\<rparr>) s" and ?s = "put_obj r (m\<lparr>erase_flag := CT_ERASE_EXEC\<rparr>) s\<lparr>del_reqid_list := q'\<rparr>"
    have "flag_of ?s = (flag_of s)(sint x \<mapsto> CT_ERASE_EXEC)"
      using flag_of_mark [OF ok(1) l(1,2,4)] slots_cong [of ?s ?p] by simp
    moreover have "slots_ok ?s" using ok(1) l(2,4) unfolding slots_ok_def by fastforce
    moreover have "erase_frame s ?s" using erase_frame_refl [of s] l(2) by (auto simp: erase_frame_def put_obj_def)
    ultimately show ?thesis using q e l(3) ok(3) Some 2 by (simp add: erase_abs_def)
  next
    case 3
    then show ?thesis
      using q e l(3) ok(1,3) Some slots_cong [of "s\<lparr>del_reqid_list := q'\<rparr>" s] erase_frame_refl [of s]
      by (simp add: erase_abs_def erase_frame_def)
  qed
qed

lemma erase_loop_refines:
  assumes "erase_ready s"
  shows "\<exists>s'. erase_loop i s = Inr s' \<and> erase_ready s' \<and> erase_abs s' = erase_pass i (erase_abs s) \<and> erase_frame s s'"
  using assms
proof (induction i s rule: erase_loop.induct)
  case (1 i s)
  let ?l = "contents (del_reqid_list s)"
  have ok: "slots_ok s" "SafeQueue_inv (del_reqid_list s)" "length ?l < 2 ^ 31" using 1(2) by (simp_all add: erase_ready_def)
  have sz: "sint (SafeQueue_size (del_reqid_list s)) = int (length ?l)"
    using sq.size_law [OF ok(2)] ok(3) sint_of_nat_cint [of "length ?l"] by simp
  have ab: "erase_abs s = (?l, flag_of s)" by (simp add: erase_abs_def)
  show ?case
  proof (cases "i < length ?l")
    case False
    then show ?thesis
      using 1(2) sz ab erase_frame_refl by (simp add: erase_loop.simps [of i s] erase_pass.simps [of i])
  next
    case True
    then obtain x xs where l: "?l = x # xs" by (cases ?l) auto
    obtain s1 where s1: "erase_step s = Inr s1" "slots_ok s1" "SafeQueue_inv (del_reqid_list s1)"
        "erase_abs s1 = erase_list_step (erase_abs s)" "erase_frame s s1"
      using erase_step_refines [OF ok(1,2) l] by blast
    have "length (contents (del_reqid_list s1)) \<le> length ?l"
      using erase_list_step_length [of ?l "flag_of s"] s1(4) ab by (simp add: erase_abs_def) (metis fst_conv)
    then have r1: "erase_ready s1" using s1 ok(3) by (simp add: erase_ready_def)
    from 1(1) [OF _ s1(1) r1] True sz obtain s2 where
      s2: "erase_loop (Suc i) s1 = Inr s2" "erase_ready s2" "erase_abs s2 = erase_pass (Suc i) (erase_abs s1)" "erase_frame s1 s2"
      by auto
    have "erase_loop i s = Inr s2" using True sz s1(1) s2(1) by (simp add: erase_loop.simps [of i s])
    moreover have "erase_pass i (erase_abs s) = erase_pass (Suc i) (erase_abs s1)"
      using True ab s1(4) by (simp add: erase_pass.simps [of i])
    ultimately show ?thesis using s2 erase_frame_trans [OF s1(5) s2(4)] by auto
  qed
qed

lemma erase_msg_timer_refines:
  assumes "erase_ready s"
  shows "\<exists>s' e. erase_msg_timer s = Inr (issue Erase_Timer (s'\<lparr>e_timer := e\<rparr>)) \<and> erase_ready s'
    \<and> erase_abs s' = erase_pass 0 (erase_abs s) \<and> erase_frame s s'"
proof -
  obtain s' where "erase_loop 0 s = Inr s'" "erase_ready s'" "erase_abs s' = erase_pass 0 (erase_abs s)" "erase_frame s s'"
    using erase_loop_refines [OF assms, of 0] by blast
  then show ?thesis
    by (intro exI [of _ s'] exI [of _ "e_timer s' @ [Expires_From_Now (e_timer_i s'), Async_Wait]"])
      (simp add: erase_msg_timer_def)
qed

section \<open>What the walk achieves\<close>

text \<open>Ids only enter the list through \<open>read\<close>, which marks the slot.\<close>

definition marked :: "cint list \<times> (int \<Rightarrow> client_status_type option) \<Rightarrow> bool" where
  "marked p \<longleftrightarrow> (\<forall>x \<in> set (fst p). snd p (sint x) \<in> {None, Some CT_ERASE_STATE, Some CT_ERASE_EXEC})"

text \<open>The visits that are left for the ids on the list.\<close>

definition visits :: "client_status_type option \<Rightarrow> nat" where
  "visits f = (if f = Some CT_ERASE_STATE then 2 else 1)"

definition visits_left :: "cint list \<times> (int \<Rightarrow> client_status_type option) \<Rightarrow> nat" where
  "visits_left p = sum_list (map (\<lambda>x. visits (snd p (sint x))) (fst p))"

text \<open>What any number of iterations may do: ids leave the list only when their slot is gone, and slots
  that are not listed stay.\<close>

definition erased_to :: "cint list \<times> (int \<Rightarrow> client_status_type option) \<Rightarrow> cint list \<times> (int \<Rightarrow> client_status_type option) \<Rightarrow> bool" where
  "erased_to p p' \<longleftrightarrow> set (fst p') \<subseteq> set (fst p) \<and> visits_left p' \<le> visits_left p
     \<and> (\<forall>x \<in> set (fst p). x \<in> set (fst p') \<or> snd p' (sint x) = None)
     \<and> (\<forall>k. k \<notin> sint ` set (fst p) \<longrightarrow> snd p' k = snd p k) \<and> (\<forall>k. snd p k = None \<longrightarrow> snd p' k = None)"

lemma erased_to_refl: "erased_to p p"
  by (simp add: erased_to_def)

lemma erased_to_trans:
  assumes pq: "erased_to p q" and qr: "erased_to q r"
  shows "erased_to p r"
  unfolding erased_to_def
proof (intro conjI ballI allI impI)
  have sub: "set (fst q) \<subseteq> set (fst p)" "set (fst r) \<subseteq> set (fst q)" using pq qr by (simp_all add: erased_to_def)
  then show "set (fst r) \<subseteq> set (fst p)" by blast
  show "visits_left r \<le> visits_left p" using pq qr by (simp add: erased_to_def)
  show "x \<in> set (fst r) \<or> snd r (sint x) = None" if "x \<in> set (fst p)" for x
  proof -
    have "x \<in> set (fst q) \<or> snd q (sint x) = None" using pq that by (simp add: erased_to_def)
    then show ?thesis using qr by (auto simp: erased_to_def)
  qed
  show "snd r k = snd p k" if "k \<notin> sint ` set (fst p)" for k
  proof -
    have "k \<notin> sint ` set (fst q)" using that sub by blast
    then show ?thesis using pq qr that unfolding erased_to_def by simp
  qed
  show "snd r k = None" if "snd p k = None" for k using pq qr that by (simp add: erased_to_def)
qed

lemma visits_upd:
  "visits ((F(k \<mapsto> CT_ERASE_EXEC)) j) \<le> visits (F j)" "visits ((F(k := None)) j) \<le> visits (F j)"
  by (simp_all add: visits_def)

lemma step_marked: "marked p \<Longrightarrow> marked (erase_list_step p)"
  by (cases p rule: erase_list_step.cases) (auto simp: marked_def split: option.splits)

lemma step_erased_to:
  assumes "marked (x # xs, F)"
  shows "erased_to (x # xs, F) (erase_list_step (x # xs, F))
    \<and> visits_left (erase_list_step (x # xs, F)) < visits_left (x # xs, F)"
proof -
  consider "F (sint x) = None" | "F (sint x) = Some CT_ERASE_EXEC" | "F (sint x) = Some CT_ERASE_STATE"
    using assms by (auto simp: marked_def)
  then show ?thesis
  proof cases
    case 1
    then show ?thesis by (auto simp: erased_to_def visits_left_def visits_def)
  next
    case 2
    have "(\<Sum>y\<leftarrow>xs. visits ((F(sint x := None)) (sint y))) \<le> (\<Sum>y\<leftarrow>xs. visits (F (sint y)))"
      by (intro sum_list_mono visits_upd)
    with 2 show ?thesis by (auto simp: erased_to_def visits_left_def visits_def [of "Some CT_ERASE_EXEC"])
  next
    case 3
    have "(\<Sum>y\<leftarrow>xs. visits ((F(sint x \<mapsto> CT_ERASE_EXEC)) (sint y))) \<le> (\<Sum>y\<leftarrow>xs. visits (F (sint y)))"
      by (intro sum_list_mono visits_upd)
    with 3 show ?thesis
      by (auto simp: erased_to_def visits_left_def visits_def [of "Some CT_ERASE_EXEC"] visits_def [of "Some CT_ERASE_STATE"])
  qed
qed

lemma pass_erased_to:
  assumes "marked (l, F)"
  shows "marked (erase_pass i (l, F)) \<and> erased_to (l, F) (erase_pass i (l, F))
    \<and> (i < length l \<longrightarrow> visits_left (erase_pass i (l, F)) < visits_left (l, F))"
  using assms
proof (induction i "(l, F)" arbitrary: l F rule: erase_pass.induct)
  case (1 i l F)
  show ?case
  proof (cases "i < length l")
    case False
    then show ?thesis using 1(2) erased_to_refl by (simp add: erase_pass.simps [of i l])
  next
    case True
    then obtain x xs where l: "l = x # xs" by (cases l) auto
    obtain l' F' where st: "erase_list_step (l, F) = (l', F')" by (cases "erase_list_step (l, F)")
    have m: "marked (l', F')" using step_marked [OF 1(2)] st by simp
    have s: "erased_to (l, F) (l', F')" "visits_left (l', F') < visits_left (l, F)"
      using step_erased_to [of x xs F] 1(2) st l by auto
    have p: "erase_pass i (l, F) = erase_pass (Suc i) (l', F')" using True st by (simp add: erase_pass.simps [of i l])
    have "marked (erase_pass (Suc i) (l', F'))" "erased_to (l', F') (erase_pass (Suc i) (l', F'))"
      using 1(1) [OF True st m] by blast+
    then show ?thesis unfolding p using s erased_to_trans by (auto simp: erased_to_def [of "(l', F')"])
  qed
qed

lemma visits_left_zero: "visits_left p = 0 \<Longrightarrow> fst p = []"
  by (cases "fst p") (auto simp: visits_left_def visits_def split: if_splits)

lemma passes_erase_all:
  assumes "marked p" "visits_left p \<le> n"
  shows "fst ((erase_pass 0 ^^ n) p) = [] \<and> erased_to p ((erase_pass 0 ^^ n) p)"
  using assms
proof (induction n arbitrary: p)
  case 0
  then show ?case using visits_left_zero [of p] erased_to_refl by simp
next
  case (Suc n)
  obtain l F where p: "p = (l, F)" by (cases p)
  let ?p' = "erase_pass 0 p"
  have f: "marked ?p'" "erased_to p ?p'" "l \<noteq> [] \<Longrightarrow> visits_left ?p' < visits_left p"
    using pass_erased_to [of l F 0] Suc.prems(1) p by auto
  have "visits_left ?p' \<le> n"
  proof (cases "l = []")
    case True
    then show ?thesis using p by (simp add: erase_pass.simps visits_left_def)
  next
    case False
    then show ?thesis using f(3) Suc.prems(2) by simp
  qed
  then have "fst ((erase_pass 0 ^^ n) ?p') = [] \<and> erased_to ?p' ((erase_pass 0 ^^ n) ?p')"
    using Suc.IH f(1) by blast
  then show ?case using erased_to_trans [OF f(2)] by (simp add: funpow_Suc_right del: funpow.simps)
qed

lemma visits_left_le: "visits_left (l, F) \<le> 2 * length l"
  by (induction l) (auto simp: visits_left_def visits_def)

lemma first_pass:
  assumes "distinct ys" "\<forall>y \<in> set ys. F (sint y) = Some CT_ERASE_STATE"
  shows "erase_pass (length zs) (ys @ zs, F) =
    (zs @ ys, \<lambda>k. if k \<in> sint ` set ys then Some CT_ERASE_EXEC else F k)"
  using assms
proof (induction ys arbitrary: zs F)
  case Nil
  then show ?case by (simp add: erase_pass.simps)
next
  case (Cons y ys)
  let ?F = "F(sint y \<mapsto> CT_ERASE_EXEC)"
  have "\<forall>z \<in> set ys. ?F (sint z) = Some CT_ERASE_STATE"
    using Cons.prems by (auto dest: signed_word_eqI)
  then have "erase_pass (length (zs @ [y])) (ys @ (zs @ [y]), ?F) =
      ((zs @ [y]) @ ys, \<lambda>k. if k \<in> sint ` set ys then Some CT_ERASE_EXEC else ?F k)"
    using Cons.prems by (intro Cons.IH) auto
  then show ?case
    using Cons.prems by (simp add: erase_pass.simps [of "length zs"] fun_eq_iff)
qed

section \<open>Passes of the timer\<close>

lemma timer_passes:
  assumes "erase_ready s" "io_queue s = ops @ [Erase_Timer]"
  shows "\<exists>s'. client_run net (replicate n (length ops, Done [])) s = Inr s' \<and> erase_ready s'
    \<and> io_queue s' = ops @ [Erase_Timer] \<and> erase_abs s' = (erase_pass 0 ^^ n) (erase_abs s) \<and> erase_frame s s'"
  using assms
proof (induction n arbitrary: s)
  case 0
  then show ?case by (simp add: erase_frame_refl)
next
  case (Suc n)
  let ?s = "s\<lparr>io_queue := ops\<rparr>"
  have "erase_ready ?s" "erase_abs ?s = erase_abs s"
    using Suc.prems(1) slots_cong [of ?s s] by (simp_all add: erase_ready_def erase_abs_def)
  with erase_msg_timer_refines obtain s1 e where s1: "erase_msg_timer ?s = Inr (issue Erase_Timer (s1\<lparr>e_timer := e\<rparr>))"
      "erase_ready s1" "erase_abs s1 = erase_pass 0 (erase_abs s)" "erase_frame ?s s1" by metis
  let ?s1 = "issue Erase_Timer (s1\<lparr>e_timer := e\<rparr>)"
  have a1: "erase_ready ?s1" "erase_abs ?s1 = erase_abs s1"
    using s1(2) slots_cong [of ?s1 s1] by (simp_all add: erase_ready_def erase_abs_def issue_def)
  have q1: "io_queue ?s1 = ops @ [Erase_Timer]" using s1(4) by (simp add: issue_def erase_frame_def)
  have f1: "erase_frame s ?s1" using s1(4) Suc.prems(2) by (simp add: erase_frame_def issue_def)
  obtain s2 where s2: "client_run net (replicate n (length ops, Done [])) ?s1 = Inr s2" "erase_ready s2"
      "io_queue s2 = ops @ [Erase_Timer]" "erase_abs s2 = (erase_pass 0 ^^ n) (erase_abs ?s1)" "erase_frame ?s1 s2"
    using Suc.IH [OF a1(1) q1] by blast
  have "client_complete net (length ops) (Done []) s = Inr ?s1"
    using Suc.prems(2) s1(1) by (simp add: client_complete_def)
  then show ?case
    using s2 a1(2) s1(3) erase_frame_trans [OF f1 s2(5)]
    by (intro exI [of _ s2]) (simp add: funpow_Suc_right del: funpow.simps)
qed

lemma frame_lookup:
  assumes "erase_frame s s'" "slots_ok s" "slots_ok s'" "flag_of s' k = None \<longleftrightarrow> flag_of s k = None"
  shows "SafeMap_lookup (recv_msg_map s') k = SafeMap_lookup (recv_msg_map s) k"
proof -
  have "SafeMap_lookup (recv_msg_map s') k \<in> {None, SafeMap_lookup (recv_msg_map s) k}"
    using assms(1) unfolding erase_frame_def by blast
  then show ?thesis using assms(4) flag_of_None [OF assms(2)] flag_of_None [OF assms(3)] by auto
qed

section \<open>Properties\<close>

text \<open>C13: The clean-up completes: when every listed slot was marked by \<open>read\<close>, twice as many runs of
  \<open>erase_msg_timer\<close> as there are ids on the list empty the list and remove every listed slot from the
  receive map; slots that are not listed stay as they are, and the timer is armed again.\<close>

theorem cleanup_completes:
  assumes "erase_ready s" "marked (erase_abs s)" "io_queue s = ops @ [Erase_Timer]"
  shows "\<exists>s'. client_run net (replicate (2 * length (contents (del_reqid_list s))) (length ops, Done [])) s = Inr s'
    \<and> contents (del_reqid_list s') = [] \<and> io_queue s' = ops @ [Erase_Timer]
    \<and> (\<forall>k. SafeMap_lookup (recv_msg_map s') k =
          (if k \<in> sint ` set (contents (del_reqid_list s)) then None else SafeMap_lookup (recv_msg_map s) k))"
proof -
  let ?l = "contents (del_reqid_list s)" and ?n = "2 * length (contents (del_reqid_list s))"
  obtain s' where s': "client_run net (replicate ?n (length ops, Done [])) s = Inr s'" "erase_ready s'"
      "io_queue s' = ops @ [Erase_Timer]" "erase_abs s' = (erase_pass 0 ^^ ?n) (erase_abs s)" "erase_frame s s'"
    using timer_passes [OF assms(1,3)] by blast
  have "visits_left (erase_abs s) \<le> ?n" using visits_left_le by (simp add: erase_abs_def)
  from passes_erase_all [OF assms(2) this] have e: "fst (erase_abs s') = []" "erased_to (erase_abs s) (erase_abs s')"
    using s'(4) by simp_all
  have ok: "slots_ok s" "slots_ok s'" using assms(1) s'(2) by (simp_all add: erase_ready_def)
  have "SafeMap_lookup (recv_msg_map s') k = (if k \<in> sint ` set ?l then None else SafeMap_lookup (recv_msg_map s) k)" for k
  proof (cases "k \<in> sint ` set ?l")
    case True
    then have "flag_of s' k = None" using e by (auto simp: erased_to_def erase_abs_def)
    then show ?thesis using True flag_of_None [OF ok(2)] by simp
  next
    case False
    then have "flag_of s' k = flag_of s k" using e(2) by (auto simp: erased_to_def erase_abs_def)
    then show ?thesis using False frame_lookup [OF s'(5) ok] by simp
  qed
  moreover have "contents (del_reqid_list s') = []" using e(1) by (simp add: erase_abs_def)
  ultimately show ?thesis using s'(1,3) by blast
qed

text \<open>The clean-up has two phases: the first pass over slots that were just read removes none of
  them. It leaves the list and the receive map as they are and marks every listed slot for removal.\<close>

lemma first_pass_only_marks:
  assumes "erase_ready s" "distinct (contents (del_reqid_list s))"
    and "\<forall>x \<in> set (contents (del_reqid_list s)). flag_of s (sint x) = Some CT_ERASE_STATE"
  shows "\<exists>s'. erase_msg_timer s = Inr s' \<and> contents (del_reqid_list s') = contents (del_reqid_list s)
    \<and> SafeMap_lookup (recv_msg_map s') = SafeMap_lookup (recv_msg_map s)
    \<and> (\<forall>x \<in> set (contents (del_reqid_list s)). flag_of s' (sint x) = Some CT_ERASE_EXEC)"
proof -
  let ?l = "contents (del_reqid_list s)"
  obtain s1 e where s1: "erase_msg_timer s = Inr (issue Erase_Timer (s1\<lparr>e_timer := e\<rparr>))" "erase_ready s1"
      "erase_abs s1 = erase_pass 0 (erase_abs s)" "erase_frame s s1"
    using erase_msg_timer_refines [OF assms(1)] by blast
  let ?s' = "issue Erase_Timer (s1\<lparr>e_timer := e\<rparr>)"
  have ab: "contents (del_reqid_list s1) = ?l" "flag_of s1 = (\<lambda>k. if k \<in> sint ` set ?l then Some CT_ERASE_EXEC else flag_of s k)"
    using s1(3) first_pass [OF assms(2,3), of "[]"] by (simp_all add: erase_abs_def)
  have ok: "slots_ok s" "slots_ok s1" using assms(1) s1(2) by (simp_all add: erase_ready_def)
  have "SafeMap_lookup (recv_msg_map s1) k = SafeMap_lookup (recv_msg_map s) k" for k
    using ab(2) assms(3) by (intro frame_lookup [OF s1(4) ok]) auto
  moreover have "flag_of ?s' = flag_of s1" "recv_msg_map ?s' = recv_msg_map s1" "del_reqid_list ?s' = del_reqid_list s1"
    using slots_cong [of ?s' s1] by (simp_all add: issue_def)
  ultimately show ?thesis using s1(1) ab by (intro exI [of _ ?s']) (simp add: fun_eq_iff)
qed

text \<open>A client whose only request has been read, for the witnesses.\<close>

definition read_client :: client_loop where
  "read_client = waiting_client\<lparr>objs := [0 \<mapsto> (recv_slot 1)\<lparr>erase_flag := CT_ERASE_STATE\<rparr>],
     del_reqid_list := \<lparr>size_cnt = 1, head_ptr = Some 0, tail_ptr = Some 1,
       nodes = [0 \<mapsto> \<lparr>val = 0, next = Some 1\<rparr>, 1 \<mapsto> \<lparr>val = 1, next = None\<rparr>], brk = 2\<rparr>,
     io_queue := [Erase_Timer]\<rparr>"

lemma read_client_facts:
  "contents (del_reqid_list read_client) = [1]" "flag_of read_client 1 = Some CT_ERASE_STATE"
  "SafeMap_lookup (recv_msg_map read_client) 1 = Some (Some 0)" "io_queue read_client = [] @ [Erase_Timer]"
  "erase_ready read_client" "marked (erase_abs read_client)"
proof -
  show c: "contents (del_reqid_list read_client) = [1]"
    by (simp add: read_client_def contents_def numeral_2_eq_2)
  show f: "flag_of read_client 1 = Some CT_ERASE_STATE"
    by (simp add: flag_of_def read_client_def waiting_client_def SafeMap_lookup_def)
  show "SafeMap_lookup (recv_msg_map read_client) 1 = Some (Some 0)" "io_queue read_client = [] @ [Erase_Timer]"
    by (simp_all add: read_client_def waiting_client_def SafeMap_lookup_def)
  have "on_chain (del_reqid_list read_client) [0, 1]"
    by (auto simp: on_chain_def read_client_def)
  moreover have "slots_ok read_client"
    by (auto simp: slots_ok_def read_client_def waiting_client_def SafeMap_inv_def SafeMap_lookup_def stdmap_ok_def recv_slot_def
        split: if_splits)
  ultimately show "erase_ready read_client" using c by (auto simp: erase_ready_def SafeQueue_inv_def)
  show "marked (erase_abs read_client)" using c f by (simp add: marked_def erase_abs_def)
qed

theorem cleanup_completes_witness:
  "\<exists>s'. client_run net_ref (replicate 2 (0, Done [])) read_client = Inr s' \<and> contents (del_reqid_list s') = []
    \<and> SafeMap_lookup (recv_msg_map s') 1 = None"
  using cleanup_completes [OF read_client_facts(5,6,4), of net_ref] read_client_facts(1) by auto

end
