(* ===== verification/ClientRuns.thy ===== *)
theory ClientRuns
  imports ClientErase
begin

text \<open>
  Runs of the client of \<open>include/client_async_loop.h\<close>: completions of pending operations in any order,
  with or without errors, mixed with the caller's \<open>write\<close>, \<open>read\<close>, \<open>is_open\<close> and \<open>close\<close>. The invariant
  says that the receive map never holds a null or dangling pointer, that every slot is well-formed and
  carries the id it is filed under, and that no reader is ever left alone: a slot without a result has
  its timeout pending. A second invariant follows a slot nobody reads: it never leaves the map, so
  \<open>destroy\<close> waits for ever.
\<close>

section \<open>Steps\<close>

text \<open>
  How a pending operation may end. Reads deliver what was asked for; a timer wait fails only after
  \<open>cancel()\<close> was called on that timer; posted functions and service timers just run.
\<close>

fun client_completes :: "client_loop \<Rightarrow> client_op \<Rightarrow> completion \<Rightarrow> bool" where
  "client_completes s Op_Read_Head (Done bs) \<longleftrightarrow> length bs = size_t RPCStructHead_data_len"
| "client_completes s (Op_Read_Msg r n) (Done bs) \<longleftrightarrow> length bs = n"
| "client_completes s (Msg_Timer r) (Failed e) \<longleftrightarrow> e \<noteq> 0 \<and> (\<forall>m. objs s r = Some m \<longrightarrow> Cancel \<in> set (timer m))"
| "client_completes s op (Failed e) \<longleftrightarrow> e \<noteq> 0"
| "client_completes s op (Done bs) \<longleftrightarrow> bs = []"

text \<open>With \<open>reads\<close> false the caller never polls for a result.\<close>

inductive client_step :: "net \<Rightarrow> bool \<Rightarrow> client_loop res \<Rightarrow> client_loop res \<Rightarrow> bool" for net reads where
  io_event: "i < length (io_queue s) \<Longrightarrow> client_completes s (io_queue s ! i) c \<Longrightarrow>
     client_step net reads (Inr s) (client_complete net i c s)"
| user_write: "client_step net reads (Inr s) (rbind (client_write msg msgL timeout s) (\<lambda>(i, s'). Inr s'))"
| user_poll: "reads \<Longrightarrow> client_step net reads (Inr s) (rbind (client_read_poll r s) (\<lambda>(b, s'). Inr s'))"
| user_find: "client_step net reads (Inr s) (rbind (client_read_find reqid s) (\<lambda>(p, s'). Inr s'))"
| user_is_open: "client_step net reads (Inr s) (rbind (client_is_open net s) (\<lambda>(b, s'). Inr s'))"
| user_close: "client_step net reads (Inr s) (Inr (close s))"

inductive_cases client_stepE: "client_step net reads r r'"

definition client_begins :: "net \<Rightarrow> client_loop res \<Rightarrow> bool" where
  "client_begins net r \<longleftrightarrow> (\<exists>i p c. r = client_loop_new net i p c)"

section \<open>The invariant\<close>

definition slot_live :: "client_op list \<Rightarrow> nat \<Rightarrow> RPCStruct \<Rightarrow> bool" where
  "slot_live ops r m \<longleftrightarrow> read_done (status m) \<or> (Msg_Timer r \<in> set ops \<and> Cancel \<notin> set (timer m))"

definition client_inv :: "client_loop \<Rightarrow> bool" where
  "client_inv s \<longleftrightarrow> SafeMap_inv (recv_msg_map s) \<and> SafeQueue_inv (write_msg_queue s) \<and> SafeQueue_inv (del_reqid_list s)
     \<and> (\<forall>r \<ge> obj_next s. objs s r = None)
     \<and> (\<forall>k p. SafeMap_lookup (recv_msg_map s) k = Some p \<longrightarrow>
          (\<exists>r m. p = Some r \<and> objs s r = Some m \<and> sint (req_id (head_info m)) = k \<and> slot_ok m \<and> slot_live (io_queue s) r m))"

named_theorems client_frame \<open>operations that keep the client invariant\<close>

lemma inv_slotE:
  assumes "client_inv s" "SafeMap_lookup (recv_msg_map s) k = Some p"
  obtains r m where "p = Some r" "objs s r = Some m" "sint (req_id (head_info m)) = k" "slot_ok m" "slot_live (io_queue s) r m"
  using assms unfolding client_inv_def by blast

lemma inv_parts:
  assumes "client_inv s"
  shows "SafeMap_inv (recv_msg_map s)" "SafeQueue_inv (write_msg_queue s)" "SafeQueue_inv (del_reqid_list s)"
    "obj_next s \<le> r \<Longrightarrow> objs s r = None" "slots_ok s"
proof -
  show "slots_ok s" using assms unfolding client_inv_def slots_ok_def by blast
qed (use assms in \<open>auto simp: client_inv_def\<close>)

lemma slot_live_mono: "slot_live ops r m \<Longrightarrow> set ops \<subseteq> set ops' \<Longrightarrow> slot_live ops' r m"
  by (auto simp: slot_live_def)

text \<open>Fields the invariant does not mention may change, and operations may be added.\<close>

lemma client_inv_cong:
  assumes "client_inv s" "recv_msg_map s' = recv_msg_map s" "SafeQueue_inv (write_msg_queue s')"
    "SafeQueue_inv (del_reqid_list s')" "objs s' = objs s" "obj_next s' = obj_next s" "set (io_queue s) \<subseteq> set (io_queue s')"
  shows "client_inv s'"
  unfolding client_inv_def
proof (intro conjI allI impI)
  fix k p assume "SafeMap_lookup (recv_msg_map s') k = Some p"
  with assms(2) obtain r m where "p = Some r" "objs s r = Some m" "sint (req_id (head_info m)) = k" "slot_ok m" "slot_live (io_queue s) r m"
    using inv_slotE [OF assms(1)] by metis
  then show "\<exists>r m. p = Some r \<and> objs s' r = Some m \<and> sint (req_id (head_info m)) = k \<and> slot_ok m \<and> slot_live (io_queue s') r m"
    using assms(5) slot_live_mono [OF _ assms(7)] by auto
qed (use assms inv_parts [OF assms(1)] in auto)

text \<open>How an object may change: it keeps its id and its form, and a status that changes is a result.\<close>

definition evolves :: "RPCStruct \<Rightarrow> RPCStruct \<Rightarrow> bool" where
  "evolves m m' \<longleftrightarrow> req_id (head_info m') = req_id (head_info m) \<and> (slot_ok m \<longrightarrow> slot_ok m')
     \<and> (read_done (status m') \<or> status m' = status m \<and> timer m' = timer m)"

lemma evolves_refl: "evolves m m"
  by (simp add: evolves_def)

lemma slot_live_evolves: "slot_live ops r m \<Longrightarrow> evolves m m' \<Longrightarrow> slot_live ops r m'"
  by (auto simp: slot_live_def evolves_def)

lemma put_obj_inv:
  assumes "client_inv s" "objs s r = Some m" "evolves m m'"
  shows "client_inv (put_obj r m' s)"
  unfolding client_inv_def
proof (intro conjI allI impI)
  fix k p assume "SafeMap_lookup (recv_msg_map (put_obj r m' s)) k = Some p"
  then have "SafeMap_lookup (recv_msg_map s) k = Some p" by simp
  with assms(1) obtain r1 m1 where *: "p = Some r1" "objs s r1 = Some m1" "sint (req_id (head_info m1)) = k" "slot_ok m1"
      "slot_live (io_queue s) r1 m1" by (rule inv_slotE)
  show "\<exists>r1 m1. p = Some r1 \<and> objs (put_obj r m' s) r1 = Some m1 \<and> sint (req_id (head_info m1)) = k \<and> slot_ok m1
      \<and> slot_live (io_queue (put_obj r m' s)) r1 m1"
  proof (cases "r1 = r")
    case True
    then show ?thesis using * assms(2,3) slot_live_evolves [OF *(5)] by (auto simp: evolves_def)
  next
    case False
    then show ?thesis using * by auto
  qed
next
  fix q assume "obj_next (put_obj r m' s) \<le> q"
  then show "objs (put_obj r m' s) q = None" using inv_parts(4) [OF assms(1)] assms(2) by auto
qed (use inv_parts [OF assms(1)] in auto)

lemma new_obj_inv:
  assumes "client_inv s" "new_obj m s = (r, s')"
  shows "client_inv s'" "objs s' r = Some m" "r = obj_next s"
proof -
  show "objs s' r = Some m" "r = obj_next s" using assms(2) by (auto simp: new_obj_def)
  show "client_inv s'" unfolding client_inv_def
  proof (intro conjI allI impI)
    fix k p assume "SafeMap_lookup (recv_msg_map s') k = Some p"
    then have "SafeMap_lookup (recv_msg_map s) k = Some p" using assms(2) by (auto simp: new_obj_def)
    with assms(1) obtain r1 m1 where *: "p = Some r1" "objs s r1 = Some m1" "sint (req_id (head_info m1)) = k" "slot_ok m1"
        "slot_live (io_queue s) r1 m1" by (rule inv_slotE)
    have "r1 \<noteq> obj_next s" using * inv_parts(4) [OF assms(1), of r1] by auto
    then show "\<exists>r m. p = Some r \<and> objs s' r = Some m \<and> sint (req_id (head_info m)) = k \<and> slot_ok m \<and> slot_live (io_queue s') r m"
      using * assms(2) by (auto simp: new_obj_def)
  next
    fix q assume "obj_next s' \<le> q"
    then show "objs s' q = None" using inv_parts(4) [OF assms(1), of q] assms(2) by (auto simp: new_obj_def)
  qed (use inv_parts [OF assms(1)] assms(2) in \<open>auto simp: new_obj_def\<close>)
qed

section \<open>Objects\<close>

lemma new_data_fits:
  assumes wf: "msg_wf m" and nd: "new_data m = Inr m'"
  shows "head_fits m"
proof (rule ccontr)
  assume "\<not> head_fits m"
  then have big: "2 ^ 31 \<le> sint (body_offset m) + sint (body_size (head_info m))" by (simp add: head_fits_def)
  then have lt: "sint (pre_body_size m) < sint (body_size (head_info m))" using wf by (simp add: msg_wf_def)
  have "sint (body_offset m + body_size (head_info m)) < 0"
    using sint_add_overflow [OF big] sint_cint_bounds [of "body_offset m"] sint_cint_bounds [of "body_size (head_info m)"] by simp
  from size_t_neg [OF this] lt nd show False
    by (auto simp: new_data_def Let_def c_malloc_def c_realloc_def split: option.splits)
qed

lemma new_data_keeps:
  assumes "msg_wf m" "new_data m = Inr m'"
  shows "msg_wf m'" "head_info m' = head_info m" "body_offset m' = body_offset m" "status m' = status m"
    "timer m' = timer m" "erase_flag m' = erase_flag m"
proof -
  have fits: "head_fits m" using assms by (rule new_data_fits)
  have m': "m' = m\<lparr>pre_body_size := new_pre m, data_buf := Some (new_buf m)\<rparr>"
    using new_data_eq [OF assms(1) fits] assms(2) by simp
  show "msg_wf m'" using synced_wf [OF new_data_synced [OF assms(1) fits]] m' by simp
  show "head_info m' = head_info m" "body_offset m' = body_offset m" "status m' = status m"
    "timer m' = timer m" "erase_flag m' = erase_flag m" using m' by simp_all
qed

text \<open>On an object of any shape, \<open>new_data\<close> changes only the buffer and its size.\<close>

lemma new_data_fields:
  assumes "new_data m = Inr m'"
  shows "head_info m' = head_info m" "status m' = status m" "timer m' = timer m"
  using assms by (auto simp: new_data_def Let_def fault_simps split: option.splits if_splits)

lemma evolves_new_data: "new_data m = Inr m' \<Longrightarrow> evolves m m'"
  using new_data_keeps [of m m'] new_data_fields [of m m'] by (auto simp: evolves_def slot_ok_def)

lemma evolves_recv_buff: "RPCStruct_recv_msg_buff m = Inr (p, m') \<Longrightarrow> evolves m m'"
  by (auto simp: RPCStruct_recv_msg_buff_def fault_simps intro: evolves_new_data)

lemma evolves_body: "RPCStruct_body m = Inr (p, m') \<Longrightarrow> evolves m m'"
  by (auto simp: RPCStruct_body_def fault_simps intro: evolves_new_data)

lemma slot_ok_upd [simp]:
  "slot_ok (m\<lparr>erase_flag := f\<rparr>) = slot_ok m" "slot_ok (m\<lparr>head_info := h\<rparr>) = slot_ok m"
  "slot_ok (m\<lparr>status := v\<rparr>) = slot_ok m" "slot_ok (m\<lparr>timer := t\<rparr>) = slot_ok m"
  by (simp_all add: slot_ok_def msg_wf_def)

lemma evolves_set_status: "evolves m m' \<Longrightarrow> read_done v \<Longrightarrow> evolves m (RPCStruct_set_status m' v)"
  by (simp add: evolves_def RPCStruct_set_status_def do_close_timer_def)

lemma evolves_flag: "evolves m (m\<lparr>erase_flag := f\<rparr>)"
  by (simp add: evolves_def)

lemma evolves_store: "store_recv m bs = Inr m' \<Longrightarrow> evolves m m'"
proof -
  assume "store_recv m bs = Inr m'"
  then obtain buf buf' where "data_buf m = Some buf" "m' = m\<lparr>data_buf := Some buf'\<rparr>" "length buf' = length buf"
    by (auto simp: store_recv_def fault_simps dest: memcpy_length)
  then show ?thesis by (auto simp: evolves_def slot_ok_def msg_wf_def)
qed

lemma evolves_set_head:
  assumes "RPCStruct_set_head m hdr = Inr m'" "req_id hdr = req_id (head_info m)"
  shows "evolves m m'"
proof -
  have "evolves (m\<lparr>head_info := hdr\<rparr>) m'" using assms(1) unfolding RPCStruct_set_head_def by (rule evolves_new_data)
  then show ?thesis using assms(2) by (simp add: evolves_def)
qed

lemma evolves_trans: "evolves a b \<Longrightarrow> evolves b c \<Longrightarrow> evolves a c"
  by (auto simp: evolves_def)

section \<open>Every operation keeps the invariant\<close>

lemma issue_inv: "client_inv s \<Longrightarrow> client_inv (issue op s)"
  using client_inv_cong [of s "issue op s"] inv_parts [of s] by (auto simp: issue_def)

lemma socket_upd_inv: "client_inv s \<Longrightarrow> client_inv (s\<lparr>socket := h\<rparr>)"
  using client_inv_cong [of s "s\<lparr>socket := h\<rparr>"] inv_parts [of s] by auto

lemma status_upd_inv: "client_inv s \<Longrightarrow> client_inv (s\<lparr>clietn_status := v\<rparr>)"
  using client_inv_cong [of s "s\<lparr>clietn_status := v\<rparr>"] inv_parts [of s] by auto

lemma sock_async_inv: "client_inv s \<Longrightarrow> res_inv client_inv (sock_async c op s)"
  by (auto simp: sock_async_def fault_simps intro!: res_invI issue_inv socket_upd_inv)

lemma sock_call_inv: "client_inv s \<Longrightarrow> res_inv client_inv (sock_call net c s)"
  by (auto simp: sock_call_def fault_simps intro!: res_invI socket_upd_inv)

lemma do_connect_inv: "client_inv s \<Longrightarrow> res_inv client_inv (do_connect net s)"
  using sock_async_inv [OF status_upd_inv [of s CT_CONN]]
  by (auto simp: do_connect_def Let_def check_def)

lemma is_open_inv: "client_inv s \<Longrightarrow> res_inv (\<lambda>(b, s'). client_inv s') (client_is_open net s)"
  using do_connect_inv [of s net]
  by (auto simp: client_is_open_def Let_def fault_simps intro!: res_invI split: if_splits)

lemma do_close_inv: "client_inv s \<Longrightarrow> res_inv client_inv (do_close net s)"
  unfolding do_close_def Let_def
  by (auto intro!: res_inv_rbind [of client_inv] sock_call_inv status_upd_inv)

lemma do_read_head_inv: "client_inv s \<Longrightarrow> res_inv client_inv (do_read_head s)"
  unfolding do_read_head_def by (rule sock_async_inv)

lemma do_read_msg_inv: "client_inv s \<Longrightarrow> res_inv client_inv (do_read_msg r s)"
proof (rule res_invI)
  fix s' assume inv: "client_inv s" and "do_read_msg r s = Inr s'"
  then obtain m p m' n where m: "objs s r = Some m" "RPCStruct_recv_msg_buff m = Inr (p, m')"
      "sock_async (Sock_Read n) (Op_Read_Msg r n) (put_obj r m' s) = Inr s'"
    by (auto simp: do_read_msg_def obj_at_def Let_def fault_simps)
  have "client_inv (put_obj r m' s)" using inv m(1) evolves_recv_buff [OF m(2)] by (rule put_obj_inv)
  from res_invD [OF sock_async_inv [OF this] m(3)] show "client_inv s'" .
qed

lemma map_obj_inv:
  assumes inv: "client_inv s" and mo: "map_obj i s = Inr (r, m, s')"
  shows "s' = s" "SafeMap_lookup (recv_msg_map s) (sint i) = Some (Some r)" "objs s r = Some m" "req_id (head_info m) = i"
proof -
  have mi: "SafeMap_inv (recv_msg_map s)" using inv by (rule inv_parts)
  have "SafeMap_lookup (recv_msg_map s) (sint i) \<noteq> None"
  proof
    assume "SafeMap_lookup (recv_msg_map s) (sint i) = None"
    with sm.get_miss [OF mi, of "sint i" None] mo show False by (auto simp: map_obj_def obj_at_def)
  qed
  then obtain p where p: "SafeMap_lookup (recv_msg_map s) (sint i) = Some p" by blast
  with inv obtain r1 m1 where *: "p = Some r1" "objs s r1 = Some m1" "sint (req_id (head_info m1)) = sint i"
    by (rule inv_slotE)
  have "map_obj i s = Inr (r1, m1, s)" using map_obj_hit [OF mi] p * by simp
  with mo * p show "s' = s" "SafeMap_lookup (recv_msg_map s) (sint i) = Some (Some r)" "objs s r = Some m" "req_id (head_info m) = i"
    by (auto dest: signed_word_eqI)
qed

lemma handle_read_header_inv: "client_inv s \<Longrightarrow> res_inv client_inv (handle_read_header net hdr error s)"
  unfolding handle_read_header_def
proof (rule res_inv_rbind [OF is_open_inv], assumption, clarify)
  fix b s1 assume inv: "client_inv s1"
  have known: "res_inv client_inv (rbind (map_obj (req_id hdr) s1) (\<lambda>(r, m, s2).
      rbind (RPCStruct_set_head m hdr) (\<lambda>m'. rbind (map_obj (req_id hdr) (put_obj r m' s2)) (\<lambda>(r', _, s3). do_read_msg r' s3))))"
  proof (rule res_invI)
    fix s' assume "rbind (map_obj (req_id hdr) s1) (\<lambda>(r, m, s2).
      rbind (RPCStruct_set_head m hdr) (\<lambda>m'. rbind (map_obj (req_id hdr) (put_obj r m' s2)) (\<lambda>(r', _, s3). do_read_msg r' s3))) = Inr s'"
    then obtain r m s2 m' r' m2 s3 where *: "map_obj (req_id hdr) s1 = Inr (r, m, s2)" "RPCStruct_set_head m hdr = Inr m'"
        "map_obj (req_id hdr) (put_obj r m' s2) = Inr (r', m2, s3)" "do_read_msg r' s3 = Inr s'"
      by (auto simp: fault_simps)
    note a = map_obj_inv [OF inv *(1)]
    have "client_inv (put_obj r m' s1)" using put_obj_inv [OF inv a(3) evolves_set_head [OF *(2)]] a(4) by simp
    moreover from this have "s3 = put_obj r m' s1" using map_obj_inv(1) *(3) a(1) by blast
    ultimately show "client_inv s'" using do_read_msg_inv *(4) by (metis res_invD)
  qed
  have unknown: "res_inv client_inv (case new_obj (RPCStruct_ctor_head hdr default_pbs) s1 of (r, s2) \<Rightarrow> do_read_msg r s2)"
    using new_obj_inv(1) [OF inv] do_read_msg_inv by (auto split: prod.split)
  show "res_inv client_inv (if \<not> b then Inr s1 else if error = 0 then
      rbind (SafeMap_has (sint (req_id hdr)) (recv_msg_map s1)) (\<lambda>found. if found then
        rbind (map_obj (req_id hdr) s1) (\<lambda>(r, m, s2). rbind (RPCStruct_set_head m hdr) (\<lambda>m'.
          rbind (map_obj (req_id hdr) (put_obj r m' s2)) (\<lambda>(r', _, s3). do_read_msg r' s3)))
        else let (r, s2) = new_obj (RPCStruct_ctor_head hdr default_pbs) s1 in do_read_msg r s2)
      else do_close net s1)"
    using inv known unknown do_close_inv [OF inv] sm.has_law [OF inv_parts(1) [OF inv]] by (simp add: Let_def)
qed

lemma handle_read_msg_inv: "client_inv s \<Longrightarrow> res_inv client_inv (handle_read_msg net r error s)"
  unfolding handle_read_msg_def
proof (rule res_inv_rbind [OF is_open_inv], assumption, clarify)
  fix b s1 assume inv: "client_inv s1"
  have ok: "res_inv client_inv (rbind (obj_at s1 (Some r)) (\<lambda>(_, m). rbind (RPCStruct_body m) (\<lambda>(p, m1). rbind (cstr_at p) (\<lambda>_.
      let m2 = RPCStruct_set_status m1 CT_READ_OK in rbind (RPCStruct_showInfo m2) (\<lambda>_. do_read_head (put_obj r m2 s1))))))"
    (is "res_inv _ ?c")
  proof (rule res_invI)
    fix s' assume "?c = Inr s'"
    then obtain m p m1 where m: "objs s1 r = Some m" "RPCStruct_body m = Inr (p, m1)"
        "do_read_head (put_obj r (RPCStruct_set_status m1 CT_READ_OK) s1) = Inr s'"
      by (auto simp: obj_at_def fault_simps Let_def)
    have "client_inv (put_obj r (RPCStruct_set_status m1 CT_READ_OK) s1)"
      using put_obj_inv [OF inv m(1) evolves_set_status [OF evolves_body [OF m(2)]]] by simp
    from res_invD [OF do_read_head_inv [OF this] m(3)] show "client_inv s'" .
  qed
  have failed: "res_inv client_inv (rbind (obj_at s1 (Some r)) (\<lambda>(_, m). do_close net (put_obj r (RPCStruct_set_status m CT_ERROR) s1)))"
    (is "res_inv _ ?c")
  proof (rule res_invI)
    fix s' assume "?c = Inr s'"
    then obtain m where m: "objs s1 r = Some m" "do_close net (put_obj r (RPCStruct_set_status m CT_ERROR) s1) = Inr s'"
      by (auto simp: obj_at_def fault_simps)
    have "client_inv (put_obj r (RPCStruct_set_status m CT_ERROR) s1)"
      using put_obj_inv [OF inv m(1) evolves_set_status [OF evolves_refl]] by simp
    from res_invD [OF do_close_inv [OF this] m(2)] show "client_inv s'" .
  qed
  show "res_inv client_inv (if \<not> b then Inr s1 else if error = 0 then
      rbind (obj_at s1 (Some r)) (\<lambda>(_, m). rbind (RPCStruct_body m) (\<lambda>(p, m1). rbind (cstr_at p) (\<lambda>_.
        let m2 = RPCStruct_set_status m1 CT_READ_OK in rbind (RPCStruct_showInfo m2) (\<lambda>_. do_read_head (put_obj r m2 s1)))))
      else rbind (obj_at s1 (Some r)) (\<lambda>(_, m). do_close net (put_obj r (RPCStruct_set_status m CT_ERROR) s1)))"
    using inv ok failed by simp
qed

lemma send_obj_inv: "client_inv s \<Longrightarrow> res_inv client_inv (send_obj r s)"
proof (rule res_invI)
  fix s' assume inv: "client_inv s" and "send_obj r s = Inr s'"
  then obtain c op where "sock_async c op s = Inr s'" by (auto simp: send_obj_def obj_at_def fault_simps)
  from res_invD [OF sock_async_inv [OF inv] this] show "client_inv s'" .
qed

lemma write_queue_inv: "client_inv s \<Longrightarrow> SafeQueue_inv q \<Longrightarrow> client_inv (s\<lparr>write_msg_queue := q\<rparr>)"
  using client_inv_cong [of s "s\<lparr>write_msg_queue := q\<rparr>"] inv_parts [of s] by auto

lemma del_list_inv: "client_inv s \<Longrightarrow> SafeQueue_inv q \<Longrightarrow> client_inv (s\<lparr>del_reqid_list := q\<rparr>)"
  using client_inv_cong [of s "s\<lparr>del_reqid_list := q\<rparr>"] inv_parts [of s] by auto

lemma do_write_inv:
  assumes "client_inv s"
  shows "res_inv client_inv (do_write s)"
proof (rule res_invI)
  fix s' assume s': "do_write s = Inr s'"
  show "client_inv s'"
  proof (cases "clietn_status s = CT_CONN_OK \<and> SafeQueue_size (write_msg_queue s) \<noteq> 0")
    case False
    then have "s' = s" using s' by (auto simp: do_write_def split: if_splits)
    then show ?thesis using assms by simp
  next
    case True
    then obtain res q where q: "SafeQueue_pop (write_msg_queue s) = Inr (res, q)"
        "(case res of Some r \<Rightarrow> send_obj r (s\<lparr>write_msg_queue := q\<rparr>) | None \<Rightarrow> Inr (s\<lparr>write_msg_queue := q\<rparr>)) = Inr s'"
      using s' by (auto simp: do_write_def Let_def fault_simps)
    have inv: "client_inv (s\<lparr>write_msg_queue := q\<rparr>)"
      using assms sq.pop_Inr [OF inv_parts(2) [OF assms] q(1)] by (intro write_queue_inv) simp_all
    show ?thesis
    proof (cases res)
      case None
      then show ?thesis using q(2) inv by simp
    next
      case (Some r)
      then show ?thesis using q(2) res_invD [OF send_obj_inv [OF inv]] by auto
    qed
  qed
qed

lemma do_write_msg_inv: "client_inv s \<Longrightarrow> res_inv client_inv (do_write_msg p s)"
  using send_obj_inv [of s] by (cases p) (auto simp: do_write_msg_def)

lemma handle_write_inv: "client_inv s \<Longrightarrow> res_inv client_inv (handle_write net error s)"
  unfolding handle_write_def
  by (rule res_inv_rbind [OF is_open_inv]) (auto simp: do_write_inv do_close_inv)

lemma erase_step_inv:
  assumes "client_inv s"
  shows "res_inv client_inv (erase_step s)"
proof (rule res_invI)
  fix s' assume s': "erase_step s = Inr s'"
  have "contents (del_reqid_list s) \<noteq> []"
    using s' sq.pop_empty [OF inv_parts(3) [OF assms]] by (auto simp: erase_step_def)
  then obtain x xs where "contents (del_reqid_list s) = x # xs" by (cases "contents (del_reqid_list s)") auto
  from erase_step_refines [OF inv_parts(5) [OF assms] inv_parts(3) [OF assms] this] s'
  have ok: "slots_ok s'" "SafeQueue_inv (del_reqid_list s')" and fr: "erase_frame s s'" by auto
  show "client_inv s'" unfolding client_inv_def
  proof (intro conjI allI impI)
    fix k p assume l': "SafeMap_lookup (recv_msg_map s') k = Some p"
    have "SafeMap_lookup (recv_msg_map s') k \<in> {None, SafeMap_lookup (recv_msg_map s) k}"
      using fr unfolding erase_frame_def by blast
    then have "SafeMap_lookup (recv_msg_map s) k = Some p" using l' by simp
    with assms obtain r m where *: "p = Some r" "objs s r = Some m" "sint (req_id (head_info m)) = k" "slot_ok m"
        "slot_live (io_queue s) r m" by (rule inv_slotE)
    then obtain f where "objs s' r = Some (m\<lparr>erase_flag := f\<rparr>)" using fr unfolding erase_frame_def by blast
    moreover have "io_queue s' = io_queue s" using fr by (simp add: erase_frame_def)
    ultimately show "\<exists>r m. p = Some r \<and> objs s' r = Some m \<and> sint (req_id (head_info m)) = k \<and> slot_ok m
        \<and> slot_live (io_queue s') r m"
      using * slot_live_evolves [OF *(5) evolves_flag] by (intro exI [of _ r]) simp
  next
    fix r assume "obj_next s' \<le> r"
    then have "objs s r = None" using inv_parts(4) [OF assms] fr by (simp add: erase_frame_def)
    then have "r \<notin> dom (objs s')" using fr by (simp add: erase_frame_def domIff)
    then show "objs s' r = None" by (simp add: domIff)
  qed (use ok fr inv_parts [OF assms] in \<open>auto simp: slots_ok_def erase_frame_def\<close>)
qed

lemma erase_loop_inv: "client_inv s \<Longrightarrow> res_inv client_inv (erase_loop i s)"
proof (induction i s rule: erase_loop.induct)
  case (1 i s)
  then show ?case
    using res_inv_rbind [OF erase_step_inv [OF 1(2)], of client_inv "erase_loop (Suc i)"]
    by (subst erase_loop.simps) simp
qed

lemma timer_upd_inv:
  "client_inv s \<Longrightarrow> client_inv (s\<lparr>e_timer := e\<rparr>)" "client_inv s \<Longrightarrow> client_inv (s\<lparr>l_timer := l\<rparr>)"
  using client_inv_cong [of s "s\<lparr>e_timer := e\<rparr>"] client_inv_cong [of s "s\<lparr>l_timer := l\<rparr>"] inv_parts [of s] by auto

lemma erase_msg_timer_inv: "client_inv s \<Longrightarrow> res_inv client_inv (erase_msg_timer s)"
  unfolding erase_msg_timer_def
  by (rule res_inv_rbind [OF erase_loop_inv]) (auto intro: issue_inv timer_upd_inv)

lemma log_timer_inv: "client_inv s \<Longrightarrow> client_inv (log_timer s)"
  by (simp add: log_timer_def issue_inv timer_upd_inv)

lemma handle_connect_inv: "client_inv s \<Longrightarrow> res_inv client_inv (handle_connect error s)"
  unfolding handle_connect_def reset_socket_def
  by (auto intro!: res_inv_rbind [OF do_read_head_inv] status_upd_inv socket_upd_inv erase_msg_timer_inv)

lemma read_poll_inv: "client_inv s \<Longrightarrow> res_inv (\<lambda>(b, s'). client_inv s') (client_read_poll r s)"
proof (rule res_invI, clarify)
  fix b s' assume inv: "client_inv s" and p: "client_read_poll r s = Inr (b, s')"
  then obtain m where m: "objs s r = Some m" by (auto simp: client_read_poll_def obj_at_def fault_simps)
  let ?s1 = "put_obj r (m\<lparr>erase_flag := CT_ERASE_STATE\<rparr>) s"
  have i1: "client_inv ?s1" using inv m evolves_flag by (rule put_obj_inv)
  show "client_inv s'"
  proof (cases "read_done (RPCStruct_get_status m)")
    case True
    then obtain q where "SafeQueue_push (req_id (head_info m)) (del_reqid_list ?s1) = Inr q" "s' = ?s1\<lparr>del_reqid_list := q\<rparr>"
      using p m by (auto simp: client_read_poll_def obj_at_def fault_simps Let_def)
    then show ?thesis using i1 sq.push_Inr [OF inv_parts(3) [OF i1]] by (metis del_list_inv)
  next
    case False
    then show ?thesis using p m inv by (simp add: client_read_poll_def obj_at_def)
  qed
qed

lemma read_find_inv: "client_inv s \<Longrightarrow> res_inv (\<lambda>(p, s'). client_inv s') (client_read_find reqid s)"
proof (rule res_invI, clarify)
  fix p s' assume inv: "client_inv s" and f: "client_read_find reqid s = Inr (p, s')"
  show "client_inv s'"
    using f inv map_obj_inv(1) [OF inv]
    by (auto simp: client_read_find_def fault_simps split: if_splits)
qed

text \<open>\<open>write\<close>, on any message: the outgoing object and the slot are new, the slot's timer is running.\<close>

lemma slot_timer_started:
  "req_id (head_info (do_init_timer (recv_slot i) t)) = i" "slot_ok (do_init_timer (recv_slot i) t)"
  "Cancel \<notin> set (timer (do_init_timer (recv_slot i) t))"
proof -
  show "slot_ok (do_init_timer (recv_slot i) t)" using slot_ok_recv_slot [of i] by (simp add: do_init_timer_def)
qed (simp_all add: do_init_timer_def recv_slot_def RPCStruct_ctor_def RPCStruct_ctor_head_def Let_def)

lemma newMsgBuf_Inr:
  assumes inv: "client_inv s" and nb: "newMsgBuf msg msgL timeout s = Inr (res, s')"
  obtains q mp m' where "SafeQueue_inv q" "SafeMap_inv mp"
    "SafeMap_lookup mp = (SafeMap_lookup (recv_msg_map s))(sint (msg_index s) \<mapsto> Some (Suc (obj_next s)))"
    "recv_msg_map s' = mp" "write_msg_queue s' = q" "obj_next s' = obj_next s + 2" "del_reqid_list s' = del_reqid_list s"
    "objs s' = (objs s)(obj_next s \<mapsto> m', Suc (obj_next s) \<mapsto> do_init_timer (recv_slot (msg_index s)) timeout)"
    "io_queue s' = io_queue s @ [Msg_Timer (Suc (obj_next s))]"
proof -
  note ip = inv_parts [OF inv]
  obtain m where m: "build_msg (msg_index s) msg msgL = Inr m"
    using nb by (cases "build_msg (msg_index s) msg msgL") (auto simp: newMsgBuf_def)
  obtain q' where "SafeQueue_push (Some (obj_next s)) (write_msg_queue s) = Inr q'" using sq.pushE [OF ip(2)] by metis
  then obtain p m' str where b: "RPCStruct_body m = Inr (p, m')" "cstr_at p = Inr str"
    using nb m by (auto simp: newMsgBuf_def Let_def new_obj_def put_obj_def fault_simps split: if_splits)
  show thesis
  proof (rule newMsgBuf_state [OF ip(1,2) m b, of timeout])
    fix q mp
    assume *: "SafeQueue_inv q" "SafeMap_inv mp"
      "SafeMap_lookup mp = (SafeMap_lookup (recv_msg_map s))(sint (msg_index s) \<mapsto> Some (Suc (obj_next s)))"
      "newMsgBuf msg msgL timeout s = Inr (obj_next s,
       s\<lparr>msg_index := msg_index s + 1, obj_next := obj_next s + 2, recv_msg_map := mp, write_msg_queue := q,
         objs := (objs s)(obj_next s \<mapsto> m', Suc (obj_next s) \<mapsto> do_init_timer (recv_slot (msg_index s)) timeout),
         io_queue := io_queue s @ [Msg_Timer (Suc (obj_next s))]\<rparr>)"
    show thesis by (rule that [OF *(1-3), of m']) (use nb *(4) in auto)
  qed
qed

lemma newMsgBuf_inv:
  assumes inv: "client_inv s" and nb: "newMsgBuf msg msgL timeout s = Inr (res, s')"
  shows "client_inv s'"
proof -
  note ip = inv_parts [OF inv]
  let ?i = "msg_index s" and ?v = "Suc (obj_next s)" and ?t = "do_init_timer (recv_slot (msg_index s)) timeout"
  obtain q mp m' where *: "SafeQueue_inv q" "SafeMap_inv mp"
      "SafeMap_lookup mp = (SafeMap_lookup (recv_msg_map s))(sint ?i \<mapsto> Some ?v)"
    and s': "recv_msg_map s' = mp" "write_msg_queue s' = q" "obj_next s' = obj_next s + 2" "del_reqid_list s' = del_reqid_list s"
      "objs s' = (objs s)(obj_next s \<mapsto> m', ?v \<mapsto> ?t)" "io_queue s' = io_queue s @ [Msg_Timer ?v]"
    using inv nb by (rule newMsgBuf_Inr)
  show ?thesis unfolding client_inv_def
  proof (intro conjI allI impI)
    fix k p assume l: "SafeMap_lookup (recv_msg_map s') k = Some p"
    show "\<exists>r m. p = Some r \<and> objs s' r = Some m \<and> sint (req_id (head_info m)) = k \<and> slot_ok m \<and> slot_live (io_queue s') r m"
    proof (cases "k = sint ?i")
      case True
      then show ?thesis using l s' *(3) slot_timer_started [of ?i timeout] by (auto simp: slot_live_def)
    next
      case False
      then have "SafeMap_lookup (recv_msg_map s) k = Some p" using l s'(1) *(3) by simp
      with inv obtain r1 m1 where r1: "p = Some r1" "objs s r1 = Some m1" "sint (req_id (head_info m1)) = k" "slot_ok m1"
          "slot_live (io_queue s) r1 m1" by (rule inv_slotE)
      have "r1 \<noteq> obj_next s" "r1 \<noteq> ?v" using r1(2) ip(4) [of r1] by auto
      then show ?thesis using r1 s'(5,6) slot_live_mono [OF r1(5), of "io_queue s'"] by auto
    qed
  next
    fix r assume "obj_next s' \<le> r"
    then show "objs s' r = None" using ip(4) [of r] s' by auto
  qed (use ip * s' in auto)
qed

lemma client_write_inv: "client_inv s \<Longrightarrow> res_inv (\<lambda>(i, s'). client_inv s') (client_write msg msgL timeout s)"
proof (rule res_invI, clarify)
  fix i s' assume inv: "client_inv s" and "client_write msg msgL timeout s = Inr (i, s')"
  then obtain r s1 op where "newMsgBuf msg msgL timeout s = Inr (r, s1)" "s' = issue op s1"
    by (auto simp: client_write_def fault_simps Let_def)
  then show "client_inv s'" using newMsgBuf_inv [OF inv] issue_inv by blast
qed

section \<open>Completions and runs\<close>

lemma mem_without_nth:
  "x \<in> set xs \<Longrightarrow> xs ! i \<noteq> x \<Longrightarrow> x \<in> set (take i xs @ drop (Suc i) xs)"
proof (cases "i < length xs")
  case True
  assume x: "x \<in> set xs" "xs ! i \<noteq> x"
  have "xs = take i xs @ xs ! i # drop (Suc i) xs" using True by (rule id_take_nth_drop)
  then have "x \<in> set (take i xs @ xs ! i # drop (Suc i) xs)" using x(1) by simp
  then show ?thesis using x(2) by auto
qed simp

lemma remove_op_inv:
  assumes inv: "client_inv s" and op: "\<And>r. io_queue s ! i \<noteq> Msg_Timer r"
  shows "client_inv (s\<lparr>io_queue := take i (io_queue s) @ drop (Suc i) (io_queue s)\<rparr>)" (is "client_inv ?s")
  unfolding client_inv_def
proof (intro conjI allI impI)
  fix k p assume "SafeMap_lookup (recv_msg_map ?s) k = Some p"
  then have "SafeMap_lookup (recv_msg_map s) k = Some p" by simp
  with inv obtain r m where "p = Some r" "objs s r = Some m" "sint (req_id (head_info m)) = k" "slot_ok m" "slot_live (io_queue s) r m"
    by (rule inv_slotE)
  then show "\<exists>r m. p = Some r \<and> objs ?s r = Some m \<and> sint (req_id (head_info m)) = k \<and> slot_ok m \<and> slot_live (io_queue ?s) r m"
    using mem_without_nth [OF _ op, of r] by (auto simp: slot_live_def)
qed (use inv_parts [OF inv] in auto)

lemma timeout_status:
  "status (set_timeout m 0) = CT_TIMEOUT" "e \<noteq> 0 \<Longrightarrow> set_timeout m e = m"
  "req_id (head_info (set_timeout m e)) = req_id (head_info m)" "slot_ok (set_timeout m e) = slot_ok m"
  by (simp_all add: set_timeout_def RPCStruct_set_status_def do_close_timer_def)

text \<open>The end of a timeout wait: on expiry the slot has a result, and a cancelled wait belongs to a slot
  that already has one.\<close>

lemma msg_timer_inv:
  assumes inv: "client_inv s" and op: "io_queue s ! i = Msg_Timer r" and m: "objs s r = Some m"
    and e: "e \<noteq> 0 \<Longrightarrow> Cancel \<in> set (timer m)"
  shows "client_inv (put_obj r (set_timeout m e) (s\<lparr>io_queue := take i (io_queue s) @ drop (Suc i) (io_queue s)\<rparr>))" (is "client_inv ?s")
  unfolding client_inv_def
proof (intro conjI allI impI)
  fix k p assume "SafeMap_lookup (recv_msg_map ?s) k = Some p"
  then have "SafeMap_lookup (recv_msg_map s) k = Some p" by simp
  with inv obtain r1 m1 where *: "p = Some r1" "objs s r1 = Some m1" "sint (req_id (head_info m1)) = k" "slot_ok m1" "slot_live (io_queue s) r1 m1"
    by (rule inv_slotE)
  show "\<exists>r m. p = Some r \<and> objs ?s r = Some m \<and> sint (req_id (head_info m)) = k \<and> slot_ok m \<and> slot_live (io_queue ?s) r m"
  proof (cases "r1 = r")
    case True
    have "slot_live (io_queue ?s) r (set_timeout m e)"
    proof (cases "e = 0")
      case False
      then show ?thesis using e *(2,5) m True timeout_status(2) by (auto simp: slot_live_def)
    qed (simp add: slot_live_def timeout_status)
    then show ?thesis using True * m timeout_status by (intro exI [of _ r] exI [of _ "set_timeout m e"]) auto
  next
    case False
    then have "Msg_Timer r1 \<in> set (io_queue s) \<Longrightarrow> Msg_Timer r1 \<in> set (io_queue ?s)"
      using mem_without_nth [of "Msg_Timer r1" "io_queue s" i] op by simp
    then show ?thesis using * False by (intro exI [of _ r1] exI [of _ m1]) (auto simp: slot_live_def)
  qed
next
  fix q assume "obj_next ?s \<le> q"
  then show "objs ?s q = None" using inv_parts(4) [OF inv] m by auto
qed (use inv_parts [OF inv] in auto)

lemma delivered_upd_inv: "client_inv s \<Longrightarrow> client_inv (s\<lparr>delivered := d\<rparr>)"
  using client_inv_cong [of s "s\<lparr>delivered := d\<rparr>"] inv_parts [of s] by auto

lemmas op_invs = handle_connect_inv handle_read_header_inv handle_read_msg_inv handle_write_inv do_write_inv
  do_write_msg_inv do_close_inv erase_msg_timer_inv log_timer_inv delivered_upd_inv

lemma handler_inv:
  assumes inv: "client_inv s" and op: "\<And>r. op \<noteq> Msg_Timer r"
  shows "res_inv client_inv (client_handler net op c s)"
proof (cases "(net, op, c, s)" rule: client_handler.cases)
  case (3 net' bs s0)
  then show ?thesis using inv handle_read_header_inv by (cases "RPCStructHead_of_data bs") auto
next
  case (5 net' r n bs s0)
  show ?thesis
  proof (rule res_invI)
    fix s' assume "client_handler net op c s = Inr s'"
    with 5 obtain m m' where *: "objs s r = Some m" "store_recv m bs = Inr m'" "handle_read_msg net r 0 (put_obj r m' s) = Inr s'"
      by (auto simp: obj_at_def fault_simps)
    have "client_inv (put_obj r m' s)" using inv *(1) evolves_store [OF *(2)] by (rule put_obj_inv)
    from res_invD [OF handle_read_msg_inv [OF this] *(3)] show "client_inv s'" .
  qed
qed (use inv op op_invs in auto)

lemma complete_inv:
  assumes inv: "client_inv s" and i: "i < length (io_queue s)" "client_completes s (io_queue s ! i) c"
  shows "res_inv client_inv (client_complete net i c s)"
proof (cases "\<exists>r. io_queue s ! i = Msg_Timer r")
  case False
  then show ?thesis using i(1) handler_inv [OF remove_op_inv [OF inv], of i "io_queue s ! i" net c] by (simp add: client_complete_def)
next
  case True
  then obtain r where r: "io_queue s ! i = Msg_Timer r" by blast
  show ?thesis
  proof (rule res_invI)
    fix s' assume s': "client_complete net i c s = Inr s'"
    define e where "e = (case c of Done bs \<Rightarrow> 0 | Failed e \<Rightarrow> e)"
    obtain m where m: "objs s r = Some m" and
      s'': "s' = put_obj r (set_timeout m e) (s\<lparr>io_queue := take i (io_queue s) @ drop (Suc i) (io_queue s)\<rparr>)"
      using s' i(1) r by (cases c) (auto simp: client_complete_def obj_at_def fault_simps e_def)
    have "e \<noteq> 0 \<Longrightarrow> Cancel \<in> set (timer m)" using i(2) r m by (cases c) (auto simp: e_def)
    then show "client_inv s'" unfolding s'' by (rule msg_timer_inv [OF inv r m])
  qed
qed

lemma res_inv_snd: "res_inv (\<lambda>(b, s'). P s') m \<Longrightarrow> res_inv P (rbind m (\<lambda>(b, s'). Inr s'))"
  by (cases m) auto

lemma client_step_inv: "client_step net reads r r' \<Longrightarrow> res_inv client_inv r \<Longrightarrow> res_inv client_inv r'"
  by (induction rule: client_step.induct)
    (auto intro!: res_inv_snd complete_inv client_write_inv read_poll_inv read_find_inv is_open_inv issue_inv simp: close_def)

lemma client_new_inv: "client_begins net r \<Longrightarrow> res_inv client_inv r"
proof -
  assume "client_begins net r"
  then obtain i p c where r: "r = rbind (do_connect net (init_socket (client_loop_init i p c))) (\<lambda>s. Inr (log_timer s))"
    by (auto simp: client_begins_def client_loop_new_def)
  let ?s = "init_socket (client_loop_init i p c)"
  have f: "SafeMap_inv (recv_msg_map ?s)" "SafeQueue_inv (write_msg_queue ?s)" "SafeQueue_inv (del_reqid_list ?s)"
    using init_client_inv [of i p c] by (simp_all add: init_socket_def)
  have g: "objs ?s = Map.empty" "SafeMap_lookup (recv_msg_map ?s) = Map.empty"
    by (simp_all add: init_socket_def client_loop_init_def SafeMap_lookup_def SafeMap_new_def)
  have "client_inv ?s" unfolding client_inv_def using f g by simp
  then have "res_inv client_inv (do_connect net ?s)" by (rule do_connect_inv)
  then show ?thesis unfolding r by (rule res_inv_rbind) (simp add: log_timer_inv)
qed

interpretation client_runs: inductive_invariant "client_begins net" "client_step net reads" "res_inv client_inv"
  for net reads
  by unfold_locales (auto intro: client_new_inv client_step_inv)

section \<open>Slots nobody reads\<close>

definition unread :: "int \<Rightarrow> client_loop \<Rightarrow> bool" where
  "unread k s \<longleftrightarrow> SafeMap_lookup (recv_msg_map s) k \<noteq> None \<and> k \<notin> sint ` set (contents (del_reqid_list s))"

text \<open>Most operations leave the receive map and the clean-up list alone.\<close>

definition keeps_maps :: "client_loop \<Rightarrow> client_loop \<Rightarrow> bool" where
  "keeps_maps s s' \<longleftrightarrow> recv_msg_map s' = recv_msg_map s \<and> del_reqid_list s' = del_reqid_list s"

lemma keeps_unread: "keeps_maps s s' \<Longrightarrow> unread k s \<Longrightarrow> unread k s'"
  by (simp add: keeps_maps_def unread_def)

lemma sock_async_keeps: "sock_async c op s = Inr s' \<Longrightarrow> keeps_maps s s'"
  by (auto simp: sock_async_def fault_simps keeps_maps_def issue_def)

lemma sock_call_keeps: "sock_call net c s = Inr s' \<Longrightarrow> keeps_maps s s'"
  by (auto simp: sock_call_def fault_simps keeps_maps_def)

lemma do_connect_keeps: "do_connect net s = Inr s' \<Longrightarrow> keeps_maps s s'"
  by (auto simp: do_connect_def Let_def fault_simps keeps_maps_def dest!: sock_async_keeps split: if_splits)

lemma is_open_keeps: "client_is_open net s = Inr (b, s') \<Longrightarrow> keeps_maps s s'"
  by (auto simp: client_is_open_def Let_def fault_simps keeps_maps_def dest!: do_connect_keeps split: if_splits)

lemma do_close_keeps: "do_close net s = Inr s' \<Longrightarrow> keeps_maps s s'"
  by (auto simp: do_close_def Let_def fault_simps keeps_maps_def dest!: sock_call_keeps split: if_splits)

lemma do_read_head_keeps: "do_read_head s = Inr s' \<Longrightarrow> keeps_maps s s'"
  unfolding do_read_head_def by (rule sock_async_keeps)

lemma do_read_msg_keeps: "do_read_msg r s = Inr s' \<Longrightarrow> keeps_maps s s'"
  by (auto simp: do_read_msg_def Let_def fault_simps keeps_maps_def dest!: sock_async_keeps)

lemma send_obj_keeps: "send_obj r s = Inr s' \<Longrightarrow> keeps_maps s s'"
  by (auto simp: send_obj_def fault_simps dest!: sock_async_keeps)

lemma do_write_keeps: "do_write s = Inr s' \<Longrightarrow> keeps_maps s s'"
  by (auto simp: do_write_def Let_def fault_simps keeps_maps_def dest!: send_obj_keeps split: if_splits option.splits)

lemma do_write_msg_keeps: "do_write_msg p s = Inr s' \<Longrightarrow> keeps_maps s s'"
  by (auto simp: do_write_msg_def keeps_maps_def dest!: send_obj_keeps split: if_splits option.splits)

lemma handle_write_keeps: "handle_write net e s = Inr s' \<Longrightarrow> keeps_maps s s'"
  by (auto simp: handle_write_def fault_simps keeps_maps_def dest!: is_open_keeps do_write_keeps do_close_keeps split: if_splits)

lemma handle_read_msg_keeps: "handle_read_msg net r e s = Inr s' \<Longrightarrow> keeps_maps s s'"
  by (auto simp: handle_read_msg_def fault_simps Let_def keeps_maps_def dest!: is_open_keeps do_read_head_keeps do_close_keeps
      split: if_splits)

lemma handle_read_header_keeps:
  assumes inv: "client_inv s" and h: "handle_read_header net hdr e s = Inr s'"
  shows "keeps_maps s s'"
proof -
  obtain b s1 where o1: "client_is_open net s = Inr (b, s1)"
    using h by (auto simp: handle_read_header_def fault_simps)
  have i1: "client_inv s1" using res_invD [OF is_open_inv [OF inv] o1] by simp
  have k1: "keeps_maps s s1" using o1 by (rule is_open_keeps)
  have has: "SafeMap_has (sint (req_id hdr)) (recv_msg_map s1) = Inr (SafeMap_lookup (recv_msg_map s1) (sint (req_id hdr)) \<noteq> None)"
    by (rule sm.has_law [OF inv_parts(1) [OF i1]])
  have "keeps_maps s1 s'"
  proof (cases "b \<and> e = 0")
    case False
    then have "s' = s1 \<or> do_close net s1 = Inr s'" using h o1 by (auto simp: handle_read_header_def split: if_splits)
    then show ?thesis using do_close_keeps by (auto simp: keeps_maps_def)
  next
    case True
    show ?thesis
    proof (cases "SafeMap_lookup (recv_msg_map s1) (sint (req_id hdr)) = None")
      case unknown: True
      obtain r s2 where n: "new_obj (RPCStruct_ctor_head hdr default_pbs) s1 = (r, s2)" by fastforce
      then have "do_read_msg r s2 = Inr s'" using h o1 has True unknown by (simp add: handle_read_header_def)
      from do_read_msg_keeps [OF this] n show ?thesis by (auto simp: keeps_maps_def new_obj_def)
    next
      case known: False
      then have "rbind (map_obj (req_id hdr) s1) (\<lambda>(r, m, s2). rbind (RPCStruct_set_head m hdr) (\<lambda>m'.
          rbind (map_obj (req_id hdr) (put_obj r m' s2)) (\<lambda>(r', _, s3). do_read_msg r' s3))) = Inr s'"
        using h o1 has True by (simp add: handle_read_header_def)
      then obtain r m s2 m' r' m2 s3 where *: "map_obj (req_id hdr) s1 = Inr (r, m, s2)" "RPCStruct_set_head m hdr = Inr m'"
          "map_obj (req_id hdr) (put_obj r m' s2) = Inr (r', m2, s3)" "do_read_msg r' s3 = Inr s'"
        by (auto simp: fault_simps)
      note a = map_obj_inv [OF i1 *(1)]
      have "client_inv (put_obj r m' s1)" using put_obj_inv [OF i1 a(3) evolves_set_head [OF *(2)]] a(4) by simp
      then have "s3 = put_obj r m' s1" using map_obj_inv(1) *(3) a(1) by blast
      then show ?thesis using do_read_msg_keeps [OF *(4)] by (simp add: keeps_maps_def)
    qed
  qed
  with k1 show ?thesis by (simp add: keeps_maps_def)
qed

lemma erase_step_unread:
  assumes inv: "client_inv s" and u: "unread k s" and e: "erase_step s = Inr s'"
  shows "unread k s'"
proof -
  have "contents (del_reqid_list s) \<noteq> []"
    using e sq.pop_empty [OF inv_parts(3) [OF inv]] by (auto simp: erase_step_def)
  then obtain x xs where l: "contents (del_reqid_list s) = x # xs" by (cases "contents (del_reqid_list s)") auto
  have ab: "slots_ok s'" "erase_abs s' = erase_list_step (erase_abs s)"
    using erase_step_refines [OF inv_parts(5) [OF inv] inv_parts(3) [OF inv] l] e by auto
  have "k \<noteq> sint x" using u l by (auto simp: unread_def)
  then have "set (contents (del_reqid_list s')) \<subseteq> set (contents (del_reqid_list s))" and f: "flag_of s' k = flag_of s k"
    using ab(2) l by (auto simp: erase_abs_def split: option.splits if_splits)
  moreover have "SafeMap_lookup (recv_msg_map s') k \<noteq> None"
    using u f flag_of_None [OF ab(1), of k] flag_of_None [OF inv_parts(5) [OF inv], of k] by (auto simp: unread_def)
  ultimately show ?thesis using u unfolding unread_def by blast
qed

lemma erase_loop_unread: "client_inv s \<Longrightarrow> unread k s \<Longrightarrow> erase_loop i s = Inr s' \<Longrightarrow> unread k s'"
proof (induction i s rule: erase_loop.induct)
  case (1 i s)
  show ?case
  proof (cases "int i < sint (SafeQueue_size (del_reqid_list s))")
    case True
    then obtain s1 where s1: "erase_step s = Inr s1" "erase_loop (Suc i) s1 = Inr s'"
      using 1(4) by (auto simp: erase_loop.simps [of i s] fault_simps)
    show ?thesis
      using 1(1) [OF True s1(1)] res_invD [OF erase_step_inv [OF 1(2)] s1(1)] erase_step_unread [OF 1(2,3) s1(1)] s1(2) by blast
  next
    case False
    then show ?thesis using 1(3,4) by (simp add: erase_loop.simps [of i s])
  qed
qed

lemma erase_timer_unread: "client_inv s \<Longrightarrow> unread k s \<Longrightarrow> erase_msg_timer s = Inr s' \<Longrightarrow> unread k s'"
  using erase_loop_unread [of s k 0] by (auto simp: erase_msg_timer_def fault_simps unread_def issue_def)

lemma handle_connect_unread:
  assumes inv: "client_inv s" and u: "unread k s" and h: "handle_connect e s = Inr s'"
  shows "unread k s'"
proof (cases "e = 0")
  case True
  then obtain s1 where s1: "do_read_head (s\<lparr>clietn_status := CT_CONN_OK\<rparr>) = Inr s1" "erase_msg_timer s1 = Inr s'"
    using h by (auto simp: handle_connect_def fault_simps)
  have "unread k s1" using do_read_head_keeps [OF s1(1)] u by (simp add: unread_def keeps_maps_def)
  moreover have "client_inv s1" using res_invD [OF do_read_head_inv [OF status_upd_inv [OF inv]] s1(1)] .
  ultimately show ?thesis using erase_timer_unread s1(2) by blast
next
  case False
  then show ?thesis using h u by (auto simp: handle_connect_def reset_socket_def unread_def)
qed

lemma handler_unread:
  assumes inv: "client_inv s" and u: "unread k s" and h: "client_handler net op c s = Inr s'"
  shows "unread k s'"
proof (cases "(net, op, c, s)" rule: client_handler.cases)
  case (1 net' bs s0)
  then show ?thesis using h handle_connect_unread [OF inv u] by simp
next
  case (2 net' e s0)
  then show ?thesis using h handle_connect_unread [OF inv u] by simp
next
  case (3 net' bs s0)
  then obtain hdr where "handle_read_header net hdr 0 s = Inr s'" using h by (auto simp: fault_simps)
  then show ?thesis using handle_read_header_keeps [OF inv] keeps_unread u by blast
next
  case (4 net' e s0)
  then have "handle_read_header net RPCStructHead_new e s = Inr s'" using h by simp
  from keeps_unread [OF handle_read_header_keeps [OF inv this] u] show ?thesis .
next
  case (5 net' r n bs s0)
  then obtain m' where "handle_read_msg net r 0 (put_obj r m' s) = Inr s'" using h by (auto simp: fault_simps)
  from handle_read_msg_keeps [OF this] u show ?thesis by (simp add: keeps_maps_def unread_def)
next
  case (6 net' r n e s0)
  then have "handle_read_msg net r e s = Inr s'" using h by simp
  from keeps_unread [OF handle_read_msg_keeps [OF this] u] show ?thesis .
next
  case (7 net' bytes bs s0)
  then have "handle_write net 0 (s\<lparr>delivered := delivered s @ [bytes]\<rparr>) = Inr s'" using h by simp
  from handle_write_keeps [OF this] u show ?thesis by (simp add: keeps_maps_def unread_def)
next
  case (8 net' bytes e s0)
  then have "handle_write net e s = Inr s'" using h by simp
  from keeps_unread [OF handle_write_keeps [OF this] u] show ?thesis .
next
  case (9 net' c' s0)
  then have "do_write s = Inr s'" using h by simp
  from keeps_unread [OF do_write_keeps [OF this] u] show ?thesis .
next
  case (10 net' r c' s0)
  then have "do_write_msg (Some r) s = Inr s'" using h by simp
  from keeps_unread [OF do_write_msg_keeps [OF this] u] show ?thesis .
next
  case (11 net' c' s0)
  then have "do_close net s = Inr s'" using h by simp
  from keeps_unread [OF do_close_keeps [OF this] u] show ?thesis .
next
  case (12 net' c' s0)
  then show ?thesis using h erase_timer_unread [OF inv u] by simp
next
  case (13 net' c' s0)
  then show ?thesis using h u by (auto simp: log_timer_def issue_def unread_def)
next
  case (14 net' r bs s0)
  then show ?thesis using h u by (auto simp: fault_simps unread_def)
next
  case (15 net' r e s0)
  then show ?thesis using h u by (auto simp: fault_simps unread_def)
qed

lemma complete_unread:
  assumes inv: "client_inv s" and u: "unread k s" and c: "client_complete net i c s = Inr s'"
  shows "unread k s'"
proof (cases "i < length (io_queue s) \<and> (\<exists>r. io_queue s ! i = Msg_Timer r)")
  case True
  then show ?thesis using c u by (cases c) (auto simp: client_complete_def obj_at_def fault_simps unread_def)
next
  case False
  let ?s = "s\<lparr>io_queue := take i (io_queue s) @ drop (Suc i) (io_queue s)\<rparr>"
  have u': "unread k ?s" using u by (simp add: unread_def)
  show ?thesis
  proof (cases "i < length (io_queue s)")
    case lt: True
    then have "client_inv ?s" using False by (intro remove_op_inv [OF inv]) auto
    then show ?thesis using handler_unread u' c lt by (auto simp: client_complete_def)
  next
    case ge: False
    then show ?thesis using c u by (simp add: client_complete_def)
  qed
qed

lemma write_unread:
  assumes inv: "client_inv s" and u: "unread k s" and w: "client_write msg msgL timeout s = Inr (i, s')"
  shows "unread k s'"
proof -
  obtain r s1 op where nb: "newMsgBuf msg msgL timeout s = Inr (r, s1)" and s': "s' = issue op s1"
    using w by (auto simp: client_write_def fault_simps Let_def)
  obtain mp where "SafeMap_lookup mp = (SafeMap_lookup (recv_msg_map s))(sint (msg_index s) \<mapsto> Some (Suc (obj_next s)))"
      "recv_msg_map s1 = mp" "del_reqid_list s1 = del_reqid_list s"
    using newMsgBuf_Inr [OF inv nb] by metis
  then show ?thesis using u s' by (simp add: unread_def issue_def)
qed

definition unread_inv :: "int \<Rightarrow> client_loop \<Rightarrow> bool" where
  "unread_inv k s \<longleftrightarrow> client_inv s \<and> unread k s"

lemma step_unread:
  assumes "client_step net False r r'" "res_inv (unread_inv k) r"
  shows "res_inv (unread_inv k) r'"
proof -
  obtain s where r: "r = Inr s" using assms(1) by (cases rule: client_step.cases) auto
  have inv: "client_inv s" and u: "unread k s" using assms(2) r by (simp_all add: unread_inv_def)
  have i': "res_inv client_inv r'" using client_step_inv [OF assms(1)] inv r by simp
  have "unread k s'" if s': "r' = Inr s'" for s'
    using assms(1)
  proof (cases rule: client_step.cases)
    case (io_event i s0 c)
    then show ?thesis using complete_unread [OF inv u] r s' by auto
  next
    case (user_write s0 msg msgL timeout)
    then have "rbind (client_write msg msgL timeout s) (\<lambda>(i, s'). Inr s') = Inr s'" using r s' by simp
    then show ?thesis using write_unread [OF inv u] by (auto simp: fault_simps)
  next
    case (user_find s0 reqid)
    then have "rbind (client_read_find reqid s) (\<lambda>(p, s'). Inr s') = Inr s'" using r s' by simp
    then obtain p where "client_read_find reqid s = Inr (p, s')" by (auto simp: fault_simps)
    then have "s' = s" using map_obj_inv(1) [OF inv] by (auto simp: client_read_find_def fault_simps split: if_splits)
    then show ?thesis using u by simp
  next
    case (user_is_open s0)
    then have "rbind (client_is_open net s) (\<lambda>(b, s'). Inr s') = Inr s'" using r s' by simp
    then obtain b where "client_is_open net s = Inr (b, s')" by (auto simp: fault_simps)
    from keeps_unread [OF is_open_keeps [OF this] u] show ?thesis .
  next
    case (user_close s0)
    then show ?thesis using u r s' by (auto simp: close_def issue_def unread_def)
  qed auto
  with i' show ?thesis by (cases r') (auto simp: unread_inv_def)
qed

lemma steps_unread: "(client_step net False)\<^sup>*\<^sup>* r r' \<Longrightarrow> res_inv (unread_inv k) r \<Longrightarrow> res_inv (unread_inv k) r'"
  by (induction rule: rtranclp_induct) (auto intro: step_unread)

section \<open>Properties\<close>

text \<open>C7: No reader waits for ever. In every reachable state the entry of the receive map under an id is
  a live, well-formed object with that id, and it either has a result already or its timeout wait is
  pending; every way in which that wait can end gives the object the result \<open>CT_TIMEOUT\<close>.\<close>

theorem read_never_stuck:
  assumes "reach (client_begins net) (client_step net reads) (Inr s)" "SafeMap_lookup (recv_msg_map s) k = Some p"
  shows "\<exists>r m. p = Some r \<and> objs s r = Some m \<and> sint (req_id (head_info m)) = k \<and> slot_ok m
    \<and> (read_done (RPCStruct_get_status m) \<or>
       (\<exists>i < length (io_queue s). io_queue s ! i = Msg_Timer r \<and>
         (\<forall>c. client_completes s (Msg_Timer r) c \<longrightarrow>
           (\<exists>s' m'. client_complete net i c s = Inr s' \<and> objs s' r = Some m' \<and> RPCStruct_get_status m' = CT_TIMEOUT))))"
proof -
  have inv: "client_inv s" using client_runs.reach_inv [OF assms(1)] by simp
  obtain r m where *: "p = Some r" "objs s r = Some m" "sint (req_id (head_info m)) = k" "slot_ok m" "slot_live (io_queue s) r m"
    using inv assms(2) by (rule inv_slotE)
  show ?thesis
  proof (cases "read_done (status m)")
    case True
    then show ?thesis using * by (auto simp: RPCStruct_get_status_def)
  next
    case False
    then have t: "Msg_Timer r \<in> set (io_queue s)" "Cancel \<notin> set (timer m)" using *(5) by (auto simp: slot_live_def)
    then obtain i where i: "i < length (io_queue s)" "io_queue s ! i = Msg_Timer r" by (auto simp: in_set_conv_nth)
    have "\<exists>s' m'. client_complete net i c s = Inr s' \<and> objs s' r = Some m' \<and> RPCStruct_get_status m' = CT_TIMEOUT"
      if "client_completes s (Msg_Timer r) c" for c
      using that i *(2) t(2) timeout_status(1) [of m]
      by (cases c) (auto simp: client_complete_def obj_at_def RPCStruct_get_status_def)
    then show ?thesis using * i by auto
  qed
qed

text \<open>C37: A request whose result is never read keeps its slot in the receive map whatever else happens:
  responses, timeouts, clean-up passes, reconnects and further writes. \<open>destroy\<close>, which waits for the
  map to be empty, therefore never gets past its loop.\<close>

theorem destroy_waits_for_unread:
  assumes "reach (client_begins net) (client_step net True) (Inr s)" "unread k s"
    and "(client_step net False)\<^sup>*\<^sup>* (Inr s) (Inr s')" "length (wdmap (recv_msg_map s')) < 2 ^ 32"
  shows "client_destroy net s' = None"
proof -
  have "res_inv (unread_inv k) (Inr s)"
    using client_runs.reach_inv [OF assms(1)] assms(2) by (simp add: unread_inv_def)
  from steps_unread [OF assms(3) this] have "unread k s'" by (simp add: unread_inv_def)
  then have "wdmap (recv_msg_map s') \<noteq> []" by (auto simp: unread_def SafeMap_lookup_def)
  then have "SafeMap_size (recv_msg_map s') \<noteq> 0"
    using assms(4) by (auto simp: SafeMap_size_def word_of_nat_eq_0_iff dest: nat_dvd_not_less)
  then show ?thesis by (simp add: client_destroy_def)
qed

text \<open>A client that has just written one message, for the witnesses.\<close>

lemma written_client:
  obtains s where "reach (client_begins net_ref) (client_step net_ref True) (Inr s)" "unread 1 s"
    "SafeMap_lookup (recv_msg_map s) 1 = Some (Some 1)" "length (wdmap (recv_msg_map s)) < 2 ^ 32"
proof -
  let ?i = "init_socket (client_loop_init ''127.0.0.1'' 6688 CSQ_ON)"
  let ?s0 = "log_timer (?i\<lparr>clietn_status := CT_CONN, socket := Some [Sock_Connect ''127.0.0.1'' (ucast (6688 :: cint))],
    io_queue := [Op_Connect]\<rparr>)"
  have new: "client_loop_new net_ref ''127.0.0.1'' 6688 CSQ_ON = Inr ?s0"
    by (simp add: client_loop_new_def do_connect_def sock_async_def issue_def init_socket_def client_loop_init_def net_ref_def)
  have f: "SafeMap_inv (recv_msg_map ?s0)" "SafeQueue_inv (write_msg_queue ?s0)"
    using init_client_inv [of "''127.0.0.1''" 6688 CSQ_ON] by (simp_all add: log_timer_def issue_def init_socket_def)
  have g: "msg_index ?s0 = 1" "obj_next ?s0 = 0" "SafeMap_lookup (recv_msg_map ?s0) = Map.empty" "contents (del_reqid_list ?s0) = []"
    by (simp_all add: log_timer_def issue_def init_socket_def client_loop_init_def SafeMap_lookup_def SafeMap_new_def new_queue_inv)
  obtain m s where w: "client_write [Some 72, Some 0] 2 80 ?s0 = Inr (msg_index ?s0, s)" "written ?s0 80 m s"
    by (rule client_write_frame [OF f, of 2 "[72, 0]" "[Some 72, Some 0]" 80]) auto
  have "reach (client_begins net_ref) (client_step net_ref True) (Inr ?s0)"
    unfolding client_begins_def using new [symmetric] by (intro reach_start) blast
  from reach_step [OF this user_write [where msg = "[Some 72, Some 0]" and msgL = 2 and timeout = 80]] w(1)
  have r: "reach (client_begins net_ref) (client_step net_ref True) (Inr s)" by simp
  have l: "SafeMap_lookup (recv_msg_map s) = [1 \<mapsto> Some 1]" and mi: "SafeMap_inv (recv_msg_map s)"
      and d: "contents (del_reqid_list s) = []"
    using w(2) g by (simp_all add: written_def)
  have "length (wdmap (recv_msg_map s)) = card (fst ` set (wdmap (recv_msg_map s)))"
    using mi ok_distinct distinct_card by (fastforce simp: SafeMap_inv_def)
  also have "fst ` set (wdmap (recv_msg_map s)) = {1}"
    using l by (simp add: SafeMap_lookup_def flip: dom_map_of_conv_image_fst)
  finally have "length (wdmap (recv_msg_map s)) < 2 ^ 32" by simp
  with r l d show thesis by (intro that [of s]) (simp_all add: unread_def)
qed

theorem read_never_stuck_witness:
  "\<exists>s m. reach (client_begins net_ref) (client_step net_ref True) (Inr s) \<and> objs s 1 = Some m \<and> slot_ok m"
proof -
  obtain s where s: "reach (client_begins net_ref) (client_step net_ref True) (Inr s)"
      "SafeMap_lookup (recv_msg_map s) 1 = Some (Some 1)" using written_client by metis
  from read_never_stuck [OF s] s(1) show ?thesis by blast
qed

theorem destroy_waits_for_unread_witness:
  "\<exists>s. reach (client_begins net_ref) (client_step net_ref True) (Inr s) \<and> client_destroy net_ref s = None"
proof -
  obtain s where s: "reach (client_begins net_ref) (client_step net_ref True) (Inr s)" "unread 1 s"
      "length (wdmap (recv_msg_map s)) < 2 ^ 32" using written_client by metis
  from destroy_waits_for_unread [OF s(1,2) rtranclp.rtrancl_refl s(3)] s(1) show ?thesis by blast
qed

end
