(* ===== verification/ClientPool.thy ===== *)
theory ClientPool
  imports ClientRuns "HOL-Library.Signed_Division"
begin

text \<open>
  The pool of \<open>include/client_async_loop_pool.h\<close>: a list of clients, one per address and port that was
  asked for, each with its own event loop and thread, and a rotating index that spreads the messages
  over them. Calls are modelled one at a time; that a thread has been stopped and joined is a flag.
  Lemmas: what the hash computes, the invariant that ties the counter to the list, the rotation, where a
  written message waits for its answer, and what breaks the invariant.
\<close>

section \<open>pool\_client\_\<close>

record pool_client =
  pc_client :: client_loop
  pc_work :: bool
  pc_stopped :: bool
  pc_joined :: bool
  pc_destroy :: bool
  hash_key :: cint

text \<open>\<open>hash * 131 + str[i]\<close> in \<open>int\<close>, with the wrap-around of the targets; \<open>char\<close> is signed there.\<close>

definition char_int :: "char \<Rightarrow> cint" where
  "char_int c = scast (of_nat (of_char c) :: byte)"

definition BKDR_hash :: "string \<Rightarrow> cint" where
  "BKDR_hash str = foldl (\<lambda>hash c. hash * 131 + char_int c) 0 str"

definition link_key :: "string \<Rightarrow> cint \<Rightarrow> cint" where
  "link_key addr prt = BKDR_hash addr + prt"

text \<open>The client is made with the default mode, whatever the pool was set to.\<close>

definition pool_client_new :: "net \<Rightarrow> string \<Rightarrow> cint \<Rightarrow> pool_client res" where
  "pool_client_new net addr prt =
     rbind (client_loop_new net addr prt CSQ_ON) (\<lambda>c.
     Inr \<lparr>pc_client = c, pc_work = True, pc_stopped = False, pc_joined = False, pc_destroy = False,
          hash_key = link_key addr prt\<rparr>)"

text \<open>\<^term>\<open>None\<close>: \<open>client_->destroy()\<close> is still waiting.\<close>

definition pool_client_destroy :: "net \<Rightarrow> pool_client \<Rightarrow> pool_client res option" where
  "pool_client_destroy net p =
     (if pc_destroy p then Some (Inr p)
      else
        (case client_destroy net (pc_client p) of
           None \<Rightarrow> None
         | Some r \<Rightarrow> Some (rbind r (\<lambda>c. Inr (p\<lparr>pc_client := c, pc_destroy := True, pc_work := False,
             pc_stopped := True, pc_joined := True\<rparr>)))))"

definition pool_client_write :: "cell list \<Rightarrow> cint \<Rightarrow> cint \<Rightarrow> pool_client \<Rightarrow> (cint \<times> pool_client) res" where
  "pool_client_write msg msgL timeout p =
     rbind (client_write msg msgL timeout (pc_client p)) (\<lambda>(r, c). Inr (r, p\<lparr>pc_client := c\<rparr>))"

definition pool_client_is_open :: "net \<Rightarrow> pool_client \<Rightarrow> (bool \<times> pool_client) res" where
  "pool_client_is_open net p =
     rbind (client_is_open net (pc_client p)) (\<lambda>(b, c). Inr (b, p\<lparr>pc_client := c\<rparr>))"

section \<open>client\_loop\_pool\<close>

text \<open>\<open>closing\<close>: clients handed to a thread of their own by \<open>destroy(ip, port)\<close>.\<close>

record client_loop_pool =
  client_list :: "pool_client list"
  client_max_num :: cint
  link_set_poll :: "cint set"
  cur_client_index :: cint
  select_index :: cint
  pool_csq :: client_send_queue
  closing :: "pool_client list"

definition client_loop_pool_new :: client_loop_pool where
  "client_loop_pool_new = \<lparr>client_list = [], client_max_num = 10, link_set_poll = {}, cur_client_index = 0,
     select_index = 0, pool_csq = CSQ_ON, closing = []\<rparr>"

definition set_csq :: "bool \<Rightarrow> client_loop_pool \<Rightarrow> client_loop_pool" where
  "set_csq v p = p\<lparr>pool_csq := (if v then CSQ_ON else CSQ_OFF)\<rparr>"

text \<open>\<open>client_list.size()<v\<close> compares as unsigned: a negative \<open>v\<close> counts as huge.\<close>

definition set_c_max_num :: "cint \<Rightarrow> client_loop_pool \<Rightarrow> client_loop_pool" where
  "set_c_max_num v p = (if length (client_list p) < size_t v then p\<lparr>client_max_num := v\<rparr> else p)"

definition add_link :: "net \<Rightarrow> string \<Rightarrow> cint \<Rightarrow> client_loop_pool \<Rightarrow> client_loop_pool res" where
  "add_link net addr prt p =
     (if sint (client_max_num p) < sint (cur_client_index p) then Inr p
      else if link_key addr prt \<notin> link_set_poll p then
        rbind (pool_client_new net addr prt) (\<lambda>c.
        Inr (p\<lparr>link_set_poll := insert (link_key addr prt) (link_set_poll p), client_list := client_list p @ [c],
               cur_client_index := cur_client_index p + 1\<rparr>))
      else Inr p)"

text \<open>\<open>client_list[index]\<close>, undefined outside the list.\<close>

definition client_at :: "int \<Rightarrow> client_loop_pool \<Rightarrow> pool_client res" where
  "client_at index p =
     (if 0 \<le> index \<and> nat index < length (client_list p) then Inr (client_list p ! nat index) else Inl Out_Of_Bounds)"

definition put_client :: "int \<Rightarrow> pool_client \<Rightarrow> client_loop_pool \<Rightarrow> client_loop_pool" where
  "put_client index c p = p\<lparr>client_list := (client_list p)[nat index := c]\<rparr>"

text \<open>The loop of \<open>get_client_index\<close> with the number of iterations left and the index tried last.\<close>

primrec select_loop :: "net \<Rightarrow> nat \<Rightarrow> int \<Rightarrow> client_loop_pool \<Rightarrow> (int \<times> client_loop_pool) res" where
  "select_loop net 0 index p = Inr (index, p)"
| "select_loop net (Suc n) index p =
     (let index' = sint (select_index p) smod sint (cur_client_index p);
          p1 = p\<lparr>select_index := select_index p + 1\<rparr>
      in rbind (client_at index' p1) (\<lambda>c.
         rbind (pool_client_is_open net c) (\<lambda>(b, c').
         let p2 = put_client index' c' p1
         in if b then Inr (index', p2) else select_loop net n index' p2)))"

definition get_client_index :: "net \<Rightarrow> client_loop_pool \<Rightarrow> (int \<times> client_loop_pool) res" where
  "get_client_index net p = select_loop net (nat (sint (cur_client_index p))) (- 1) p"

definition pool_write :: "net \<Rightarrow> string \<Rightarrow> cint \<Rightarrow> cell list \<Rightarrow> cint \<Rightarrow> client_loop_pool \<Rightarrow> (clientHandle \<times> client_loop_pool) res" where
  "pool_write net addr prt sendData sendSize p =
     rbind (add_link net addr prt p) (\<lambda>p1.
     rbind (get_client_index net p1) (\<lambda>(i, p2).
     let res = clientHandle_default\<lparr>handle_i := word_of_int i\<rparr>
     in if 0 \<le> i then
          rbind (client_at i p2) (\<lambda>c.
          rbind (pool_client_write sendData sendSize 80 c) (\<lambda>(r, c').
          Inr (res\<lparr>handle_r := r\<rparr>, put_client i c' p2)))
        else Inr (res, p2)))"

text \<open>
  \<open>read\<close> runs \<open>client_loop::read\<close> in a thread of its own and waits for it: the lookup, then polls until
  one returns. A null result or one without an answer gives a null pointer, otherwise the body.
\<close>

definition pool_read_find :: "clientHandle \<Rightarrow> client_loop_pool \<Rightarrow> (nat option \<times> client_loop_pool) res" where
  "pool_read_find ch p =
     (if handle_i ch = - 1 then Inr (None, p)
      else
        rbind (client_at (sint (handle_i ch)) p) (\<lambda>c.
        rbind (client_read_find (handle_r ch) (pc_client c)) (\<lambda>(r, c').
        Inr (r, put_client (sint (handle_i ch)) (c\<lparr>pc_client := c'\<rparr>) p))))"

definition pool_read_poll :: "clientHandle \<Rightarrow> nat \<Rightarrow> client_loop_pool \<Rightarrow> (cell list option option \<times> client_loop_pool) res" where
  "pool_read_poll ch r p =
     rbind (client_at (sint (handle_i ch)) p) (\<lambda>c.
     rbind (client_read_poll r (pc_client c)) (\<lambda>(fin, s).
     if fin then
       rbind (obj_at s (Some r)) (\<lambda>(_, m).
       if RPCStruct_get_status m \<noteq> CT_READ_OK then
         Inr (Some None, put_client (sint (handle_i ch)) (c\<lparr>pc_client := s\<rparr>) p)
       else
         rbind (RPCStruct_body m) (\<lambda>(b, m').
         Inr (Some (Some b), put_client (sint (handle_i ch)) (c\<lparr>pc_client := put_obj r m' s\<rparr>) p)))
     else Inr (None, p)))"

text \<open>\<open>destroy()\<close>: the clients one by one, front first; \<^term>\<open>None\<close> while one of them waits.\<close>

fun destroy_list :: "net \<Rightarrow> pool_client list \<Rightarrow> unit res option" where
  "destroy_list net [] = Some (Inr ())"
| "destroy_list net (c # cs) =
     (case pool_client_destroy net c of
        None \<Rightarrow> None
      | Some (Inl e) \<Rightarrow> Some (Inl e)
      | Some (Inr c') \<Rightarrow> destroy_list net cs)"

definition pool_destroy :: "net \<Rightarrow> client_loop_pool \<Rightarrow> client_loop_pool res option" where
  "pool_destroy net p = map_option (\<lambda>r. rbind r (\<lambda>_. Inr (p\<lparr>client_list := []\<rparr>))) (destroy_list net (client_list p))"

text \<open>\<open>destroy(ip, port)\<close>: the first client with that key leaves the list and is destroyed elsewhere.\<close>

definition pool_destroy_link :: "string \<Rightarrow> cint \<Rightarrow> client_loop_pool \<Rightarrow> client_loop_pool" where
  "pool_destroy_link addr prt p =
     (case List.extract (\<lambda>c. hash_key c = link_key addr prt) (client_list p) of
        None \<Rightarrow> p
      | Some (xs, c, ys) \<Rightarrow>
          p\<lparr>client_list := xs @ ys, link_set_poll := link_set_poll p - {link_key addr prt}, closing := closing p @ [c]\<rparr>)"

section \<open>The hash\<close>

text \<open>The polynomial the loop evaluates.\<close>

fun hash_poly :: "string \<Rightarrow> int" where
  "hash_poly [] = 0"
| "hash_poly (c # cs) = sint (char_int c) * 131 ^ length cs + hash_poly cs"

lemma BKDR_foldl:
  "foldl (\<lambda>hash c. hash * 131 + char_int c) (word_of_int a) str = (word_of_int (a * 131 ^ length str + hash_poly str) :: cint)"
proof (induction str arbitrary: a)
  case (Cons c cs)
  have "word_of_int a * 131 + char_int c = (word_of_int (a * 131 + sint (char_int c)) :: cint)" by simp
  then have "foldl (\<lambda>hash c. hash * 131 + char_int c) (word_of_int a) (c # cs) =
      foldl (\<lambda>hash c. hash * 131 + char_int c) (word_of_int (a * 131 + sint (char_int c)) :: cint) cs" by simp
  also have "\<dots> = word_of_int ((a * 131 + sint (char_int c)) * 131 ^ length cs + hash_poly cs)" by (rule Cons.IH)
  also have "(a * 131 + sint (char_int c)) * 131 ^ length cs + hash_poly cs = a * 131 ^ length (c # cs) + hash_poly (c # cs)"
    by (simp add: algebra_simps)
  finally show ?case .
qed simp

lemma BKDR_hash_poly: "BKDR_hash str = word_of_int (hash_poly str)"
  using BKDR_foldl [of 0 str] by (simp add: BKDR_hash_def)

section \<open>The invariant\<close>

definition pool_inv :: "client_loop_pool \<Rightarrow> bool" where
  "pool_inv p \<longleftrightarrow> cur_client_index p = of_nat (length (client_list p))
     \<and> link_set_poll p = hash_key ` set (client_list p) \<and> distinct (map hash_key (client_list p))
     \<and> int (length (client_list p)) \<le> sint (client_max_num p) + 1 \<and> sint (client_max_num p) < 2 ^ 31 - 1
     \<and> (\<forall>c \<in> set (client_list p). client_inv (pc_client c))"

lemma pool_inv_counter:
  assumes "pool_inv p"
  shows "sint (cur_client_index p) = int (length (client_list p))" "int (length (client_list p)) < 2 ^ 31"
proof -
  show "int (length (client_list p)) < 2 ^ 31" using assms by (simp add: pool_inv_def)
  then show "sint (cur_client_index p) = int (length (client_list p))"
    using assms sint_of_nat_cint by (simp add: pool_inv_def)
qed

lemma client_at_Inr: "client_at i p = Inr c \<Longrightarrow> 0 \<le> i \<and> nat i < length (client_list p) \<and> c = client_list p ! nat i"
  by (auto simp: client_at_def split: if_splits)

text \<open>A client of the list may be replaced by a later state of itself.\<close>

lemma put_client_inv:
  assumes "pool_inv p" "client_at i p = Inr c" "hash_key c' = hash_key c" "client_inv (pc_client c')"
  shows "pool_inv (put_client i c' p)"
proof -
  let ?l = "client_list p" and ?l' = "(client_list p)[nat i := c']"
  have i: "nat i < length ?l" "c = ?l ! nat i" using client_at_Inr [OF assms(2)] by simp_all
  have keys: "map hash_key ?l' = map hash_key ?l"
    using i assms(3) by (simp add: map_update list_update_same_conv)
  then have "hash_key ` set ?l' = hash_key ` set ?l" by (metis list.set_map)
  moreover have "\<forall>c \<in> set ?l'. client_inv (pc_client c)"
    using assms(1,4) set_update_subset_insert [of ?l "nat i" c'] by (auto simp: pool_inv_def)
  ultimately show ?thesis using assms(1) keys by (simp add: pool_inv_def put_client_def)
qed

lemma client_at_inv: "pool_inv p \<Longrightarrow> client_at i p = Inr c \<Longrightarrow> client_inv (pc_client c)"
  using client_at_Inr [of i p c] by (auto simp: pool_inv_def)

lemma select_upd_inv: "pool_inv (p\<lparr>select_index := v\<rparr>) = pool_inv p" "pool_inv (p\<lparr>pool_csq := q\<rparr>) = pool_inv p"
  by (simp_all add: pool_inv_def)

lemma pool_is_open_inv:
  assumes "client_inv (pc_client c)" "pool_client_is_open net c = Inr (b, c')"
  shows "hash_key c' = hash_key c" "client_inv (pc_client c')"
proof -
  obtain s where s: "client_is_open net (pc_client c) = Inr (b, s)" "c' = c\<lparr>pc_client := s\<rparr>"
    using assms(2) by (auto simp: pool_client_is_open_def fault_simps)
  show "hash_key c' = hash_key c" "client_inv (pc_client c')"
    using s res_invD [OF is_open_inv [OF assms(1)] s(1)] by simp_all
qed

lemma select_loop_inv: "pool_inv p \<Longrightarrow> res_inv (\<lambda>(i, p'). pool_inv p') (select_loop net n index p)"
proof (induction n arbitrary: index p)
  case (Suc n)
  let ?i = "sint (select_index p) smod sint (cur_client_index p)" and ?p1 = "p\<lparr>select_index := select_index p + 1\<rparr>"
  have p1: "pool_inv ?p1" using Suc.prems by (simp add: select_upd_inv)
  show ?case
  proof (cases "client_at ?i ?p1")
    case (Inl e)
    then show ?thesis by (simp add: Let_def)
  next
    case c: (Inr c)
    show ?thesis
    proof (cases "pool_client_is_open net c")
      case (Inl e)
      then show ?thesis using c by (simp add: Let_def)
    next
      case (Inr bc)
      obtain b c' where bc: "bc = (b, c')" by (cases bc)
      have "pool_inv (put_client ?i c' ?p1)"
        using put_client_inv [OF p1 c] pool_is_open_inv [OF client_at_inv [OF p1 c], of net b c'] Inr bc by auto
      then show ?thesis using c Inr bc Suc.IH by (simp add: Let_def)
    qed
  qed
qed simp

lemma add_link_inv:
  assumes "pool_inv p"
  shows "res_inv pool_inv (add_link net addr prt p)"
proof (rule res_invI)
  fix p' assume p': "add_link net addr prt p = Inr p'"
  show "pool_inv p'"
  proof (cases "sint (client_max_num p) < sint (cur_client_index p) \<or> link_key addr prt \<in> link_set_poll p")
    case True
    then show ?thesis using p' assms by (auto simp: add_link_def split: if_splits)
  next
    case False
    then obtain c where c: "pool_client_new net addr prt = Inr c" and
      p'': "p' = p\<lparr>link_set_poll := insert (link_key addr prt) (link_set_poll p), client_list := client_list p @ [c],
        cur_client_index := cur_client_index p + 1\<rparr>"
      using p' by (auto simp: add_link_def fault_simps)
    obtain s where s: "client_loop_new net addr prt CSQ_ON = Inr s" "pc_client c = s" "hash_key c = link_key addr prt"
      using c by (auto simp: pool_client_new_def fault_simps)
    have "client_begins net (Inr s)" unfolding client_begins_def using s(1) [symmetric] by blast
    then have "client_inv (pc_client c)" using client_new_inv [of net "Inr s"] s(2) by simp
    moreover have "int (length (client_list p)) \<le> sint (client_max_num p)"
      using False pool_inv_counter(1) [OF assms] by simp
    ultimately show ?thesis using assms False s(3) p'' by (auto simp: pool_inv_def)
  qed
qed

lemma pool_write_inv:
  assumes "pool_inv p"
  shows "res_inv (\<lambda>(h, p'). pool_inv p') (pool_write net addr prt d n p)"
proof (rule res_invI, clarify)
  fix h p' assume w: "pool_write net addr prt d n p = Inr (h, p')"
  then obtain p1 i p2 where 1: "add_link net addr prt p = Inr p1" "get_client_index net p1 = Inr (i, p2)"
    by (auto simp: pool_write_def fault_simps)
  have i1: "pool_inv p1" using add_link_inv [OF assms] 1(1) by (rule res_invD)
  have i2: "pool_inv p2" using res_invD [OF select_loop_inv [OF i1] 1(2) [unfolded get_client_index_def]] by simp
  show "pool_inv p'"
  proof (cases "0 \<le> i")
    case True
    then obtain c r c' where c: "client_at i p2 = Inr c" "pool_client_write d n 80 c = Inr (r, c')" "p' = put_client i c' p2"
      using w 1 by (auto simp: pool_write_def fault_simps Let_def)
    obtain s where s: "client_write d n 80 (pc_client c) = Inr (r, s)" "c' = c\<lparr>pc_client := s\<rparr>"
      using c(2) by (auto simp: pool_client_write_def fault_simps)
    have "client_inv s" using res_invD [OF client_write_inv [OF client_at_inv [OF i2 c(1)]] s(1)] by simp
    then show ?thesis using put_client_inv [OF i2 c(1)] s(2) c(3) by simp
  next
    case False
    then show ?thesis using w 1 i2 by (simp add: pool_write_def Let_def)
  qed
qed

lemma pool_read_find_inv:
  assumes "pool_inv p"
  shows "res_inv (\<lambda>(r, p'). pool_inv p') (pool_read_find ch p)"
proof (rule res_invI, clarify)
  fix r p' assume f: "pool_read_find ch p = Inr (r, p')"
  show "pool_inv p'"
  proof (cases "handle_i ch = - 1")
    case True
    then show ?thesis using f assms by (simp add: pool_read_find_def)
  next
    case False
    then obtain c s where c: "client_at (sint (handle_i ch)) p = Inr c" "client_read_find (handle_r ch) (pc_client c) = Inr (r, s)"
        "p' = put_client (sint (handle_i ch)) (c\<lparr>pc_client := s\<rparr>) p"
      using f by (auto simp: pool_read_find_def fault_simps)
    have "client_inv s" using res_invD [OF read_find_inv [OF client_at_inv [OF assms c(1)]] c(2)] by simp
    then show ?thesis using put_client_inv [OF assms c(1)] c(3) by simp
  qed
qed

lemma pool_read_poll_inv:
  assumes "pool_inv p"
  shows "res_inv (\<lambda>(r, p'). pool_inv p') (pool_read_poll ch r p)"
proof (rule res_invI, clarify)
  fix res p' assume f: "pool_read_poll ch r p = Inr (res, p')"
  then obtain c fin s where c: "client_at (sint (handle_i ch)) p = Inr c" "client_read_poll r (pc_client c) = Inr (fin, s)"
    by (auto simp: pool_read_poll_def fault_simps)
  have s: "client_inv s" using res_invD [OF read_poll_inv [OF client_at_inv [OF assms c(1)]] c(2)] by simp
  note put = put_client_inv [OF assms c(1)]
  show "pool_inv p'"
  proof (cases fin)
    case False
    then show ?thesis using f c assms by (simp add: pool_read_poll_def)
  next
    case True
    obtain m where m: "objs s r = Some m" using f c True by (auto simp: pool_read_poll_def fault_simps obj_at_def)
    show ?thesis
    proof (cases "RPCStruct_get_status m = CT_READ_OK")
      case ok: True
      then obtain b m' where b: "RPCStruct_body m = Inr (b, m')" "p' = put_client (sint (handle_i ch)) (c\<lparr>pc_client := put_obj r m' s\<rparr>) p"
        using f c True m by (auto simp: pool_read_poll_def fault_simps obj_at_def)
      have "client_inv (put_obj r m' s)" using s m evolves_body [OF b(1)] by (rule put_obj_inv)
      then show ?thesis using put b(2) by simp
    next
      case bad: False
      then show ?thesis using f c True m put s by (auto simp: pool_read_poll_def obj_at_def)
    qed
  qed
qed

section \<open>Runs of a pool\<close>

text \<open>Calls of the pool and steps of its clients; links are not destroyed.\<close>

inductive pool_step :: "net \<Rightarrow> client_loop_pool res \<Rightarrow> client_loop_pool res \<Rightarrow> bool" for net where
  step_write: "pool_step net (Inr p) (rbind (pool_write net addr prt d n p) (\<lambda>(h, p'). Inr p'))"
| step_find: "pool_step net (Inr p) (rbind (pool_read_find ch p) (\<lambda>(r, p'). Inr p'))"
| step_poll: "pool_step net (Inr p) (rbind (pool_read_poll ch r p) (\<lambda>(b, p'). Inr p'))"
| step_csq: "pool_step net (Inr p) (Inr (set_csq v p))"
| step_max: "0 \<le> sint v \<Longrightarrow> sint v < 2 ^ 31 - 1 \<Longrightarrow> pool_step net (Inr p) (Inr (set_c_max_num v p))"
| step_client: "client_at i p = Inr c \<Longrightarrow> client_step net True (Inr (pc_client c)) r \<Longrightarrow>
     pool_step net (Inr p) (rbind r (\<lambda>s. Inr (put_client i (c\<lparr>pc_client := s\<rparr>) p)))"

definition pool_begins :: "client_loop_pool res \<Rightarrow> bool" where
  "pool_begins r \<longleftrightarrow> r = Inr client_loop_pool_new"

lemma pool_step_inv: "pool_step net r r' \<Longrightarrow> res_inv pool_inv r \<Longrightarrow> res_inv pool_inv r'"
proof (induction rule: pool_step.induct)
  case (step_max v p)
  then show ?case by (auto simp: set_c_max_num_def pool_inv_def)
next
  case (step_client i p c r)
  then have p: "pool_inv p" by simp
  have r: "res_inv client_inv r" using client_step_inv [OF step_client(2)] client_at_inv [OF p step_client(1)] by simp
  show ?case
  proof (cases r)
    case (Inr s)
    then show ?thesis using put_client_inv [OF p step_client(1), of "c\<lparr>pc_client := s\<rparr>"] r by simp
  qed simp
qed (auto simp: set_csq_def select_upd_inv intro!: res_inv_snd pool_write_inv pool_read_find_inv pool_read_poll_inv)

interpretation pool_runs: inductive_invariant pool_begins "pool_step net" "res_inv pool_inv" for net
proof unfold_locales
  show "pool_begins r \<Longrightarrow> res_inv pool_inv r" for r
    by (simp add: pool_begins_def client_loop_pool_new_def pool_inv_def)
qed (rule pool_step_inv)

section \<open>The rotation\<close>

lemma smod_nonneg: "0 \<le> a \<Longrightarrow> 0 < b \<Longrightarrow> a smod b = a mod (b :: int)"
  by (cases "a = 0") (simp_all add: signed_modulo_int_def)

text \<open>A client whose socket is open answers \<open>is_open()\<close> without any other effect.\<close>

definition link_open :: "net \<Rightarrow> pool_client \<Rightarrow> bool" where
  "link_open net c \<longleftrightarrow> (\<exists>h. socket (pc_client c) = Some h \<and> sock_open net h)"

lemma pool_is_open_yes: "link_open net c \<Longrightarrow> pool_client_is_open net c = Inr (True, c)"
  by (auto simp: link_open_def pool_client_is_open_def client_is_open_def)

text \<open>A client that can answer \<open>is_open()\<close>: open, connecting, or ready to connect again.\<close>

definition link_usable :: "net \<Rightarrow> pool_client \<Rightarrow> bool" where
  "link_usable net c \<longleftrightarrow> (\<exists>h. socket (pc_client c) = Some h \<and>
     (sock_open net h \<or> clietn_status (pc_client c) = CT_CONN \<or> addr_ok net (ip (pc_client c))))"

lemma usable_is_open:
  assumes "link_usable net c"
  obtains b c' where "pool_client_is_open net c = Inr (b, c')" "link_usable net c'"
proof -
  obtain h where h: "socket (pc_client c) = Some h"
      "sock_open net h \<or> clietn_status (pc_client c) = CT_CONN \<or> addr_ok net (ip (pc_client c))"
    using assms by (auto simp: link_usable_def)
  consider "sock_open net h" | "\<not> sock_open net h" "clietn_status (pc_client c) = CT_CONN"
    | "\<not> sock_open net h" "clietn_status (pc_client c) \<noteq> CT_CONN" "addr_ok net (ip (pc_client c))"
    using h(2) by blast
  then show thesis
  proof cases
    case 1
    then show ?thesis using that [of True c] h(1) assms by (simp add: pool_is_open_yes link_open_def)
  next
    case 2
    then show ?thesis
      using that [of False c] h(1) assms by (simp add: pool_client_is_open_def client_is_open_def do_connect_def)
  next
    case 3
    then obtain s where "client_is_open net (pc_client c) = Inr (False, s)" "clietn_status s = CT_CONN" "socket s \<noteq> None"
      using h(1) by (auto simp: client_is_open_def do_connect_def sock_async_def issue_def)
    then show ?thesis
      using that [of False "c\<lparr>pc_client := s\<rparr>"] by (auto simp: pool_client_is_open_def link_usable_def)
  qed
qed

lemma select_position:
  assumes "pool_inv p" "client_list p \<noteq> []" "0 \<le> sint (select_index p)"
  defines "i \<equiv> sint (select_index p) mod int (length (client_list p))"
  shows "sint (select_index p) smod sint (cur_client_index p) = i" "0 \<le> i" "nat i < length (client_list p)"
    "client_at i (p\<lparr>select_index := v\<rparr>) = Inr (client_list p ! nat i)"
proof -
  have n: "0 < int (length (client_list p))" using assms(2) by simp
  show "sint (select_index p) smod sint (cur_client_index p) = i"
    unfolding i_def pool_inv_counter(1) [OF assms(1)] using assms(3) n by (rule smod_nonneg)
  show i: "0 \<le> i" "nat i < length (client_list p)"
    using n pos_mod_bound [OF n, of "sint (select_index p)"] by (simp_all add: i_def nat_less_iff)
  then show "client_at i (p\<lparr>select_index := v\<rparr>) = Inr (client_list p ! nat i)" by (simp add: client_at_def)
qed

lemma select_open:
  assumes p: "pool_inv p" "client_list p \<noteq> []" "0 \<le> sint (select_index p)" and o: "\<forall>c \<in> set (client_list p). link_open net c"
  shows "get_client_index net p = Inr (sint (select_index p) mod int (length (client_list p)), p\<lparr>select_index := select_index p + 1\<rparr>)"
proof -
  let ?i = "sint (select_index p) mod int (length (client_list p))"
  note s = select_position [OF p]
  have "pool_client_is_open net (client_list p ! nat ?i) = Inr (True, client_list p ! nat ?i)"
    using o s(3) by (intro pool_is_open_yes) auto
  moreover obtain n where "length (client_list p) = Suc n" using p(2) by (cases "client_list p") auto
  then have "nat (sint (cur_client_index p)) = Suc n" using pool_inv_counter(1) [OF p(1)] by simp
  ultimately show ?thesis
    using s(1) s(4) by (simp add: get_client_index_def Let_def put_client_def)
qed

fun select_many :: "net \<Rightarrow> nat \<Rightarrow> client_loop_pool \<Rightarrow> (int list \<times> client_loop_pool) res" where
  "select_many net 0 p = Inr ([], p)"
| "select_many net (Suc k) p =
     rbind (get_client_index net p) (\<lambda>(i, p1). rbind (select_many net k p1) (\<lambda>(is, p2). Inr (i # is, p2)))"

lemma sint_Suc: "sint a < 2 ^ 31 - 1 \<Longrightarrow> sint (a + 1 :: cint) = sint a + 1"
  using sint_add_cint [of a 1] sint_cint_bounds [of a] by simp

lemma select_many_rotates:
  assumes "pool_inv p" "client_list p \<noteq> []" "0 \<le> sint (select_index p)" "sint (select_index p) + int k < 2 ^ 31"
    "\<forall>c \<in> set (client_list p). link_open net c"
  shows "select_many net k p =
    Inr (map (\<lambda>j. (sint (select_index p) + int j) mod int (length (client_list p))) [0..<k],
      p\<lparr>select_index := select_index p + of_nat k\<rparr>)"
  using assms
proof (induction k arbitrary: p)
  case 0
  then show ?case by simp
next
  case (Suc k)
  let ?p = "p\<lparr>select_index := select_index p + 1\<rparr>"
  have sel: "sint (select_index ?p) = sint (select_index p) + 1" using Suc.prems(4) by (simp add: sint_Suc)
  have "select_many net k ?p =
      Inr (map (\<lambda>j. (sint (select_index ?p) + int j) mod int (length (client_list ?p))) [0..<k],
        ?p\<lparr>select_index := select_index ?p + of_nat k\<rparr>)"
    using Suc.prems sel by (intro Suc.IH) (simp_all add: select_upd_inv)
  moreover have "map (\<lambda>j. (sint (select_index p) + int j) mod int (length (client_list p))) [0..<Suc k] =
      sint (select_index p) mod int (length (client_list p)) #
      map (\<lambda>j. (sint (select_index p) + 1 + int j) mod int (length (client_list p))) [0..<k]"
    by (simp add: upt_conv_Cons map_Suc_upt [symmetric] add.assoc del: upt_Suc)
  ultimately show ?case
    using select_open [OF Suc.prems(1-3,5)] sel by (simp add: add.assoc del: upt_Suc)
qed

text \<open>The loop ends on an index of the list whatever the state of the links.\<close>

lemma select_loop_usable:
  assumes "pool_inv p" "client_list p \<noteq> []" "0 \<le> sint (select_index p)" "sint (select_index p) + int (Suc k) < 2 ^ 31"
    "\<forall>c \<in> set (client_list p). link_usable net c"
  shows "\<exists>i p'. select_loop net (Suc k) index p = Inr (i, p') \<and> 0 \<le> i \<and> i < int (length (client_list p))
    \<and> length (client_list p') = length (client_list p)"
  using assms
proof (induction k arbitrary: p index)
  case 0
  let ?i = "sint (select_index p) mod int (length (client_list p))" and ?p1 = "p\<lparr>select_index := select_index p + 1\<rparr>"
  note s = select_position [OF 0(1-3)]
  obtain b c' where "pool_client_is_open net (client_list p ! nat ?i) = Inr (b, c')"
    using usable_is_open [OF bspec [OF 0(5) nth_mem [OF s(3)]]] by blast
  then have "select_loop net (Suc 0) index p = Inr (?i, put_client ?i c' ?p1)"
    using s(1) s(4) by (simp add: Let_def)
  moreover have "?i < int (length (client_list p))" using s(2,3) by (simp only: nat_less_iff)
  ultimately show ?case using s(2) by (simp add: put_client_def del: select_loop.simps)
next
  case (Suc k)
  let ?i = "sint (select_index p) mod int (length (client_list p))" and ?p1 = "p\<lparr>select_index := select_index p + 1\<rparr>"
  note s = select_position [OF Suc.prems(1-3)]
  obtain b c' where o: "pool_client_is_open net (client_list p ! nat ?i) = Inr (b, c')" "link_usable net c'"
    using usable_is_open [OF bspec [OF Suc.prems(5) nth_mem [OF s(3)]]] by blast
  have p1: "pool_inv ?p1" using Suc.prems(1) by (simp add: select_upd_inv)
  have "pool_inv (put_client ?i c' ?p1)"
    using put_client_inv [OF p1 s(4)] pool_is_open_inv [OF client_at_inv [OF p1 s(4)] o(1)] by blast
  moreover have sel: "sint (select_index (put_client ?i c' ?p1)) = sint (select_index p) + 1"
    using Suc.prems(4) by (simp add: sint_Suc put_client_def)
  moreover have "\<forall>c \<in> set (client_list (put_client ?i c' ?p1)). link_usable net c"
    using Suc.prems(5) o(2) set_update_subset_insert [of "client_list p" "nat ?i" c'] by (auto simp: put_client_def)
  moreover have len: "length (client_list (put_client ?i c' ?p1)) = length (client_list p)" by (simp add: put_client_def)
  then have ne: "client_list (put_client ?i c' ?p1) \<noteq> []" using Suc.prems(2) by (metis length_0_conv)
  moreover have "0 \<le> sint (select_index (put_client ?i c' ?p1))"
      "sint (select_index (put_client ?i c' ?p1)) + int (Suc k) < 2 ^ 31"
    unfolding sel using Suc.prems(3,4) by simp_all
  ultimately have "\<exists>i p'. select_loop net (Suc k) ?i (put_client ?i c' ?p1) = Inr (i, p') \<and> 0 \<le> i
      \<and> i < int (length (client_list p)) \<and> length (client_list p') = length (client_list p)"
    using Suc.IH [of "put_client ?i c' ?p1" ?i] unfolding len by blast
  moreover have "select_loop net (Suc (Suc k)) index p =
      (if b then Inr (?i, put_client ?i c' ?p1) else select_loop net (Suc k) ?i (put_client ?i c' ?p1))"
    unfolding select_loop.simps(2) [of net "Suc k"] s(1) using s(4) o(1) by (simp add: Let_def del: select_loop.simps)
  moreover have "?i < int (length (client_list p))" using s(2,3) by (simp only: nat_less_iff)
  ultimately show ?case using s(2) len by (cases b) (simp_all del: select_loop.simps)
qed

text \<open>An index outside the list is used all the same.\<close>

lemma select_out_of_range:
  assumes "0 < sint (cur_client_index p)"
    and "\<not> (0 \<le> sint (select_index p) smod sint (cur_client_index p)
      \<and> nat (sint (select_index p) smod sint (cur_client_index p)) < length (client_list p))"
  shows "get_client_index net p = Inl Out_Of_Bounds"
proof -
  obtain n where "nat (sint (cur_client_index p)) = Suc n" using assms(1) by (cases "nat (sint (cur_client_index p))") auto
  then show ?thesis using assms(2) by (auto simp: get_client_index_def client_at_def Let_def)
qed

lemma smod_negative: "a < 0 \<Longrightarrow> 0 < b \<Longrightarrow> \<not> b dvd a \<Longrightarrow> a smod b < (0 :: int)"
proof -
  assume a: "a < 0" "0 < b" "\<not> b dvd a"
  then have "- a mod b \<noteq> 0" by (metis dvd_eq_mod_eq_0 dvd_minus_iff)
  moreover have "0 \<le> - a mod b" using a(2) by simp
  ultimately have "0 < - a mod b" by linarith
  moreover have "a smod b = - (- a mod b)" using a by (simp add: signed_modulo_int_def)
  ultimately show ?thesis by simp
qed

text \<open>Removing a link: the list is one shorter, the counter and the rotating index are as before.\<close>

lemma destroy_link_shorter:
  assumes "pool_inv p" "link_key addr prt \<in> link_set_poll p"
  shows "length (client_list (pool_destroy_link addr prt p)) + 1 = length (client_list p)"
    "cur_client_index (pool_destroy_link addr prt p) = cur_client_index p"
    "select_index (pool_destroy_link addr prt p) = select_index p"
proof -
  have "\<exists>c \<in> set (client_list p). hash_key c = link_key addr prt" using assms by (force simp: pool_inv_def)
  then obtain xs c ys where e: "List.extract (\<lambda>c. hash_key c = link_key addr prt) (client_list p) = Some (xs, c, ys)"
    by (cases "List.extract (\<lambda>c. hash_key c = link_key addr prt) (client_list p)") (auto simp: extract_None_iff)
  then have "client_list p = xs @ c # ys" by (simp add: extract_Some_iff)
  with e show "length (client_list (pool_destroy_link addr prt p)) + 1 = length (client_list p)"
    "cur_client_index (pool_destroy_link addr prt p) = cur_client_index p"
    "select_index (pool_destroy_link addr prt p) = select_index p" by (simp_all add: pool_destroy_link_def)
qed

section \<open>A written message and its answer\<close>

lemma client_write_slot:
  assumes "client_inv s" and msg: "sint n = int (length bd)" "int (length bd) + 20 < 2 ^ 31" "take (length bd) d = map Some bd" "0 \<in> set bd"
  obtains s' where "client_write d n t s = Inr (msg_index s, s')" "client_read_find (msg_index s) s' = Inr (Some (Suc (obj_next s)), s')"
    "objs s' (Suc (obj_next s)) = Some (do_init_timer (recv_slot (msg_index s)) t)"
proof -
  obtain m s' where w: "client_write d n t s = Inr (msg_index s, s')" "written s t m s'"
    using client_write_frame [OF inv_parts(1,2) [OF assms(1)] msg] inv_parts(2) [OF assms(1)] by metis
  have l: "SafeMap_inv (recv_msg_map s')" "SafeMap_lookup (recv_msg_map s') (sint (msg_index s)) = Some (Some (Suc (obj_next s)))"
      "objs s' (Suc (obj_next s)) = Some (do_init_timer (recv_slot (msg_index s)) t)"
    using w(2) by (simp_all add: written_def)
  then have "client_read_find (msg_index s) s' = Inr (Some (Suc (obj_next s)), s')"
    using sm.has_law [OF l(1), of "sint (msg_index s)"] map_obj_hit [OF l] by (simp add: client_read_find_def)
  with w(1) l(3) that show thesis by blast
qed

lemma nonempty_counter: "pool_inv p \<Longrightarrow> client_list p \<noteq> [] \<Longrightarrow> \<exists>n. nat (sint (cur_client_index p)) = Suc n"
  using pool_inv_counter(1) [of p] by (cases "client_list p") (auto simp: nat_add_distrib)

lemma known_link: "link_key addr prt \<in> link_set_poll p \<Longrightarrow> add_link net addr prt p = Inr p"
  by (simp add: add_link_def)

lemma pool_write_open:
  assumes p: "pool_inv p" "link_key addr prt \<in> link_set_poll p" "0 \<le> sint (select_index p)" "\<forall>c \<in> set (client_list p). link_open net c"
    and msg: "sint n = int (length bd)" "int (length bd) + 20 < 2 ^ 31" "take (length bd) d = map Some bd" "0 \<in> set bd"
  defines "i \<equiv> sint (select_index p) mod int (length (client_list p))"
  shows "\<exists>ch p' r. pool_write net addr prt d n p = Inr (ch, p') \<and> sint (handle_i ch) = i
    \<and> handle_r ch = msg_index (pc_client (client_list p ! nat i)) \<and> pool_read_find ch p' = Inr (Some r, p')"
proof -
  have ne: "client_list p \<noteq> []" using p(1,2) by (auto simp: pool_inv_def)
  let ?p2 = "p\<lparr>select_index := select_index p + 1\<rparr>" and ?c = "client_list p ! nat i"
  have i: "0 \<le> i" "nat i < length (client_list p)" "client_at i ?p2 = Inr ?c"
    using select_position [OF p(1) ne p(3)] by (simp_all add: i_def)
  have inv: "client_inv (pc_client ?c)" using p(1) i(2) by (simp add: pool_inv_def)
  obtain s' where s': "client_write d n 80 (pc_client ?c) = Inr (msg_index (pc_client ?c), s')"
      "client_read_find (msg_index (pc_client ?c)) s' = Inr (Some (Suc (obj_next (pc_client ?c))), s')"
    using client_write_slot [OF inv msg] by metis
  let ?ch = "\<lparr>handle_i = word_of_int i, handle_r = msg_index (pc_client ?c)\<rparr>"
  let ?p' = "put_client i (?c\<lparr>pc_client := s'\<rparr>) ?p2"
  have w: "pool_write net addr prt d n p = Inr (?ch, ?p')"
    using known_link [OF p(2)] select_open [OF p(1) ne p(3,4)] i s'(1)
    by (simp add: pool_write_def i_def [symmetric] pool_client_write_def clientHandle_default_def)
  have "i < 2 ^ 31" using i(1,2) pool_inv_counter(2) [OF p(1)] by linarith
  then have hi: "sint (word_of_int i :: cint) = i" using i(1) by (simp add: signed_of_int signed_take_bit_int_eq_self)
  have at: "client_at i ?p' = Inr (?c\<lparr>pc_client := s'\<rparr>)" using i(1,2) by (simp add: client_at_def put_client_def)
  have "handle_i ?ch \<noteq> - 1" using hi i(1) by auto
  then have "pool_read_find ?ch ?p' = Inr (Some (Suc (obj_next (pc_client ?c))), ?p')"
    using at hi s'(2) by (simp add: pool_read_find_def put_client_def)
  with w hi show ?thesis by (intro exI [of _ ?ch] exI [of _ ?p'] exI [of _ "Suc (obj_next (pc_client ?c))"]) simp
qed

section \<open>A pool for the witnesses\<close>

lemma one_link_pool:
  obtains p c where "add_link net_ref ''127.0.0.1'' 6688 client_loop_pool_new = Inr p" "pool_inv p" "client_list p = [c]"
    "link_open net_ref c" "select_index p = 0" "link_set_poll p = {link_key ''127.0.0.1'' 6688}"
    "client_max_num p = 10" "hash_key c = link_key ''127.0.0.1'' 6688" "msg_index (pc_client c) = 1"
    "SafeQueue_size (write_msg_queue (pc_client c)) = 0" "SafeMap_size (recv_msg_map (pc_client c)) = 0"
    "clietn_status (pc_client c) = CT_CONN"
proof -
  let ?i = "init_socket (client_loop_init ''127.0.0.1'' 6688 CSQ_ON)"
  let ?s = "log_timer (?i\<lparr>clietn_status := CT_CONN, socket := Some [Sock_Connect ''127.0.0.1'' (ucast (6688 :: cint))],
    io_queue := [Op_Connect]\<rparr>)"
  let ?c = "\<lparr>pc_client = ?s, pc_work = True, pc_stopped = False, pc_joined = False, pc_destroy = False,
    hash_key = link_key ''127.0.0.1'' 6688\<rparr>"
  let ?p = "client_loop_pool_new\<lparr>link_set_poll := {link_key ''127.0.0.1'' 6688}, client_list := [?c], cur_client_index := 1\<rparr>"
  have "client_loop_new net_ref ''127.0.0.1'' 6688 CSQ_ON = Inr ?s"
    by (simp add: client_loop_new_def do_connect_def sock_async_def issue_def init_socket_def client_loop_init_def net_ref_def)
  then have add: "add_link net_ref ''127.0.0.1'' 6688 client_loop_pool_new = Inr ?p"
    by (simp add: add_link_def pool_client_new_def client_loop_pool_new_def)
  have "pool_inv client_loop_pool_new" by (simp add: client_loop_pool_new_def pool_inv_def)
  from add_link_inv [OF this] add have inv: "pool_inv ?p" by (rule res_invD)
  have "link_open net_ref ?c" by (simp add: link_open_def log_timer_def issue_def net_ref_def)
  then show thesis
    by (intro that [OF add inv, of ?c])
      (simp_all add: client_loop_pool_new_def log_timer_def issue_def init_socket_def client_loop_init_def
        SafeQueue_size_def SafeQueue_new_def new_NODE_def SafeMap_size_def SafeMap_new_def)
qed

section \<open>Properties\<close>



text \<open>C21: With every link open, successive calls of \<open>get_client_index\<close> go round the clients: the \<open>j\<close>-th
  call returns the start index plus \<open>j\<close> modulo the number of clients, and only the rotating index changes.\<close>

theorem pool_rotation:
  assumes "pool_inv p" "client_list p \<noteq> []" "0 \<le> sint (select_index p)" "sint (select_index p) + int k < 2 ^ 31"
    and "\<forall>c \<in> set (client_list p). link_open net c"
  shows "select_many net k p =
    Inr (map (\<lambda>j. (sint (select_index p) + int j) mod int (length (client_list p))) [0..<k],
      p\<lparr>select_index := select_index p + of_nat k\<rparr>)"
  using assms by (rule select_many_rotates)

theorem pool_rotation_witness:
  "\<exists>p p'. add_link net_ref ''127.0.0.1'' 6688 client_loop_pool_new = Inr p \<and> select_many net_ref 3 p = Inr ([0, 0, 0], p')"
proof -
  obtain p c where p: "add_link net_ref ''127.0.0.1'' 6688 client_loop_pool_new = Inr p" "pool_inv p" "client_list p = [c]"
      "link_open net_ref c" "select_index p = 0" using one_link_pool by metis
  then show ?thesis using pool_rotation [of p 3 net_ref] by (auto simp: upt_rec)
qed

text \<open>C19: A message written to a pool with open links is registered with the client the handle names: the
  handle holds the next index of the rotation and the client's fresh request id, and a read with that
  handle finds the receive slot of the message.\<close>

theorem pool_write_then_find:
  assumes p: "pool_inv p" "link_key addr prt \<in> link_set_poll p" "0 \<le> sint (select_index p)" "\<forall>c \<in> set (client_list p). link_open net c"
    and msg: "sint n = int (length bd)" "int (length bd) + 20 < 2 ^ 31" "take (length bd) d = map Some bd" "0 \<in> set bd"
  defines "i \<equiv> sint (select_index p) mod int (length (client_list p))"
  shows "\<exists>ch p' r. pool_write net addr prt d n p = Inr (ch, p') \<and> sint (handle_i ch) = i
    \<and> handle_r ch = msg_index (pc_client (client_list p ! nat i)) \<and> pool_read_find ch p' = Inr (Some r, p')"
  using assms(1-8) unfolding i_def by (rule pool_write_open)

theorem pool_write_then_find_witness:
  "\<exists>p ch p' r. add_link net_ref ''127.0.0.1'' 6688 client_loop_pool_new = Inr p
    \<and> pool_write net_ref ''127.0.0.1'' 6688 [Some 72, Some 0] 2 p = Inr (ch, p')
    \<and> handle_r ch = 1 \<and> pool_read_find ch p' = Inr (Some r, p')"
proof -
  obtain p c where p: "add_link net_ref ''127.0.0.1'' 6688 client_loop_pool_new = Inr p" "pool_inv p" "client_list p = [c]"
      "link_open net_ref c" "select_index p = 0" "link_set_poll p = {link_key ''127.0.0.1'' 6688}" "msg_index (pc_client c) = 1"
    using one_link_pool by metis
  then show ?thesis
    using pool_write_then_find [of p "''127.0.0.1''" 6688 net_ref 2 "[72, 0]" "[Some 72, Some 0]"] by auto
qed

text \<open>C25: \<open>BKDR_hash\<close> is the polynomial with base 131 over the signed character values, reduced modulo
  2 to the 32 and read as an \<open>int\<close>.\<close>

theorem BKDR_hash_is_polynomial: "BKDR_hash str = word_of_int (hash_poly str)"
  by (rule BKDR_hash_poly)

text \<open>C40: Different servers share a key: the port is added to the hash of the address, so the next port of
  one address collides with the next address at the first port. Once \<open>127.0.0.1:6689\<close> is linked,
  \<open>add_link\<close> makes no link to \<open>127.0.0.2:6688\<close>.\<close>

theorem link_keys_collide:
  "link_key ''127.0.0.1'' 6689 = link_key ''127.0.0.2'' 6688 \<and>
   (link_key ''127.0.0.1'' 6689 \<in> link_set_poll p \<longrightarrow> add_link net ''127.0.0.2'' 6688 p = Inr p)"
proof -
  have "BKDR_hash ''127.0.0.2'' = BKDR_hash ''127.0.0.1'' + 1"
    by (simp add: BKDR_hash_def char_int_def)
  then have "link_key ''127.0.0.1'' 6689 = link_key ''127.0.0.2'' 6688" by (simp add: link_key_def)
  then show ?thesis using known_link [of "''127.0.0.2''" 6688 p net] by simp
qed

theorem link_keys_collide_witness:
  "add_link net_ref ''127.0.0.2'' 6688 (client_loop_pool_new\<lparr>link_set_poll := {link_key ''127.0.0.1'' 6689}\<rparr>) =
     Inr (client_loop_pool_new\<lparr>link_set_poll := {link_key ''127.0.0.1'' 6689}\<rparr>)"
proof -
  let ?p = "client_loop_pool_new\<lparr>link_set_poll := {link_key ''127.0.0.1'' 6689}\<rparr>"
  have "link_key ''127.0.0.1'' 6689 \<in> link_set_poll ?p" by simp
  with link_keys_collide [of ?p net_ref] show ?thesis by blast
qed

text \<open>The limit is off by one: with as many clients as \<open>client_max_num\<close> allows, a new address still
  gets a link.\<close>

lemma add_link_exceeds_limit:
  assumes "pool_inv p" "int (length (client_list p)) = sint (client_max_num p)" "link_key addr prt \<notin> link_set_poll p"
    and "addr_ok net addr"
  shows "\<exists>p'. add_link net addr prt p = Inr p' \<and> sint (client_max_num p') < int (length (client_list p'))"
proof -
  obtain c where "pool_client_new net addr prt = Inr c"
    using assms(4)
    by (auto simp: pool_client_new_def client_loop_new_def do_connect_def sock_async_def init_socket_def client_loop_init_def)
  then show ?thesis using assms(2,3) pool_inv_counter(1) [OF assms(1)] by (simp add: add_link_def)
qed

text \<open>\<open>get_client_index\<close> never reports that no link is open: once the pool has a client it returns an
  index of the list, though every link it tried was closed, so \<open>write\<close> queues its message there.\<close>

lemma index_without_open_link:
  assumes "pool_inv p" "client_list p \<noteq> []" "0 \<le> sint (select_index p)"
    and "sint (select_index p) + int (length (client_list p)) < 2 ^ 31" "\<forall>c \<in> set (client_list p). link_usable net c"
  shows "\<exists>i p'. get_client_index net p = Inr (i, p') \<and> 0 \<le> i \<and> i < int (length (client_list p))"
proof -
  obtain k where k: "length (client_list p) = Suc k" using assms(2) by (cases "client_list p") auto
  then have "nat (sint (cur_client_index p)) = Suc k" using pool_inv_counter(1) [OF assms(1)] by simp
  then show ?thesis
    using select_loop_usable [OF assms(1-3), of k net "- 1"] assms(4,5) k
    by (auto simp: get_client_index_def simp del: select_loop.simps)
qed



text \<open>C38: Destroying links leaves the counter of links alone. After \<open>destroy(ip, port)\<close> the selection
  that comes to the last position of the old list, and after \<open>destroy()\<close> the very next selection,
  indexes past the end of the list.\<close>

theorem destroy_leaves_counter:
  assumes "pool_inv p" "link_key addr prt \<in> link_set_poll p" "0 \<le> sint (select_index p)"
  shows "(sint (select_index p) mod int (length (client_list p)) = int (length (client_list p)) - 1 \<longrightarrow>
       get_client_index net (pool_destroy_link addr prt p) = Inl Out_Of_Bounds)
     \<and> (pool_destroy net p = Some (Inr p') \<longrightarrow> get_client_index net p' = Inl Out_Of_Bounds)"
proof -
  let ?n = "int (length (client_list p))"
  have n: "sint (cur_client_index p) = ?n" "0 < ?n"
    using pool_inv_counter(1) [OF assms(1)] assms(1,2) by (auto simp: pool_inv_def)
  have m: "sint (select_index p) smod ?n = sint (select_index p) mod ?n" using assms(3) n(2) by (rule smod_nonneg)
  note d = destroy_link_shorter [OF assms(1,2)]
  have "get_client_index net (pool_destroy_link addr prt p) = Inl Out_Of_Bounds"
    if "sint (select_index p) mod ?n = ?n - 1"
    using n m d that by (intro select_out_of_range) auto
  moreover have "get_client_index net p' = Inl Out_Of_Bounds" if "pool_destroy net p = Some (Inr p')"
    using n that by (intro select_out_of_range) (auto simp: pool_destroy_def fault_simps)
  ultimately show ?thesis by blast
qed

theorem destroy_leaves_counter_witness:
  "\<exists>p p'. add_link net_ref ''127.0.0.1'' 6688 client_loop_pool_new = Inr p \<and> pool_destroy net_ref p = Some (Inr p')
    \<and> get_client_index net_ref p' = Inl Out_Of_Bounds
    \<and> get_client_index net_ref (pool_destroy_link ''127.0.0.1'' 6688 p) = Inl Out_Of_Bounds"
proof -
  obtain p c where p: "add_link net_ref ''127.0.0.1'' 6688 client_loop_pool_new = Inr p" "pool_inv p" "client_list p = [c]"
      "link_open net_ref c" "select_index p = 0" "link_set_poll p = {link_key ''127.0.0.1'' 6688}"
      "SafeQueue_size (write_msg_queue (pc_client c)) = 0" "SafeMap_size (recv_msg_map (pc_client c)) = 0"
      "clietn_status (pc_client c) = CT_CONN"
    using one_link_pool by metis
  obtain h where h: "socket (pc_client c) = Some h" using p(4) by (auto simp: link_open_def)
  have "\<exists>s. client_destroy net_ref (pc_client c) = Some (Inr s)"
    using p(7-9) h by (simp add: client_destroy_def do_close_def sock_call_def net_ref_def)
  then have d: "pool_destroy net_ref p = Some (Inr (p\<lparr>client_list := []\<rparr>))"
    using p(3) by (auto simp: pool_destroy_def pool_client_destroy_def)
  then show ?thesis
    using destroy_leaves_counter [of p "''127.0.0.1''" 6688 net_ref "p\<lparr>client_list := []\<rparr>"] p(1-3,5,6)
    by (intro exI [of _ p] exI [of _ "p\<lparr>client_list := []\<rparr>"]) simp
qed

end
