(* ===== verification/Mains.thy ===== *)
theory Mains
  imports ClientPool Server
begin

text \<open>
  The three programs: \<open>src/server/server.cpp\<close>, \<open>src/client_loop/client.cpp\<close> and
  \<open>src/client_loop_pool/client_pool.cpp\<close>. Their arguments, the callback of the server, and what one
  round of each message loop does with its line buffer and its client; between the rounds the event
  loops of the other theories run. What the programs print is returned where it depends on a buffer.
  Lemmas: the server's callback copies more than its text holds, so every well-formed request makes the
  server read out of bounds; the line buffer of the pool test always holds the message of its round.
\<close>

section \<open>Library functions\<close>

definition str_bytes :: "string \<Rightarrow> byte list" where
  "str_bytes s = map (\<lambda>c. of_nat (of_char c)) s"

text \<open>\<open>c_str()\<close>: the characters and a NUL.\<close>

definition cells_of :: "string \<Rightarrow> cell list" where
  "cells_of s = map Some (str_bytes s @ [0])"

definition is_space :: "char \<Rightarrow> bool" where
  "is_space c \<longleftrightarrow> of_char c = (32 :: nat) \<or> 9 \<le> (of_char c :: nat) \<and> of_char c \<le> (13 :: nat)"

definition is_digit :: "char \<Rightarrow> bool" where
  "is_digit c \<longleftrightarrow> 48 \<le> (of_char c :: nat) \<and> of_char c \<le> (57 :: nat)"

text \<open>\<open>atoi\<close> as \<open>(int) strtol(s, NULL, 10)\<close> with a 64-bit \<open>long\<close>.\<close>

definition atoi :: "string \<Rightarrow> cint" where
  "atoi s =
     (let t = dropWhile is_space s;
          neg = (take 1 t = ''-'');
          u = (if take 1 t \<in> {''-'', ''+''} then tl t else t);
          v = int (dec_value (takeWhile is_digit u))
      in word_of_int (max (- (2 ^ 63)) (min (2 ^ 63 - 1) (if neg then - v else v))))"

text \<open>
  \<open>std::cin.getline(line, n)\<close> on the next line of the input: it is stored with a NUL; a line that does
  not fit sets the fail bit, which ends the loop (\<^term>\<open>None\<close>).
\<close>

definition getline :: "nat \<Rightarrow> byte list \<Rightarrow> cell list \<Rightarrow> cell list option" where
  "getline n input line =
     (if length input < n then Some (map Some (input @ [0]) @ drop (Suc (length input)) line) else None)"

section \<open>server.cpp\<close>

definition call_p :: callback_fun where
  "call_p msg msg_len =
     rbind (cstr_at msg) (\<lambda>_.
     rbind (CallStruct_set_data (CallStruct_new 14) (cells_of ''hello client'')) (\<lambda>res.
     Inr (Some res)))"

text \<open>\<open>bind_ok\<close>: the acceptor can be bound, given the ports bound before; otherwise its constructor throws.\<close>

type_synonym port_num = "16 word"

fun server_main_loop ::
    "(port_num list \<Rightarrow> port_num \<Rightarrow> bool) \<Rightarrow> string list \<Rightarrow> (port_num \<times> link_server) list \<Rightarrow> (port_num \<times> link_server) list res" where
  "server_main_loop bind_ok [] servers = Inr servers"
| "server_main_loop bind_ok (arg # args) servers =
     (let endpoint = ucast (atoi arg)
      in rbind (check (bind_ok (map fst servers) endpoint) Exception_Thrown) (\<lambda>_.
         server_main_loop bind_ok args
           (servers @ [(endpoint, start_accept (server_register_callback (Some call_p) link_server_new))])))"

text \<open>\<^term>\<open>None\<close>: the usage text and exit status 1.\<close>

definition server_main :: "(port_num list \<Rightarrow> port_num \<Rightarrow> bool) \<Rightarrow> string list \<Rightarrow> (port_num \<times> link_server) list res option" where
  "server_main bind_ok argv = (if length argv < 2 then None else Some (server_main_loop bind_ok (tl argv) []))"

section \<open>client.cpp\<close>

text \<open>The mode, the address and the port; \<^term>\<open>None\<close> is \<open>exit(1)\<close>.\<close>

definition client_main_args :: "string list \<Rightarrow> (client_send_queue \<times> string \<times> cint) option" where
  "client_main_args argv =
     (let argc = length argv
      in if argc < 2 then None
         else
           let q = (if take 1 (argv ! 1) = ''y'' \<or> take 1 (argv ! 1) = ''Y'' then CSQ_ON else CSQ_OFF)
           in if argc = 3 then Some (q, ''127.0.0.1'', atoi (argv ! 2))
              else if argc = 4 then Some (q, argv ! 2, atoi (argv ! 3))
              else None)"

definition client_main_start :: "net \<Rightarrow> string list \<Rightarrow> client_loop res option" where
  "client_main_start net argv = map_option (\<lambda>(q, addr, prt). client_loop_new net addr prt q) (client_main_args argv)"

datatype line_result =
    Line_Skipped                      \<comment> \<open>the connection is closed\<close>
  | Line_Exit
  | Line_Sent cint "nat option"       \<comment> \<open>the request id and what \<open>read\<close> looked up\<close>

definition client_main_line :: "net \<Rightarrow> cell list \<Rightarrow> client_loop \<Rightarrow> (line_result \<times> client_loop) res" where
  "client_main_line net line s =
     rbind (client_is_open net s) (\<lambda>(op, s1).
     if \<not> op then Inr (Line_Skipped, s1)
     else
       rbind (cstr_at line) (\<lambda>str.
       if str = str_bytes ''exit'' then Inr (Line_Exit, s1)
       else
         rbind (client_write line (of_nat (length str) + 1) 80 s1) (\<lambda>(reqid, s2).
         rbind (client_read_find reqid s2) (\<lambda>(r, s3).
         Inr (Line_Sent reqid r, s3)))))"

text \<open>What is printed once \<open>read\<close> has returned.\<close>

datatype read_report =
    Read_Error
  | Read_Status client_status_type
  | Read_Ok "byte list" cint

definition client_main_report :: "nat option \<Rightarrow> client_loop \<Rightarrow> (read_report \<times> client_loop) res" where
  "client_main_report recvRes s =
     (case recvRes of
        None \<Rightarrow> Inr (Read_Error, s)
      | Some r \<Rightarrow>
          rbind (obj_at s (Some r)) (\<lambda>(_, m).
          if RPCStruct_get_status m \<noteq> CT_READ_OK then Inr (Read_Status (RPCStruct_get_status m), s)
          else
            rbind (RPCStruct_body m) (\<lambda>(p, m').
            rbind (cstr_at p) (\<lambda>str.
            Inr (Read_Ok str (body_size (head_info m')), put_obj r m' s)))))"

definition client_main_end :: "client_loop \<Rightarrow> client_loop" where
  "client_main_end s = close s"

section \<open>client\_pool.cpp\<close>

datatype pool_mode = Single_Test | Pthread_Test | Opt_Error

definition pool_main_args :: "string list \<Rightarrow> (pool_mode \<times> cint \<times> cint list) option" where
  "pool_main_args argv =
     (if length argv < 4 then None
      else
        let c = take 1 (argv ! 1);
            mode = (if c = ''s'' \<or> c = ''S'' then Single_Test else if c = ''m'' \<or> c = ''M'' then Pthread_Test else Opt_Error)
        in Some (mode, atoi (argv ! 2), map atoi (drop 3 argv)))"

text \<open>One \<open>c.write\<close>: the port rotates through the list, the length is that of the text in the buffer.\<close>

definition pool_main_send :: "net \<Rightarrow> cint list \<Rightarrow> nat \<Rightarrow> cell list \<Rightarrow> client_loop_pool \<Rightarrow> (clientHandle \<times> client_loop_pool) res" where
  "pool_main_send net port_list port_index line p =
     rbind (cstr_at line) (\<lambda>str.
     pool_write net ''127.0.0.1'' (port_list ! (port_index mod length port_list)) line (of_nat (length str) + 1) p)"

definition pool_main_report :: "cell list option \<Rightarrow> byte list option res" where
  "pool_main_report recv = (case recv of None \<Rightarrow> Inr None | Some b \<Rightarrow> rbind (cstr_at b) (\<lambda>str. Inr (Some str)))"

text \<open>A round of \<open>single_test\<close>; \<^term>\<open>None\<close> ends the loop.\<close>

definition single_test_round ::
    "net \<Rightarrow> cint list \<Rightarrow> byte list \<Rightarrow> nat \<Rightarrow> cell list \<Rightarrow> client_loop_pool \<Rightarrow> (clientHandle \<times> cell list \<times> client_loop_pool) res option" where
  "single_test_round net port_list input port_index line p =
     (case getline 1024 input line of
        None \<Rightarrow> None
      | Some line' \<Rightarrow> Some (rbind (pool_main_send net port_list port_index line' p) (\<lambda>(h, p'). Inr (h, line', p'))))"

definition test_msg :: "int \<Rightarrow> nat \<Rightarrow> string" where
  "test_msg pid i = to_string pid @ '' hello server '' @ to_string (int i)"

text \<open>The text is copied without its NUL.\<close>

definition test_fill :: "int \<Rightarrow> nat \<Rightarrow> cell list \<Rightarrow> cell list res" where
  "test_fill pid i line = c_memcpy line 0 (cells_of (test_msg pid i)) (length (test_msg pid i))"

definition test_line_new :: "cell list" where
  "test_line_new = replicate 1024 (Some 0)"

definition test_fun_round ::
    "net \<Rightarrow> cint list \<Rightarrow> int \<Rightarrow> nat \<Rightarrow> cell list \<Rightarrow> client_loop_pool \<Rightarrow> (clientHandle \<times> cell list \<times> client_loop_pool) res" where
  "test_fun_round net port_list pid i line p =
     rbind (test_fill pid i line) (\<lambda>line'.
     rbind (pool_main_send net port_list i line' p) (\<lambda>(h, p'). Inr (h, line', p')))"

text \<open>\<open>pthread_test\<close> joins its threads and destroys the pool; so does the signal handler.\<close>

definition pthread_test_end :: "net \<Rightarrow> client_loop_pool \<Rightarrow> client_loop_pool res option" where
  "pthread_test_end net p = pool_destroy net p"

definition signal_stop :: "net \<Rightarrow> client_loop_pool \<Rightarrow> client_loop_pool res option" where
  "signal_stop net p = pool_destroy net p"

section \<open>The callback of the server\<close>

lemma call_p_faults: "0 \<in> set bd \<Longrightarrow> call_p (map Some bd @ rest) n = Inl Out_Of_Bounds"
  by (simp add: call_p_def cstr_at_terminated CallStruct_set_data_def CallStruct_new_def cells_of_def str_bytes_def
      c_memcpy_def size_t_def)

lemma server_main_loop_servers:
  "server_main_loop bind_ok args servers = Inr servers' \<Longrightarrow>
     \<exists>ports. servers' = servers @ map (\<lambda>p. (p, start_accept (server_register_callback (Some call_p) link_server_new))) ports"
proof (induction args arbitrary: servers)
  case (Cons arg args)
  from Cons.prems have "server_main_loop bind_ok args
      (servers @ [(ucast (atoi arg), start_accept (server_register_callback (Some call_p) link_server_new))]) = Inr servers'"
    by (auto simp: fault_simps Let_def)
  from Cons.IH [OF this] obtain ports where
    "servers' = servers @ map (\<lambda>p. (p, start_accept (server_register_callback (Some call_p) link_server_new))) (ucast (atoi arg) # ports)"
    by auto
  then show ?case by blast
qed simp

section \<open>The line buffer of the pool test\<close>

lemma dec_digits_length: "n < 10 ^ Suc k \<Longrightarrow> length (dec_digits n) \<le> Suc k"
proof (induction k arbitrary: n)
  case 0
  then show ?case by (simp add: dec_digits.simps)
next
  case (Suc k)
  show ?case
  proof (cases "n < 10")
    case True
    then show ?thesis by (simp add: dec_digits.simps)
  next
    case False
    have "n div 10 < 10 ^ Suc k" using Suc.prems by (simp add: less_mult_imp_div_less)
    from Suc.IH [OF this] False show ?thesis by (subst dec_digits.simps) simp
  qed
qed

lemma dec_digits_mono: "m \<le> n \<Longrightarrow> length (dec_digits m) \<le> length (dec_digits n)"
proof (induction m arbitrary: n rule: dec_digits.induct)
  case (1 m)
  have pos: "1 \<le> length (dec_digits k)" for k using dec_digits_nonempty [of k] by (cases "dec_digits k") auto
  show ?case
  proof (cases "m < 10")
    case True
    then show ?thesis using pos [of n] by (subst dec_digits.simps) simp
  next
    case False
    moreover have "m div 10 \<le> n div 10" using 1(2) by (rule div_le_mono)
    ultimately show ?thesis
      using 1(1) [OF False, of "n div 10"] 1(2) by (subst (1 2) dec_digits.simps) simp
  qed
qed

lemma dec_digits_range: "c \<in> set (dec_digits n) \<Longrightarrow> 48 \<le> (of_char c :: nat) \<and> of_char c < (58 :: nat)"
proof (induction n rule: dec_digits.induct)
  case (1 n)
  have *: "of_char (char_of (48 + k) :: char) = 48 + k" if "k < 10" for k :: nat using that by simp
  show ?case
  proof (cases "n < 10")
    case True
    then have "c = char_of (48 + n)" using "1.prems" by (subst (asm) dec_digits.simps) simp
    with * [OF True] True show ?thesis by simp
  next
    case False
    then have "c \<in> set (dec_digits (n div 10)) \<or> c = char_of (48 + n mod 10)"
      using "1.prems" by (subst (asm) dec_digits.simps) auto
    then show ?thesis
    proof
      assume "c \<in> set (dec_digits (n div 10))"
      then show ?thesis by (rule "1.IH" [OF False])
    next
      assume c: "c = char_of (48 + n mod 10)"
      have "n mod 10 < 10" by simp
      from * [OF this] c show ?thesis by simp
    qed
  qed
qed

lemma test_msg_no_nul: "0 \<le> pid \<Longrightarrow> 0 \<notin> set (str_bytes (test_msg pid i))"
proof
  assume pid: "0 \<le> pid" and "0 \<in> set (str_bytes (test_msg pid i))"
  then obtain c where c: "c \<in> set (test_msg pid i)" "(of_nat (of_char c) :: byte) = 0"
    by (auto simp: str_bytes_def)
  have "of_char c < (256 :: nat)" by simp
  then have "unat (of_nat (of_char c) :: byte) = of_char c" by (simp add: unat_of_nat)
  with c(2) have z: "of_char c = (0 :: nat)" by simp
  from c(1) pid consider "c \<in> set (dec_digits (nat pid))" | "c \<in> set '' hello server ''" | "c \<in> set (dec_digits i)"
    by (auto simp: test_msg_def to_string_def)
  then show False
  proof cases
    case 2
    with z show False by auto
  qed (use z dec_digits_range [of c] in fastforce)+
qed

lemma test_msg_length:
  assumes "0 \<le> pid" "pid < 2 ^ 31"
  shows "i < 2 ^ 31 \<Longrightarrow> length (test_msg pid i) < 1024" "i \<le> j \<Longrightarrow> length (test_msg pid i) \<le> length (test_msg pid j)"
proof -
  have small: "length (dec_digits n) \<le> 10" if "n < 2 ^ 31" for n
    using dec_digits_length [of n 9] that by simp
  have "length (dec_digits (nat pid)) \<le> 10" using assms by (intro small) (simp add: nat_less_iff)
  then show "i < 2 ^ 31 \<Longrightarrow> length (test_msg pid i) < 1024"
    using small [of i] assms(1) by (simp add: test_msg_def to_string_def)
  show "i \<le> j \<Longrightarrow> length (test_msg pid i) \<le> length (test_msg pid j)"
    using dec_digits_mono [of i j] assms(1) by (simp add: test_msg_def to_string_def)
qed

text \<open>The buffer after so many rounds.\<close>

fun test_lines :: "int \<Rightarrow> nat \<Rightarrow> cell list res" where
  "test_lines pid 0 = Inr test_line_new"
| "test_lines pid (Suc i) = rbind (test_lines pid i) (test_fill pid i)"

lemma test_fill_line:
  assumes "0 \<le> pid" "pid < 2 ^ 31" "i < 2 ^ 31" "k \<le> length (test_msg pid i)" "length bs = k"
  shows "test_fill pid i (map Some bs @ replicate (1024 - k) (Some 0)) =
    Inr (map Some (str_bytes (test_msg pid i)) @ replicate (1024 - length (test_msg pid i)) (Some 0))"
  using assms test_msg_length(1) [OF assms(1-3)]
  by (simp add: test_fill_def c_memcpy_def cells_of_def str_bytes_def)

lemma test_lines_state:
  assumes "0 \<le> pid" "pid < 2 ^ 31"
  shows "i < 2 ^ 31 \<Longrightarrow> test_lines pid (Suc i) =
    Inr (map Some (str_bytes (test_msg pid i)) @ replicate (1024 - length (test_msg pid i)) (Some 0))"
proof (induction i)
  case 0
  then show ?case using test_fill_line [OF assms, of 0 0 "[]"] by (simp add: test_line_new_def)
next
  case (Suc i)
  have "length (test_msg pid i) \<le> length (test_msg pid (Suc i))" using test_msg_length(2) [OF assms] by simp
  moreover have "length (str_bytes (test_msg pid i)) = length (test_msg pid i)" by (simp add: str_bytes_def)
  moreover have "test_lines pid (Suc (Suc i)) = rbind (test_lines pid (Suc i)) (test_fill pid (Suc i))" by simp
  ultimately show ?case
    using Suc.IH Suc.prems test_fill_line [OF assms Suc.prems] by (simp del: test_lines.simps)
qed

text \<open>Although the text is copied without its NUL over the one before, the buffer holds exactly the message of the
  round: a message is never shorter than its predecessor.\<close>

lemma line_holds_message:
  assumes "0 \<le> pid" "pid < 2 ^ 31" "i < 2 ^ 31"
  shows "\<exists>line. test_lines pid (Suc i) = Inr line \<and> cstr_at line = Inr (str_bytes (test_msg pid i))"
proof -
  let ?b = "str_bytes (test_msg pid i)" and ?z = "replicate (1024 - length (test_msg pid i)) (Some 0 :: cell)"
  obtain k where "1024 - length (test_msg pid i) = Suc k"
    using test_msg_length(1) [OF assms] by (metis Suc_diff_Suc)
  then have "cstr_at (map Some ?b @ ?z) = Inr ?b"
    by (simp add: cstr_at_unterminated [OF test_msg_no_nul [OF assms(1)]])
  then show ?thesis using test_lines_state [OF assms] by (intro exI [of _ "map Some ?b @ ?z"]) (simp del: test_lines.simps)
qed

section \<open>Properties\<close>

text \<open>C30: Every server that \<open>server.cpp\<close> starts reads past the end of a string when it answers: the registered callback
  copies 14 bytes from a text of 12 characters and a NUL, so the session of an accepted connection
  faults on the first well-formed request, whatever it contains.\<close>

theorem call_p_overread:
  assumes "server_main bind_ok argv = Some (Inr servers)" "(prt, v) \<in> set servers" "session \<in> set (accepting v)"
    and "valid_request h mt bd"
  shows "session_run [(True, 0, Done (RPCStructHead_data h)), (True, 0, Done (mt @ bd))] (session_start session) =
    Inl Out_Of_Bounds"
proof -
  obtain ports where "servers = map (\<lambda>p. (p, start_accept (server_register_callback (Some call_p) link_server_new))) ports"
    using server_main_loop_servers [of bind_ok "tl argv" "[]" servers] assms(1)
    by (auto simp: server_main_def split: if_splits)
  with assms(2,3) have s: "session = session_register_callback (Some call_p) link_session_new"
    by (auto simp: start_accept_def server_register_callback_def link_server_new_def)
  then have ops: "in_flight (session_start session) = [] @ [Read_Head]" and cf: "call_fun (session_start session) = Some call_p"
    by (simp_all add: session_start_def session_do_read_def session_register_callback_def link_session_new_def)
  obtain m where m: "frame m mt bd" "session_run [(True, length ([] :: session_op list), Done (RPCStructHead_data h)),
      (True, length ([] :: session_op list), Done (mt @ bd))] (session_start session) =
       rbind (reply m ((session_start session)\<lparr>in_flight := []\<rparr>)) (\<lambda>s'. Inr (session_start s'))"
    using request_received [OF ops assms(4)] .
  obtain rest where "RPCStruct_body m = Inr (map Some bd @ rest, m)" using frame_body [OF m(1)] ..
  moreover have "0 \<in> set bd" using assms(4) by (simp add: valid_request_def)
  ultimately have "reply m ((session_start session)\<lparr>in_flight := []\<rparr>) = Inl Out_Of_Bounds"
    using cf by (simp add: reply_def call_p_faults)
  with m(2) show ?thesis by simp
qed

theorem call_p_overread_witness:
  "\<exists>v session. server_main (\<lambda>_ _. True) [''server'', ''6688''] = Some (Inr [(6688, v)]) \<and> accepting v = [session]
    \<and> session_run [(True, 0, Done (RPCStructHead_data \<lparr>req_id = 1, body_size = 1, meta_size = 0\<rparr>)), (True, 0, Done [0])]
        (session_start session) = Inl Out_Of_Bounds"
proof -
  let ?v = "start_accept (server_register_callback (Some call_p) link_server_new)"
  let ?s = "session_register_callback (Some call_p) link_session_new"
  have "atoi ''6688'' = 6688" by (simp add: atoi_def is_space_def is_digit_def dec_value_def)
  then have m: "server_main (\<lambda>_ _. True) [''server'', ''6688''] = Some (Inr [(6688, ?v)])" by (simp add: server_main_def)
  have a: "accepting ?v = [?s]" by (simp add: start_accept_def server_register_callback_def link_server_new_def)
  have "valid_request \<lparr>req_id = 1, body_size = 1, meta_size = 0\<rparr> [] [0]" by (simp add: valid_request_def)
  from call_p_overread [OF m _ _ this, of 6688 ?v ?s] m a show ?thesis by (intro exI [of _ ?v] exI [of _ ?s]) simp
qed

end
