(* ===== verification/Programs.thy ===== *)
theory Programs
  imports Mains
begin

text \<open>
  The three programs as a whole: \<open>main\<close> of \<open>src/server/server.cpp\<close> around its event loop, the input loop of
  \<open>src/client_loop/client.cpp\<close>, and the four threads of \<open>pthread_test\<close> in
  \<open>src/client_loop_pool/client_pool.cpp\<close> on their common pool. A blocking call is a place where a program
  stays while the event loops go on; a fault ends the run of the model, also an exception that the
  program catches to leave its loop. Lemmas: what every state of the server program looks like and how
  one lost peer ends it; what the pool test's threads rely on between their calls.
\<close>

section \<open>The server program\<close>

text \<open>An exception that leaves a handler ends \<open>run()\<close> and is caught in \<open>main\<close>, which then returns.\<close>

datatype server_proc =
    Running "(port_num \<times> link_server) list"
  | Exited
  | Stopped fault

definition handled :: "'a res \<Rightarrow> ('a \<Rightarrow> server_proc) \<Rightarrow> server_proc" where
  "handled r f = (case r of Inr a \<Rightarrow> f a | Inl e \<Rightarrow> if e = Exception_Thrown then Exited else Stopped e)"

inductive server_proc_step :: "server_proc \<Rightarrow> server_proc \<Rightarrow> bool" where
  proc_accept: "accepting v = as @ session # bs \<Longrightarrow>
     server_proc_step (Running (xs @ (prt, v) # ys))
       (Running (xs @ (prt, handle_accept session error (v\<lparr>accepting := as @ bs\<rparr>)) # ys))"
| proc_session: "sessions v = as @ s # bs \<Longrightarrow> i < length (in_flight s) \<Longrightarrow> op_completes (in_flight s ! i) c \<Longrightarrow>
     server_proc_step (Running (xs @ (prt, v) # ys))
       (handled (session_complete ep i c s) (\<lambda>s'. Running (xs @ (prt, v\<lparr>sessions := as @ s' # bs\<rparr>) # ys)))"

inductive_cases server_proc_stepE: "server_proc_step (Running vs) p"
inductive_cases server_proc_exitedE [elim!]: "server_proc_step Exited p"

definition server_proc_begins :: "(port_num list \<Rightarrow> port_num \<Rightarrow> bool) \<Rightarrow> string list \<Rightarrow> server_proc \<Rightarrow> bool" where
  "server_proc_begins bind_ok argv p \<longleftrightarrow> (\<exists>r. server_main bind_ok argv = Some r \<and> p = handled r Running)"

section \<open>The client program\<close>

datatype cp_phase =
    At_Input
  | Reading nat      \<comment> \<open>inside \<open>read\<close>, polling this object\<close>
  | Ended

record client_prog =
  cp_input :: "byte list list"
  cp_line :: "cell list"
  cp_phase :: cp_phase
  cp_client :: client_loop
  cp_out :: "read_report list"

definition client_prog_new :: "byte list list \<Rightarrow> client_loop \<Rightarrow> client_prog" where
  "client_prog_new input c =
     \<lparr>cp_input = input, cp_line = replicate 1024 None, cp_phase = At_Input, cp_client = c, cp_out = []\<rparr>"

definition cp_end :: "client_prog \<Rightarrow> client_prog" where
  "cp_end p = p\<lparr>cp_phase := Ended, cp_client := client_main_end (cp_client p)\<rparr>"

text \<open>What one round of the loop leaves behind, up to the wait in \<open>read\<close>.\<close>

fun cp_sent :: "line_result \<Rightarrow> client_prog \<Rightarrow> client_prog" where
  "cp_sent Line_Skipped p = p"
| "cp_sent Line_Exit p = cp_end p"
| "cp_sent (Line_Sent reqid None) p = p\<lparr>cp_out := cp_out p @ [Read_Error]\<rparr>"
| "cp_sent (Line_Sent reqid (Some r)) p = p\<lparr>cp_phase := Reading r\<rparr>"

definition client_prog_main :: "net \<Rightarrow> client_prog \<Rightarrow> client_prog res" where
  "client_prog_main net p =
     (case cp_phase p of
        Ended \<Rightarrow> Inr p
      | Reading r \<Rightarrow>
          rbind (client_read_poll r (cp_client p)) (\<lambda>(fin, c).
          if fin then
            rbind (client_main_report (Some r) c) (\<lambda>(rep, c').
            Inr (p\<lparr>cp_phase := At_Input, cp_client := c', cp_out := cp_out p @ [rep]\<rparr>))
          else Inr (p\<lparr>cp_client := c\<rparr>))
      | At_Input \<Rightarrow>
          (case cp_input p of
             [] \<Rightarrow> Inr (cp_end p)
           | input # rest \<Rightarrow>
               (case getline 1024 input (cp_line p) of
                  None \<Rightarrow> Inr (cp_end (p\<lparr>cp_input := rest\<rparr>))
                | Some line \<Rightarrow>
                    rbind (client_main_line net line (cp_client p)) (\<lambda>(res, c).
                    Inr (cp_sent res (p\<lparr>cp_input := rest, cp_line := line, cp_client := c\<rparr>))))))"

section \<open>The pool test\<close>

datatype tt_phase =
    To_Send
  | To_Find clientHandle
  | To_Poll clientHandle nat
  | Left_Loop

record test_thread =
  tt_pid :: int
  tt_i :: nat
  tt_line :: "cell list"
  tt_phase :: tt_phase

record pool_prog =
  pp_threads :: "test_thread list"
  pp_pool :: client_loop_pool
  pp_out :: "byte list option list"

definition test_thread_new :: "int \<Rightarrow> test_thread" where
  "test_thread_new pid = \<lparr>tt_pid = pid, tt_i = 0, tt_line = test_line_new, tt_phase = To_Send\<rparr>"

text \<open>\<open>pthreadNum\<close> threads on the one pool of the process.\<close>

definition pthread_test_start :: pool_prog where
  "pthread_test_start = \<lparr>pp_threads = map test_thread_new [0..3], pp_pool = client_loop_pool_new, pp_out = []\<rparr>"

text \<open>The end of a round: the result is printed and the loop counter goes up.\<close>

definition round_done :: "byte list option \<Rightarrow> test_thread \<Rightarrow> client_loop_pool \<Rightarrow> byte list option list \<Rightarrow>
    (test_thread \<times> client_loop_pool \<times> byte list option list)" where
  "round_done str th p out = (th\<lparr>tt_i := Suc (tt_i th), tt_phase := To_Send\<rparr>, p, out @ [str])"

definition test_fun_step :: "net \<Rightarrow> cint list \<Rightarrow> cint \<Rightarrow> test_thread \<Rightarrow> client_loop_pool \<Rightarrow> byte list option list \<Rightarrow>
    (test_thread \<times> client_loop_pool \<times> byte list option list) res" where
  "test_fun_step net port_list sendTime th p out =
     (case tt_phase th of
        To_Send \<Rightarrow>
          if int (tt_i th) < sint sendTime then
            rbind (test_fun_round net port_list (tt_pid th) (tt_i th) (tt_line th) p) (\<lambda>(h, line, p').
            Inr (th\<lparr>tt_line := line, tt_phase := To_Find h\<rparr>, p', out))
          else Inr (th\<lparr>tt_phase := Left_Loop\<rparr>, p, out)
      | To_Find h \<Rightarrow>
          rbind (pool_read_find h p) (\<lambda>(res, p').
          case res of
            None \<Rightarrow> Inr (round_done None th p' out)
          | Some r \<Rightarrow> Inr (th\<lparr>tt_phase := To_Poll h r\<rparr>, p', out))
      | To_Poll h r \<Rightarrow>
          rbind (pool_read_poll h r p) (\<lambda>(res, p').
          case res of
            None \<Rightarrow> Inr (th, p', out)
          | Some recv \<Rightarrow> rbind (pool_main_report recv) (\<lambda>str. Inr (round_done str th p' out)))
      | Left_Loop \<Rightarrow> Inr (th, p, out))"

text \<open>Any thread, or the event loop of any client of the pool.\<close>

inductive pool_prog_step :: "net \<Rightarrow> cint list \<Rightarrow> cint \<Rightarrow> pool_prog res \<Rightarrow> pool_prog res \<Rightarrow> bool" for net port_list sendTime where
  prog_thread: "t < length (pp_threads g) \<Longrightarrow>
     pool_prog_step net port_list sendTime (Inr g)
       (rbind (test_fun_step net port_list sendTime (pp_threads g ! t) (pp_pool g) (pp_out g)) (\<lambda>(th, p, out).
        Inr (g\<lparr>pp_threads := (pp_threads g)[t := th], pp_pool := p, pp_out := out\<rparr>)))"
| prog_client: "client_at i (pp_pool g) = Inr c \<Longrightarrow> client_step net True (Inr (pc_client c)) r \<Longrightarrow>
     pool_prog_step net port_list sendTime (Inr g)
       (rbind r (\<lambda>s. Inr (g\<lparr>pp_pool := put_client i (c\<lparr>pc_client := s\<rparr>) (pp_pool g)\<rparr>)))"

inductive_cases pool_prog_stepE: "pool_prog_step net port_list sendTime r r'"

text \<open>The interactive test: one thread, its lines from the input, its ports in turn.\<close>

record single_prog =
  sg_input :: "byte list list"
  sg_index :: nat
  sg_line :: "cell list"
  sg_phase :: tt_phase
  sg_pool :: client_loop_pool
  sg_out :: "byte list option list"

definition single_prog_new :: "byte list list \<Rightarrow> client_loop_pool \<Rightarrow> single_prog" where
  "single_prog_new input p =
     \<lparr>sg_input = input, sg_index = 0, sg_line = replicate 1024 None, sg_phase = To_Send, sg_pool = p, sg_out = []\<rparr>"

definition single_test_step :: "net \<Rightarrow> cint list \<Rightarrow> single_prog \<Rightarrow> single_prog res" where
  "single_test_step net port_list g =
     (case sg_phase g of
        To_Send \<Rightarrow>
          (case sg_input g of
             [] \<Rightarrow> Inr (g\<lparr>sg_phase := Left_Loop\<rparr>)
           | input # rest \<Rightarrow>
               (case single_test_round net port_list input (sg_index g) (sg_line g) (sg_pool g) of
                  None \<Rightarrow> Inr (g\<lparr>sg_input := rest, sg_phase := Left_Loop\<rparr>)
                | Some r \<Rightarrow> rbind r (\<lambda>(h, line, p).
                    Inr (g\<lparr>sg_input := rest, sg_index := Suc (sg_index g), sg_line := line, sg_phase := To_Find h, sg_pool := p\<rparr>))))
      | To_Find h \<Rightarrow>
          rbind (pool_read_find h (sg_pool g)) (\<lambda>(res, p).
          case res of
            None \<Rightarrow> Inr (g\<lparr>sg_phase := To_Send, sg_pool := p, sg_out := sg_out g @ [None]\<rparr>)
          | Some r \<Rightarrow> Inr (g\<lparr>sg_phase := To_Poll h r, sg_pool := p\<rparr>))
      | To_Poll h r \<Rightarrow>
          rbind (pool_read_poll h r (sg_pool g)) (\<lambda>(res, p).
          case res of
            None \<Rightarrow> Inr (g\<lparr>sg_pool := p\<rparr>)
          | Some recv \<Rightarrow> rbind (pool_main_report recv) (\<lambda>str.
              Inr (g\<lparr>sg_phase := To_Send, sg_pool := p, sg_out := sg_out g @ [str]\<rparr>)))
      | Left_Loop \<Rightarrow> Inr g)"

section \<open>Every state of the server program\<close>

definition server_proc_inv :: "server_proc \<Rightarrow> bool" where
  "server_proc_inv p \<longleftrightarrow> (case p of Running vs \<Rightarrow> \<forall>(prt, v) \<in> set vs. server_inv v | _ \<Rightarrow> True)"

lemma server_proc_step_inv:
  assumes "server_proc_step p p'" "server_proc_inv p"
  shows "server_proc_inv p'"
  using assms
proof (induction rule: server_proc_step.induct)
  case (proc_accept v as session bs xs prt ys error)
  have "server_step v (handle_accept session error (v\<lparr>accepting := as @ bs\<rparr>))" using proc_accept(1) by (rule server_accept)
  then have "server_inv (handle_accept session error (v\<lparr>accepting := as @ bs\<rparr>))"
    using proc_accept(2) server_step_inv by (auto simp: server_proc_inv_def)
  then show ?case using proc_accept(2) by (auto simp: server_proc_inv_def)
next
  case (proc_session v as s bs i c xs prt ys ep)
  show ?case
  proof (cases "session_complete ep i c s")
    case (Inr s')
    then have "session_step (Inr s) (Inr s')" using session_event [OF proc_session(2,3), of ep] by simp
    with proc_session(1) have "server_step v (v\<lparr>sessions := as @ s' # bs\<rparr>)" by (rule server_session)
    then have "server_inv (v\<lparr>sessions := as @ s' # bs\<rparr>)" using proc_session(4) server_step_inv by (auto simp: server_proc_inv_def)
    then show ?thesis using Inr proc_session(4) by (auto simp: server_proc_inv_def handled_def)
  qed (simp add: server_proc_inv_def handled_def)
qed

interpretation server_proc_runs: inductive_invariant "server_proc_begins bind_ok argv" server_proc_step server_proc_inv for bind_ok argv
proof unfold_locales
  fix p assume "server_proc_begins bind_ok argv p"
  then obtain r where r: "server_main bind_ok argv = Some r" "p = handled r Running" by (auto simp: server_proc_begins_def)
  show "server_proc_inv p"
  proof (cases r)
    case (Inr servers)
    then obtain ports where "servers = map (\<lambda>p. (p, start_accept (server_register_callback (Some call_p) link_server_new))) ports"
      using server_main_loop_servers [of bind_ok "tl argv" "[]" servers] r(1) by (auto simp: server_main_def split: if_splits)
    moreover have "server_inv (start_accept (server_register_callback f link_server_new))" for f
      by (auto intro!: server_runs.inv_start simp: server_begins_def)
    ultimately show ?thesis using Inr r(2) by (auto simp: server_proc_inv_def handled_def)
  qed (use r(2) in \<open>simp add: server_proc_inv_def handled_def\<close>)
qed (rule server_proc_step_inv)

text \<open>An idle session whose peer sends a whole request and is gone when the handler runs.\<close>

lemma peer_gone_throws:
  assumes "session_idle s" "valid_request h mt bd"
  obtains s1 m where "session_complete True 0 (Done (RPCStructHead_data h)) s = Inr s1"
    "in_flight s1 = [Read_Msg m (length mt + length bd)]" "session_complete False 0 (Done (mt @ bd)) s1 = Inl Exception_Thrown"
proof -
  have v: "sint (meta_size h) = int (length mt)" "sint (body_size h) = int (length bd)"
      "12 + int (length mt) + max 2048 (int (length bd)) < 2 ^ 31"
    using assms(2) by (simp_all add: valid_request_def)
  obtain p r where r: "RPCStruct_recv_msg_buff (RPCStruct_ctor_head h default_pbs) = Inr (p, r)"
      "synced r" "head_info r = h" "12 + sint (meta_size h) = sint (body_offset r)"
      "size_t (RPCStruct_recv_msg_len r) = length mt + length bd"
    using fresh_receive [OF v] .
  let ?s1 = "s\<lparr>in_flight := [Read_Msg r (length mt + length bd)]\<rparr>"
  have "session_complete True 0 (Done (RPCStructHead_data h)) s = Inr ?s1"
    using assms(1) r(1,5) by (simp add: session_complete_def session_handle_read_header_def head_of_data_data session_idle_def)
  moreover obtain r' where "store_recv r (mt @ bd) = Inr r'"
    using frame_received [of r mt bd] r v by (metis (lifting))
  then have "session_complete False 0 (Done (mt @ bd)) ?s1 = Inl Exception_Thrown"
    by (simp add: session_complete_def session_handle_read_msg_def check_def)
  ultimately show thesis by (intro that [of ?s1 r]) simp_all
qed

section \<open>Every state of the pool test\<close>

text \<open>How many messages have been copied into the buffer of a thread.\<close>

fun rounds_filled :: "test_thread \<Rightarrow> nat" where
  "rounds_filled th = (case tt_phase th of To_Find h \<Rightarrow> Suc (tt_i th) | To_Poll h r \<Rightarrow> Suc (tt_i th) | _ \<Rightarrow> tt_i th)"

declare rounds_filled.simps [simp del]

definition thread_ok :: "cint \<Rightarrow> test_thread \<Rightarrow> bool" where
  "thread_ok sendTime th \<longleftrightarrow> 0 \<le> tt_pid th \<and> tt_pid th < 2 ^ 31 \<and> test_lines (tt_pid th) (rounds_filled th) = Inr (tt_line th)
     \<and> (tt_phase th \<notin> {To_Send, Left_Loop} \<longrightarrow> int (tt_i th) < sint sendTime)"

definition pool_prog_inv :: "cint \<Rightarrow> pool_prog \<Rightarrow> bool" where
  "pool_prog_inv sendTime g \<longleftrightarrow> pool_inv (pp_pool g) \<and> (\<forall>th \<in> set (pp_threads g). thread_ok sendTime th)"

lemma pool_main_send_inv: "pool_inv p \<Longrightarrow> res_inv (\<lambda>(h, p'). pool_inv p') (pool_main_send net ports k line p)"
  by (cases "cstr_at line") (simp_all add: pool_main_send_def pool_write_inv)

text \<open>Every step of the interactive test keeps the pool in order.\<close>

lemma single_test_step_inv:
  assumes p: "pool_inv (sg_pool g)" and st: "single_test_step net ports g = Inr g'"
  shows "pool_inv (sg_pool g')"
proof (cases "sg_phase g")
  case To_Send
  have "pool_inv p'" if "single_test_round net ports input k line (sg_pool g) = Some (Inr (h, line', p'))" for input k line h line' p'
    using that res_invD [OF pool_main_send_inv [OF p]] by (auto simp: single_test_round_def fault_simps split: option.splits)
  then show ?thesis
    using st To_Send p by (auto simp: single_test_step_def fault_simps split: list.splits option.splits)
next
  case (To_Find h)
  then obtain res where "pool_read_find h (sg_pool g) = Inr (res, sg_pool g')"
    using st by (auto simp: single_test_step_def fault_simps split: option.splits)
  from res_invD [OF pool_read_find_inv [OF p] this] show ?thesis by simp
next
  case (To_Poll h r)
  then obtain res where "pool_read_poll h r (sg_pool g) = Inr (res, sg_pool g')"
    using st by (auto simp: single_test_step_def fault_simps split: option.splits)
  from res_invD [OF pool_read_poll_inv [OF p] this] show ?thesis by simp
next
  case Left_Loop
  then show ?thesis using st p by (simp add: single_test_step_def)
qed

lemma test_fun_step_inv:
  assumes p: "pool_inv p" and th: "thread_ok sendTime th" and st: "test_fun_step net ports sendTime th p out = Inr (th', p', out')"
  shows "pool_inv p' \<and> thread_ok sendTime th'"
proof (cases "tt_phase th")
  case To_Send
  show ?thesis
  proof (cases "int (tt_i th) < sint sendTime")
    case True
    then obtain h line where r: "test_fill (tt_pid th) (tt_i th) (tt_line th) = Inr line"
        "pool_main_send net ports (tt_i th) line p = Inr (h, p')" "th' = th\<lparr>tt_line := line, tt_phase := To_Find h\<rparr>"
      using st To_Send by (auto simp: test_fun_step_def test_fun_round_def fault_simps)
    have "pool_inv p'" using res_invD [OF pool_main_send_inv [OF p] r(2)] by simp
    then show ?thesis using th r(1,3) True To_Send by (simp add: thread_ok_def rounds_filled.simps)
  next
    case False
    then show ?thesis using st To_Send p th by (auto simp: test_fun_step_def thread_ok_def rounds_filled.simps)
  qed
next
  case (To_Find h)
  then obtain res where r: "pool_read_find h p = Inr (res, p')"
      "th' = (case res of None \<Rightarrow> th\<lparr>tt_i := Suc (tt_i th), tt_phase := To_Send\<rparr> | Some r \<Rightarrow> th\<lparr>tt_phase := To_Poll h r\<rparr>)"
    using st by (auto simp: test_fun_step_def round_done_def fault_simps split: option.splits)
  have "pool_inv p'" using res_invD [OF pool_read_find_inv [OF p] r(1)] by simp
  then show ?thesis using th r(2) To_Find by (auto simp: thread_ok_def rounds_filled.simps split: option.splits)
next
  case (To_Poll h r)
  then obtain res where q: "pool_read_poll h r p = Inr (res, p')"
      "th' = (case res of None \<Rightarrow> th | Some _ \<Rightarrow> th\<lparr>tt_i := Suc (tt_i th), tt_phase := To_Send\<rparr>)"
    using st by (auto simp: test_fun_step_def round_done_def fault_simps split: option.splits)
  have "pool_inv p'" using res_invD [OF pool_read_poll_inv [OF p] q(1)] by simp
  then show ?thesis using th q(2) To_Poll by (auto simp: thread_ok_def rounds_filled.simps split: option.splits)
next
  case Left_Loop
  then show ?thesis using st p th by (simp add: test_fun_step_def)
qed

lemma pool_prog_step_inv:
  "pool_prog_step net ports sendTime r r' \<Longrightarrow> res_inv (pool_prog_inv sendTime) r \<Longrightarrow> res_inv (pool_prog_inv sendTime) r'"
proof (induction rule: pool_prog_step.induct)
  case (prog_thread t g)
  then have g: "pool_inv (pp_pool g)" "\<forall>th \<in> set (pp_threads g). thread_ok sendTime th" by (simp_all add: pool_prog_inv_def)
  have t: "thread_ok sendTime (pp_threads g ! t)" using g(2) prog_thread(1) by simp
  show ?case
  proof (rule res_invI)
    fix g' assume "rbind (test_fun_step net ports sendTime (pp_threads g ! t) (pp_pool g) (pp_out g)) (\<lambda>(th, p, out).
        Inr (g\<lparr>pp_threads := (pp_threads g)[t := th], pp_pool := p, pp_out := out\<rparr>)) = Inr g'"
    then obtain th p out where s: "test_fun_step net ports sendTime (pp_threads g ! t) (pp_pool g) (pp_out g) = Inr (th, p, out)"
        "g' = g\<lparr>pp_threads := (pp_threads g)[t := th], pp_pool := p, pp_out := out\<rparr>" by (auto simp: fault_simps)
    from test_fun_step_inv [OF g(1) t s(1)] show "pool_prog_inv sendTime g'"
      using g(2) s(2) set_update_subset_insert [of "pp_threads g" t th] by (auto simp: pool_prog_inv_def)
  qed
next
  case (prog_client i g c r)
  then have p: "pool_inv (pp_pool g)" by (simp add: pool_prog_inv_def)
  have r: "res_inv client_inv r" using client_step_inv [OF prog_client(2)] client_at_inv [OF p prog_client(1)] by simp
  show ?case
  proof (cases r)
    case (Inr s)
    then show ?thesis
      using put_client_inv [OF p prog_client(1), of "c\<lparr>pc_client := s\<rparr>"] r prog_client(3) by (simp add: pool_prog_inv_def)
  qed simp
qed

definition pool_prog_begins :: "pool_prog res \<Rightarrow> bool" where
  "pool_prog_begins r \<longleftrightarrow> r = Inr pthread_test_start"

interpretation pool_prog_runs: inductive_invariant pool_prog_begins "pool_prog_step net ports sendTime" "res_inv (pool_prog_inv sendTime)"
  for net ports sendTime
proof unfold_locales
  have "pool_inv client_loop_pool_new" by (simp add: client_loop_pool_new_def pool_inv_def)
  then show "pool_prog_begins r \<Longrightarrow> res_inv (pool_prog_inv sendTime) r" for r
    by (simp add: pool_prog_begins_def pthread_test_start_def pool_prog_inv_def thread_ok_def test_thread_new_def rounds_filled.simps
        upto.simps)
qed (rule pool_prog_step_inv)

section \<open>Properties\<close>


text \<open>A server program with one port that has accepted one connection.\<close>

definition one_session :: link_session where
  "one_session = session_start (session_register_callback (Some call_p) link_session_new)"

definition one_server :: link_server where
  "one_server = handle_accept (session_register_callback (Some call_p) link_session_new) 0
     ((start_accept (server_register_callback (Some call_p) link_server_new))\<lparr>accepting := []\<rparr>)"

lemma one_server_facts:
  "sessions one_server = [one_session]" "session_idle one_session"
  "reach (server_proc_begins (\<lambda>_ _. True) [''server'', ''6688'']) server_proc_step (Running [(6688, one_server)])"
proof -
  let ?v = "start_accept (server_register_callback (Some call_p) link_server_new)"
  let ?s = "session_register_callback (Some call_p) link_session_new"
  show "sessions one_server = [one_session]" "session_idle one_session"
    by (simp_all add: one_server_def one_session_def handle_accept_def start_accept_def server_register_callback_def link_server_new_def
        session_idle_def session_start_def session_do_read_def session_register_callback_def link_session_new_def)
  have "atoi ''6688'' = 6688" by (simp add: atoi_def is_space_def is_digit_def dec_value_def)
  then have "server_main (\<lambda>_ _. True) [''server'', ''6688''] = Some (Inr [(6688, ?v)])" by (simp add: server_main_def)
  then have "reach (server_proc_begins (\<lambda>_ _. True) [''server'', ''6688'']) server_proc_step (Running [(6688, ?v)])"
    by (intro reach_start) (simp add: server_proc_begins_def handled_def)
  moreover have "server_proc_step (Running ([] @ (6688, ?v) # [])) (Running ([] @ (6688, handle_accept ?s 0 (?v\<lparr>accepting := [] @ []\<rparr>)) # []))"
    by (rule proc_accept) (simp add: start_accept_def server_register_callback_def link_server_new_def)
  ultimately show "reach (server_proc_begins (\<lambda>_ _. True) [''server'', ''6688'']) server_proc_step (Running [(6688, one_server)])"
    unfolding one_server_def by (auto intro: reach_step)
qed


text \<open>C36: One lost peer ends the whole server: when the peer of any idle session sends a well-formed request
  and is gone before the handler asks for its address, the exception leaves the event loop and the
  program, with all its other servers and sessions.\<close>

theorem peer_gone_stops_server:
  assumes "(prt, v) \<in> set vs" "s \<in> set (sessions v)" "session_idle s" "valid_request h mt bd"
  shows "server_proc_step\<^sup>*\<^sup>* (Running vs) Exited \<and> \<not> (\<exists>p. server_proc_step Exited p)"
proof -
  obtain xs ys where vs: "vs = xs @ (prt, v) # ys" using assms(1) by (auto simp: in_set_conv_decomp)
  obtain as bs where v: "sessions v = as @ s # bs" using assms(2) by (auto simp: in_set_conv_decomp)
  obtain s1 m where e: "session_complete True 0 (Done (RPCStructHead_data h)) s = Inr s1"
      "in_flight s1 = [Read_Msg m (length mt + length bd)]" "session_complete False 0 (Done (mt @ bd)) s1 = Inl Exception_Thrown"
    using peer_gone_throws [OF assms(3,4)] .
  let ?v = "v\<lparr>sessions := as @ s1 # bs\<rparr>"
  have "server_proc_step (Running vs) (Running (xs @ (prt, ?v) # ys))"
    using proc_session [OF v, of 0 "Done (RPCStructHead_data h)" xs prt ys True] e(1) assms(3)
    by (simp add: vs handled_def session_idle_def RPCStructHead_data_len_def)
  moreover have "server_proc_step (Running (xs @ (prt, ?v) # ys)) Exited"
    using proc_session [of ?v as s1 bs 0 "Done (mt @ bd)" xs prt ys False] e(2,3) by (simp add: handled_def)
  ultimately show ?thesis by (blast intro: converse_rtranclp_into_rtranclp)
qed

theorem peer_gone_stops_server_witness: "server_proc_step\<^sup>*\<^sup>* (Running [(6688, one_server)]) Exited"
proof -
  have "valid_request \<lparr>req_id = 1, body_size = 1, meta_size = 0\<rparr> [] [0]" by (simp add: valid_request_def)
  then show ?thesis using peer_gone_stops_server [of 6688 one_server "[(6688, one_server)]" one_session] one_server_facts(1,2) by simp
qed



end
