(* ===== verification/System.thy ===== *)
theory System
  imports Programs
begin

text \<open>
  The client program and a server session as one system: the input loop of \<open>src/client_loop/client.cpp\<close>,
  the event loop of its client, the session at the other end of the connection, and the bytes in flight
  in both directions. The connection stays up and no answer takes longer than its timeout; otherwise the
  three sides run in any order, with the clean-up and log timers at any time. The lemmas say what each single
  handler does to a connected client and to a session while a message is under way; the theory
  \<open>Conversation\<close> puts them together.
\<close>

section \<open>Model\<close>

record rpc_system =
  sy_prog :: client_prog
  sy_session :: link_session
  up :: "byte list"
  down :: "byte list"

text \<open>
  What a completion does to the two streams. A read takes its bytes from the front of a stream; a write has
  put all its bytes at the end of the other when its handler runs, since that handler is queued before the
  handler of any operation that completes later. The wait of a request ends only because it was cancelled.
\<close>

fun client_io :: "client_op \<Rightarrow> completion \<Rightarrow> byte list \<times> byte list \<Rightarrow> byte list \<times> byte list \<Rightarrow> bool" where
  "client_io Op_Connect c (u, d) (u', d') \<longleftrightarrow> False"
| "client_io Op_Read_Head (Done bs) (u, d) (u', d') \<longleftrightarrow> u' = u \<and> d = bs @ d'"
| "client_io (Op_Read_Msg r n) (Done bs) (u, d) (u', d') \<longleftrightarrow> u' = u \<and> d = bs @ d'"
| "client_io (Op_Write b) (Done bs) (u, d) (u', d') \<longleftrightarrow> None \<notin> set b \<and> u' = u @ map the b \<and> d' = d"
| "client_io (Msg_Timer r) (Done bs) (u, d) (u', d') \<longleftrightarrow> False"
| "client_io (Msg_Timer r) (Failed e) (u, d) (u', d') \<longleftrightarrow> u' = u \<and> d' = d"
| "client_io op (Done bs) (u, d) (u', d') \<longleftrightarrow> u' = u \<and> d' = d"
| "client_io op (Failed e) (u, d) (u', d') \<longleftrightarrow> False"

fun session_io :: "session_op \<Rightarrow> completion \<Rightarrow> byte list \<times> byte list \<Rightarrow> byte list \<times> byte list \<Rightarrow> bool" where
  "session_io Read_Head (Done bs) (u, d) (u', d') \<longleftrightarrow> u = bs @ u' \<and> d' = d"
| "session_io (Read_Msg m n) (Done bs) (u, d) (u', d') \<longleftrightarrow> u = bs @ u' \<and> d' = d"
| "session_io (Write_Msg b) (Done bs) (u, d) (u', d') \<longleftrightarrow> None \<notin> set b \<and> u' = u \<and> d' = d @ map the b"
| "session_io op (Failed e) (u, d) (u', d') \<longleftrightarrow> False"

text \<open>The main thread, a handler of the client, a handler of the session. The last act of \<open>main\<close> stops the
  client's event loop.\<close>

inductive sys_step :: "net \<Rightarrow> rpc_system res \<Rightarrow> rpc_system res \<Rightarrow> bool" for net where
  sys_main: "sys_step net (Inr y) (rbind (client_prog_main net (sy_prog y)) (\<lambda>p. Inr (y\<lparr>sy_prog := p\<rparr>)))"
| sys_client: "cp_phase (sy_prog y) \<noteq> Ended \<Longrightarrow> i < length (io_queue (cp_client (sy_prog y))) \<Longrightarrow>
     client_completes (cp_client (sy_prog y)) (io_queue (cp_client (sy_prog y)) ! i) k \<Longrightarrow>
     client_io (io_queue (cp_client (sy_prog y)) ! i) k (up y, down y) (u, d) \<Longrightarrow>
     sys_step net (Inr y) (rbind (client_complete net i k (cp_client (sy_prog y))) (\<lambda>c.
       Inr (y\<lparr>sy_prog := (sy_prog y)\<lparr>cp_client := c\<rparr>, up := u, down := d\<rparr>)))"
| sys_session: "i < length (in_flight (sy_session y)) \<Longrightarrow> op_completes (in_flight (sy_session y) ! i) k \<Longrightarrow>
     session_io (in_flight (sy_session y) ! i) k (up y, down y) (u, d) \<Longrightarrow>
     sys_step net (Inr y) (rbind (session_complete True i k (sy_session y)) (\<lambda>v.
       Inr (y\<lparr>sy_session := v, up := u, down := d\<rparr>)))"

inductive_cases sys_stepE: "sys_step net r r'"

text \<open>The client once its first connect has succeeded, and the session that was accepted for it.\<close>

definition client_connected :: "net \<Rightarrow> string \<Rightarrow> cint \<Rightarrow> client_loop res" where
  "client_connected net addr prt = rbind (client_loop_new net addr prt CSQ_ON) (client_complete net 0 (Done []))"

definition sys_begins :: "net \<Rightarrow> string \<Rightarrow> cint \<Rightarrow> callback_fun option \<Rightarrow> byte list list \<Rightarrow> rpc_system res \<Rightarrow> bool" where
  "sys_begins net addr prt cf input r \<longleftrightarrow> r = rbind (client_connected net addr prt) (\<lambda>c.
     Inr \<lparr>sy_prog = client_prog_new input c, sy_session = session_start (session_register_callback cf link_session_new),
       up = [], down = []\<rparr>)"

section \<open>What the program is meant to print\<close>

text \<open>The body that the abstract server answers with, and the lines of the input that are sent.\<close>

definition answer_body :: "(byte list \<Rightarrow> byte list option) \<Rightarrow> byte list \<Rightarrow> byte list" where
  "answer_body g bd = (case g bd of None \<Rightarrow> bd | Some a \<Rightarrow> a)"

definition messages :: "byte list list \<Rightarrow> byte list list" where
  "messages input = takeWhile (\<lambda>l. l \<noteq> str_bytes ''exit'' \<and> length l < 1024) input"

definition reported :: "(byte list \<Rightarrow> byte list option) \<Rightarrow> byte list \<Rightarrow> read_report" where
  "reported g l = Read_Ok (c_str (answer_body g (l @ [0]))) (of_nat (length (answer_body g (l @ [0]))))"

text \<open>Requests and answers on the wire.\<close>

definition head_for :: "nat \<Rightarrow> byte list \<Rightarrow> RPCStructHead" where
  "head_for k bd = \<lparr>req_id = of_nat k, body_size = of_nat (length bd), meta_size = 8\<rparr>"

definition wire_for :: "nat \<Rightarrow> byte list \<Rightarrow> byte list" where
  "wire_for k bd = RPCStructHead_data (head_for k bd) @ take 8 meta_s @ bd"

lemma meta_length [simp]: "length (take 8 meta_s) = 8" "min (length meta_s) 8 = 8"
  by (simp_all add: meta_s_def)

lemma head_for_sel [simp]:
  "req_id (head_for k bd) = of_nat k" "body_size (head_for k bd) = of_nat (length bd)" "sint (meta_size (head_for k bd)) = 8"
  by (simp_all add: head_for_def)

lemma answer_wire: "answer g (head_for k bd) (take 8 meta_s) bd = wire_for k (answer_body g bd)"
  by (simp add: answer_def answer_body_def wire_for_def head_for_def split: option.split)

lemma answer_body_ok:
  assumes "implements cf g" "int (length bd) + 20 < 2 ^ 31" "0 \<in> set bd"
  shows "0 \<in> set (answer_body g bd)" "int (length (answer_body g bd)) + 20 < 2 ^ 31"
proof -
  have sz: "sint (of_nat (length bd) :: cint) = int (length bd)" using assms(2) by (intro sint_of_nat_cint) simp
  have "0 \<in> set a \<and> int (length a) + 20 < 2 ^ 31" if "g bd = Some a" for a
    using assms(1,3) sz that
    by (cases cf) (auto simp: implements_def dest!: spec [of _ bd] split: option.splits)
  then show "0 \<in> set (answer_body g bd)" "int (length (answer_body g bd)) + 20 < 2 ^ 31"
    using assms(2,3) by (auto simp: answer_body_def split: option.split)
qed

text \<open>A body a client sends.\<close>

definition body_ok :: "byte list \<Rightarrow> bool" where
  "body_ok bd \<longleftrightarrow> 0 \<in> set bd \<and> int (length bd) + 20 < 2 ^ 31"

lemma body_ok_answer: "implements cf g \<Longrightarrow> body_ok bd \<Longrightarrow> body_ok (answer_body g bd)"
  using answer_body_ok [of cf g bd] by (simp add: body_ok_def)

lemma body_ok_size: "body_ok bd \<Longrightarrow> sint (of_nat (length bd) :: cint) = int (length bd)"
  by (intro sint_of_nat_cint) (simp add: body_ok_def)

section \<open>Pending operations\<close>

fun is_timer :: "client_op \<Rightarrow> bool" where
  "is_timer Erase_Timer = True"
| "is_timer Log_Timer = True"
| "is_timer (Msg_Timer r) = True"
| "is_timer _ = False"

abbreviation without :: "nat \<Rightarrow> 'a list \<Rightarrow> 'a list" where
  "without i xs \<equiv> take i xs @ drop (Suc i) xs"

definition pending :: "client_op list \<Rightarrow> client_op list" where
  "pending ops = filter (\<lambda>op. \<not> is_timer op) ops"

lemma pending_append [simp]: "pending (xs @ ys) = pending xs @ pending ys"
  by (simp add: pending_def)

lemma pending_Cons [simp]: "pending (op # ops) = (if is_timer op then pending ops else op # pending ops)" "pending [] = []"
  by (simp_all add: pending_def)

lemma pending_split: "i < length xs \<Longrightarrow> pending xs = pending (take i xs) @ pending (xs ! i # drop (Suc i) xs)"
  by (subst id_take_nth_drop [of i xs]) (simp_all only: pending_append)

lemma pending_timer: "i < length xs \<Longrightarrow> is_timer (xs ! i) \<Longrightarrow> pending (without i xs) = pending xs"
  using pending_split [of i xs] by simp

lemma pending_op:
  assumes "i < length xs" "\<not> is_timer (xs ! i)" "distinct (pending xs)"
  shows "pending (without i xs) = remove1 (xs ! i) (pending xs)" "xs ! i \<in> set (pending xs)"
proof -
  have p: "pending xs = pending (take i xs) @ xs ! i # pending (drop (Suc i) xs)"
    using pending_split [OF assms(1)] assms(2) by simp
  then show "xs ! i \<in> set (pending xs)" by simp
  show "pending (without i xs) = remove1 (xs ! i) (pending xs)"
    using p assms(3) by (simp add: remove1_append)
qed

section \<open>A connected client\<close>

text \<open>
  Connected, with these operations pending beside timers, and at most the first \<open>d\<close> requests on the clean-up
  list.
\<close>

definition client_up :: "net \<Rightarrow> nat \<Rightarrow> client_op list \<Rightarrow> client_loop \<Rightarrow> bool" where
  "client_up net d ops c \<longleftrightarrow> client_inv c \<and> csq c = CSQ_ON \<and> clietn_status c = CT_CONN_OK
     \<and> (\<exists>h. socket c = Some h \<and> sock_open net h) \<and> pending (io_queue c) = ops
     \<and> (\<forall>r. Msg_Timer r \<in> set (io_queue c) \<longrightarrow> objs c r \<noteq> None)
     \<and> length (contents (del_reqid_list c)) \<le> d \<and> (\<forall>x \<in> set (contents (del_reqid_list c)). sint x \<le> int d)"

text \<open>The slot of a request and what is known of it.\<close>

definition slot_at :: "nat \<Rightarrow> nat \<Rightarrow> (RPCStruct \<Rightarrow> bool) \<Rightarrow> client_loop \<Rightarrow> bool" where
  "slot_at k r P c \<longleftrightarrow> SafeMap_lookup (recv_msg_map c) (int k) = Some (Some r) \<and> (\<exists>m. objs c r = Some m \<and> P m)"

definition flag_free :: "(RPCStruct \<Rightarrow> bool) \<Rightarrow> bool" where
  "flag_free P \<longleftrightarrow> (\<forall>m f. P m \<longrightarrow> P (m\<lparr>erase_flag := f\<rparr>))"

text \<open>What the timers leave alone.\<close>

definition undisturbed :: "nat \<Rightarrow> client_loop \<Rightarrow> client_loop \<Rightarrow> bool" where
  "undisturbed d c c' \<longleftrightarrow> msg_index c' = msg_index c \<and> write_msg_queue c' = write_msg_queue c
     \<and> (\<forall>r m. objs c r = Some m \<longrightarrow> (\<exists>f. objs c' r = Some (m\<lparr>erase_flag := f\<rparr>)))
     \<and> (\<forall>k. int d < k \<longrightarrow> SafeMap_lookup (recv_msg_map c') k = SafeMap_lookup (recv_msg_map c) k)"

lemma slot_undisturbed: "undisturbed d c c' \<Longrightarrow> flag_free P \<Longrightarrow> d < k \<Longrightarrow> slot_at k r P c \<Longrightarrow> slot_at k r P c'"
  unfolding undisturbed_def flag_free_def slot_at_def by (metis of_nat_less_iff)

lemma frame_flag [simp]: "frame (m\<lparr>erase_flag := f\<rparr>) mt bd = frame m mt bd" "synced (m\<lparr>erase_flag := f\<rparr>) = synced m"
  by (simp_all add: frame_def synced_def msg_wf_def)

lemma sendable_undisturbed:
  assumes "undisturbed d c c'" "sendable c q w"
  shows "sendable c' q w"
proof -
  obtain m mt bd where m: "objs c q = Some m" "frame m mt bd" "0 \<in> set bd" "w = RPCStructHead_data (head_info m) @ mt @ bd"
    using assms(2) by (auto simp: sendable_def)
  then obtain f where "objs c' q = Some (m\<lparr>erase_flag := f\<rparr>)" using assms(1) unfolding undisturbed_def by blast
  then show ?thesis unfolding sendable_def using m by (intro exI [of _ "m\<lparr>erase_flag := f\<rparr>"]) auto
qed

lemma undisturbedI:
  assumes "msg_index c' = msg_index c" "write_msg_queue c' = write_msg_queue c" "objs c' = objs c" "recv_msg_map c' = recv_msg_map c"
  shows "undisturbed d c c'"
proof -
  have "\<exists>f. Some m = Some (m\<lparr>erase_flag := f\<rparr>)" for m :: RPCStruct by (rule exI [of _ "erase_flag m"]) simp
  then show ?thesis using assms by (simp add: undisturbed_def)
qed

section \<open>Timers\<close>

text \<open>A clean-up pass shortens the list and leaves slots alone that are not on it.\<close>

lemma pass_keeps:
  "erase_pass i (l, F) = (l', F') \<Longrightarrow> length l' \<le> length l \<and> set l' \<subseteq> set l \<and> (\<forall>k. k \<notin> sint ` set l \<longrightarrow> F' k = F k)"
proof (induction i "(l, F)" arbitrary: l F rule: erase_pass.induct)
  case (1 i l F)
  show ?case
  proof (cases "i < length l")
    case False
    then show ?thesis using 1(2) by (simp add: erase_pass.simps [of i l])
  next
    case True
    then obtain x xs where l: "l = x # xs" by (cases l) auto
    obtain l1 F1 where st: "erase_list_step (l, F) = (l1, F1)" by (cases "erase_list_step (l, F)")
    have "erase_pass (Suc i) (l1, F1) = (l', F')" using 1(2) True st by (simp add: erase_pass.simps [of i l])
    from 1(1) [OF True st this]
    have "length l' \<le> length l1" "set l' \<subseteq> set l1" "\<forall>k. k \<notin> sint ` set l1 \<longrightarrow> F' k = F1 k" by blast+
    moreover have "length l1 \<le> length l" "set l1 \<subseteq> set l" "\<forall>k. k \<notin> sint ` set l \<longrightarrow> F1 k = F k"
      using st l by (auto split: option.splits if_splits)
    ultimately show ?thesis by (auto simp: subset_iff image_iff)
  qed
qed

lemma erase_timer_keeps:
  assumes c: "client_up net d ops c" "d < 2 ^ 31" and i: "i < length (io_queue c)" "is_timer (io_queue c ! i)"
      "\<And>r. io_queue c ! i \<noteq> Msg_Timer r"
  defines "c0 \<equiv> c\<lparr>io_queue := without i (io_queue c)\<rparr>"
  obtains c1 where "erase_msg_timer c0 = Inr c1" "client_up net d ops c1" "undisturbed d c c1"
proof -
  have inv: "client_inv c0" unfolding c0_def using c(1) i(3) by (intro remove_op_inv) (simp_all add: client_up_def)
  have len: "length (contents (del_reqid_list c0)) \<le> d" "\<forall>x \<in> set (contents (del_reqid_list c0)). sint x \<le> int d"
    using c(1) by (simp_all add: client_up_def c0_def)
  then have "erase_ready c0" using c(2) inv_parts [OF inv] by (simp add: erase_ready_def)
  then obtain s1 e where s1: "erase_msg_timer c0 = Inr (issue Erase_Timer (s1\<lparr>e_timer := e\<rparr>))" "erase_ready s1"
      "erase_abs s1 = erase_pass 0 (erase_abs c0)" "erase_frame c0 s1"
    using erase_msg_timer_refines by blast
  let ?c1 = "issue Erase_Timer (s1\<lparr>e_timer := e\<rparr>)"
  have p: "length (contents (del_reqid_list s1)) \<le> d" "set (contents (del_reqid_list s1)) \<subseteq> set (contents (del_reqid_list c0))"
      "\<forall>k. k \<notin> sint ` set (contents (del_reqid_list c0)) \<longrightarrow> flag_of s1 k = flag_of c0 k"
    using pass_keeps [OF s1(3) [unfolded erase_abs_def, symmetric]] len(1) by auto
  have look: "SafeMap_lookup (recv_msg_map s1) k = SafeMap_lookup (recv_msg_map c) k" if "int d < k" for k
  proof -
    have "k \<notin> sint ` set (contents (del_reqid_list c0))" using len(2) that by force
    then show ?thesis
      using frame_lookup [OF s1(4) _ _, of k] p(3) s1(2) inv_parts(5) [OF inv] by (simp add: erase_ready_def c0_def)
  qed
  have obj: "\<exists>f. objs s1 r = Some (m\<lparr>erase_flag := f\<rparr>)" if "objs c r = Some m" for r m
    using s1(4) that unfolding erase_frame_def c0_def by simp
  have fr: "io_queue s1 = without i (io_queue c)" "write_msg_queue s1 = write_msg_queue c" "socket s1 = socket c"
      "clietn_status s1 = clietn_status c" "csq s1 = csq c" "msg_index s1 = msg_index c"
    using s1(4) by (simp_all add: erase_frame_def c0_def)
  have "client_inv ?c1" using res_invD [OF erase_msg_timer_inv [OF inv] s1(1)] .
  moreover have "objs s1 r \<noteq> None" if "Msg_Timer r \<in> set (without i (io_queue c))" for r
  proof -
    have "Msg_Timer r \<in> set (io_queue c)" using that by (auto dest: in_set_takeD in_set_dropD)
    then obtain m where "objs c r = Some m" using c(1) by (auto simp: client_up_def)
    then show ?thesis using obj by auto
  qed
  ultimately have "client_up net d ops ?c1"
    using c(1) fr p(1,2) len(2) pending_timer [OF i(1,2)] by (auto simp: client_up_def issue_def)
  moreover have "undisturbed d c ?c1" using fr look obj by (simp add: undisturbed_def issue_def)
  ultimately show thesis using that s1(1) by blast
qed

lemma timer_step:
  assumes c: "client_up net d ops c" "d < 2 ^ 31" and i: "i < length (io_queue c)" "is_timer (io_queue c ! i)"
    and k: "client_completes c (io_queue c ! i) k" "client_io (io_queue c ! i) k (u, w) (u', w')"
  obtains c1 where "client_complete net i k c = Inr c1" "client_up net d ops c1" "undisturbed d c c1" "u' = u" "w' = w"
proof -
  let ?c0 = "c\<lparr>io_queue := without i (io_queue c)\<rparr>"
  have cc: "client_complete net i k c = client_handler net (io_queue c ! i) k ?c0" using i(1) by (simp add: client_complete_def)
  have inv: "res_inv client_inv (client_complete net i k c)" using c(1) i(1) k(1) by (intro complete_inv) (simp_all add: client_up_def)
  have old: "objs c r \<noteq> None" if "Msg_Timer r \<in> set (without i (io_queue c))" for r
    using c(1) that by (auto simp: client_up_def dest: in_set_takeD in_set_dropD)
  have io: "u' = u" "w' = w" using i(2) k(2) by (cases "io_queue c ! i"; cases k; simp)+
  have cases: "\<exists>c1. client_complete net i k c = Inr c1 \<and> client_up net d ops c1 \<and> undisturbed d c c1"
  proof (cases "io_queue c ! i")
    case Erase_Timer
    with erase_timer_keeps [OF c i] cc show ?thesis by auto
  next
    case Log_Timer
    then have h: "client_complete net i k c = Inr (log_timer ?c0)" using cc by simp
    then have "client_inv (log_timer ?c0)" using inv by simp
    then have "client_up net d ops (log_timer ?c0)"
      using c(1) old pending_timer [OF i] by (auto simp: client_up_def log_timer_def issue_def)
    moreover have "undisturbed d c (log_timer ?c0)" by (rule undisturbedI) (simp_all add: log_timer_def issue_def)
    ultimately show ?thesis using h by blast
  next
    case (Msg_Timer r)
    then obtain e where e: "k = Failed e" "e \<noteq> 0" using k by (cases k) auto
    have "Msg_Timer r \<in> set (io_queue c)" using Msg_Timer i(1) by (metis nth_mem)
    then obtain m where m: "objs c r = Some m" using c(1) by (auto simp: client_up_def)
    let ?c1 = "put_obj r m ?c0"
    have h: "client_complete net i k c = Inr ?c1" using cc Msg_Timer e m timeout_status(2) [of e m] by (simp add: obj_at_def)
    then have "client_inv ?c1" using inv by simp
    then have "client_up net d ops ?c1"
      using c(1) old pending_timer [OF i] m by (auto simp: client_up_def put_obj_def)
    moreover have "undisturbed d c ?c1" by (rule undisturbedI) (use m in \<open>simp_all add: put_obj_def fun_upd_idem\<close>)
    ultimately show ?thesis using h by blast
  qed (use i(2) in simp_all)
  then show thesis using that io by blast
qed

section \<open>Stages of the client\<close>

definition slot_waits :: "RPCStruct \<Rightarrow> bool" where
  "slot_waits m \<longleftrightarrow> slot_ok m \<and> \<not> read_done (status m)"

definition slot_filling :: "RPCStructHead \<Rightarrow> RPCStruct \<Rightarrow> bool" where
  "slot_filling hdr m \<longleftrightarrow> synced m \<and> head_info m = hdr \<and> body_offset m = 20 \<and> \<not> read_done (status m)"

definition slot_filled :: "RPCStructHead \<Rightarrow> byte list \<Rightarrow> RPCStruct \<Rightarrow> bool" where
  "slot_filled hdr bd m \<longleftrightarrow> frame m (take 8 meta_s) bd \<and> head_info m = hdr \<and> status m = CT_READ_OK"

lemma flag_free_slots: "flag_free slot_waits" "flag_free (slot_filling hdr)" "flag_free (slot_filled hdr bd)"
  by (simp_all add: flag_free_def slot_waits_def slot_filling_def slot_filled_def)

text \<open>Between two messages, and while the main thread waits for the answer to request \<open>d + 1\<close>.\<close>

definition ready :: "net \<Rightarrow> nat \<Rightarrow> client_loop \<Rightarrow> bool" where
  "ready net d c \<longleftrightarrow> client_up net d [Op_Read_Head] c \<and> msg_index c = of_nat (Suc d) \<and> contents (write_msg_queue c) = []"

definition waits :: "net \<Rightarrow> nat \<Rightarrow> client_op list \<Rightarrow> nat \<Rightarrow> (RPCStruct \<Rightarrow> bool) \<Rightarrow> client_loop \<Rightarrow> bool" where
  "waits net d ops r P c \<longleftrightarrow> client_up net d ops c \<and> msg_index c = of_nat (Suc (Suc d)) \<and> slot_at (Suc d) r P c"

lemma index_int: "d < 2 ^ 31 - 1 \<Longrightarrow> sint (of_nat (Suc d) :: cint) = int (Suc d)"
  by (rule sint_of_nat_cint) simp

text \<open>How an operation changes what \<^const>\<open>client_up\<close> says.\<close>

lemma client_up_next:
  assumes "client_up net d ops c" "client_inv c'" "csq c' = csq c" "clietn_status c' = clietn_status c"
    "\<exists>h. socket c' = Some h \<and> sock_open net h" "pending (io_queue c') = ops'"
    "\<And>r. Msg_Timer r \<in> set (io_queue c') \<Longrightarrow> Msg_Timer r \<in> set (io_queue c) \<or> objs c' r \<noteq> None"
    "dom (objs c) \<subseteq> dom (objs c')" "del_reqid_list c' = del_reqid_list c"
  shows "client_up net d ops' c'"
proof -
  have "objs c' r \<noteq> None" if "Msg_Timer r \<in> set (io_queue c')" for r
    using assms(1,7,8) that unfolding client_up_def by (metis domIff subsetD)
  then show ?thesis using assms by (simp add: client_up_def)
qed

text \<open>The main thread takes a line and sends it.\<close>

lemma line_is_sent:
  assumes c: "ready net d c" "d < 2 ^ 31 - 1" and l: "0 \<notin> set l" "length l < 1024" "l \<noteq> str_bytes ''exit''"
  obtains c' r q where "client_main_line net (map Some (l @ [0]) @ rest) c = Inr (Line_Sent (of_nat (Suc d)) (Some r), c')"
    "waits net d [Op_Read_Head, Post_Write] r slot_waits c'" "contents (write_msg_queue c') = [Some q]"
    "sendable c' q (wire_for (Suc d) (l @ [0]))"
proof -
  let ?bd = "l @ [0]" and ?k = "of_nat (Suc d) :: cint" and ?r = "Suc (obj_next c)"
  let ?line = "map Some ?bd @ rest"
  obtain h where h: "socket c = Some h" "sock_open net h" using c(1) by (auto simp: ready_def client_up_def)
  have inv: "client_inv c" and idx: "msg_index c = ?k" and q0: "contents (write_msg_queue c) = []" and on: "csq c = CSQ_ON"
    using c(1) by (simp_all add: ready_def client_up_def)
  have str: "cstr_at ?line = Inr l" using cstr_at_unterminated [OF l(1), of "Some 0 # rest"] by simp
  have n: "sint (of_nat (length l) + 1 :: cint) = int (length ?bd)"
    using sint_of_nat_cint [of "length ?bd"] l(2) by (simp add: add.commute)
  have bd: "int (length ?bd) + 20 < 2 ^ 31" "take (length ?bd) ?line = map Some ?bd" "0 \<in> set ?bd" using l(2) by simp_all
  obtain m c' where w: "client_write ?line (of_nat (length l) + 1) 80 c = Inr (?k, c')" "written c 80 m c'"
      "frame m (take 8 meta_s) ?bd" "head_info m = \<lparr>req_id = ?k, body_size = of_nat (length l) + 1, meta_size = 8\<rparr>"
    using client_write_frame [OF inv_parts(1,2) [OF inv] n bd, of 80] unfolding idx .
  have hd: "head_info m = head_for (Suc d) ?bd" using w(4) by (simp add: head_for_def add.commute)
  have inv': "client_inv c'" using res_invD [OF client_write_inv [OF inv] w(1)] by simp
  have c': "objs c' ?r = Some (do_init_timer (recv_slot ?k) 80)" "objs c' (obj_next c) = Some m" "socket c' = socket c"
      "SafeMap_lookup (recv_msg_map c') (sint ?k) = Some (Some ?r)" "contents (write_msg_queue c') = [Some (obj_next c)]"
      "io_queue c' = io_queue c @ [Msg_Timer ?r, Post_Write]" "msg_index c' = ?k + 1" "del_reqid_list c' = del_reqid_list c"
      "csq c' = csq c" "clietn_status c' = clietn_status c"
    using w(2) idx q0 on by (simp_all add: written_def)
  have "map_obj ?k c' = Inr (?r, do_init_timer (recv_slot ?k) 80, c')"
    using map_obj_hit [OF inv_parts(1) [OF inv'] c'(4,1)] .
  then have fd: "client_read_find ?k c' = Inr (Some ?r, c')"
    using sm.has_law [OF inv_parts(1) [OF inv'], of "sint ?k"] c'(4) by (simp add: client_read_find_def)
  have res: "client_main_line net ?line c = Inr (Line_Sent ?k (Some ?r), c')"
    using is_open_yes [OF h] str l(3) w(1) fd by (simp add: client_main_line_def)
  have "client_up net d [Op_Read_Head, Post_Write] c'"
    by (rule client_up_next [OF c(1) [unfolded ready_def, THEN conjunct1] inv'])
      (use c' h c(1) w(2) in \<open>auto simp: written_def ready_def client_up_def\<close>)
  moreover have "slot_waits (do_init_timer (recv_slot ?k) 80)"
    using slot_timer_started(2) [of ?k 80]
    by (simp add: slot_waits_def do_init_timer_def recv_slot_def RPCStruct_ctor_def RPCStruct_ctor_head_def Let_def)
  ultimately have "waits net d [Op_Read_Head, Post_Write] ?r slot_waits c'"
    using c'(1,4,7) index_int [OF c(2)] by (simp add: waits_def slot_at_def add.commute)
  moreover have "sendable c' (obj_next c) (wire_for (Suc d) ?bd)"
    unfolding sendable_def wire_for_def using c'(2) w(3) hd by fastforce
  ultimately show thesis using that res c'(5) by blast
qed

lemma op_runs:
  assumes c: "client_up net d ops c" and i: "i < length (io_queue c)" "\<not> is_timer (io_queue c ! i)"
  defines "c0 \<equiv> c\<lparr>io_queue := without i (io_queue c)\<rparr>"
  shows "client_inv c0" "client_complete net i k c = client_handler net (io_queue c ! i) k c0"
    "client_complete net i k c = Inr c' \<Longrightarrow> client_inv c'"
proof -
  have op: "io_queue c ! i \<noteq> Msg_Timer r" for r using i(2) by auto
  then show inv: "client_inv c0" unfolding c0_def using c by (intro remove_op_inv) (simp_all add: client_up_def)
  show cc: "client_complete net i k c = client_handler net (io_queue c ! i) k c0"
    using i(1) by (simp add: client_complete_def c0_def)
  show "client_complete net i k c = Inr c' \<Longrightarrow> client_inv c'"
    unfolding cc by (rule res_invD [OF handler_inv [OF inv op]])
qed

lemma op_left:
  assumes c: "client_up net d ops c" "distinct ops" and i: "i < length (io_queue c)" "\<not> is_timer (io_queue c ! i)"
  shows "client_up net d (remove1 (io_queue c ! i) ops) (c\<lparr>io_queue := without i (io_queue c)\<rparr>)" "io_queue c ! i \<in> set ops"
proof -
  have p: "pending (io_queue c) = ops" using c(1) by (simp add: client_up_def)
  show "io_queue c ! i \<in> set ops" using pending_op(2) [OF i] p c(2) by simp
  show "client_up net d (remove1 (io_queue c ! i) ops) (c\<lparr>io_queue := without i (io_queue c)\<rparr>)"
    by (rule client_up_next [OF c(1) op_runs(1) [OF c(1) i]])
      (use c(1) pending_op(1) [OF i] p c(2) in \<open>auto simp: client_up_def dest: in_set_takeD in_set_dropD\<close>)
qed

text \<open>An operation that keeps the map and the index and adds one operation.\<close>

lemma waits_next:
  assumes w: "waits net d ops r P c" and up: "client_up net d ops0 c0" and c0: "c0 = c\<lparr>io_queue := without i (io_queue c)\<rparr>"
    and inv: "client_inv c'" and same: "csq c' = csq c" "clietn_status c' = clietn_status c" "del_reqid_list c' = del_reqid_list c"
      "recv_msg_map c' = recv_msg_map c" "msg_index c' = msg_index c"
    and sock: "socket c' = Some h" "sock_open net h" and ops: "io_queue c' = io_queue c0 @ added" "pending added = added"
    and obj: "objs c' = (objs c)(r \<mapsto> m)" "P' m"
  shows "waits net d (ops0 @ added) r P' c'"
proof -
  have nt: "Msg_Timer r' \<notin> set added" for r'
  proof
    assume "Msg_Timer r' \<in> set added"
    then have "Msg_Timer r' \<in> set (pending added)" unfolding ops(2) .
    then show False by (simp add: pending_def)
  qed
  have "client_up net d (ops0 @ added) c'"
    by (rule client_up_next [OF up inv]) (use up same sock ops obj nt in \<open>auto simp: c0 client_up_def\<close>)
  then show ?thesis using w same obj by (simp add: waits_def slot_at_def)
qed

lemma waits_facts:
  assumes "waits net d ops r P c" "d < 2 ^ 31 - 1"
  obtains h m where "socket c = Some h" "sock_open net h" "objs c r = Some m" "P m" "client_inv c" "csq c = CSQ_ON"
    "clietn_status c = CT_CONN_OK" "SafeMap_lookup (recv_msg_map c) (sint (of_nat (Suc d) :: cint)) = Some (Some r)"
  using assms index_int [OF assms(2)] by (auto simp: waits_def slot_at_def client_up_def)

lemma posted_sends:
  assumes net: "asio_net net" and c: "waits net d [Op_Read_Head, Post_Write] r P c" "d < 2 ^ 31 - 1"
    and q: "contents (write_msg_queue c) = [Some q]" "sendable c q w" and i: "i < length (io_queue c)" "io_queue c ! i = Post_Write"
  obtains c' where "client_complete net i k c = Inr c'" "waits net d [Op_Read_Head, Op_Write (map Some w)] r P c'"
    "contents (write_msg_queue c') = []"
proof -
  let ?c0 = "c\<lparr>io_queue := without i (io_queue c)\<rparr>"
  obtain h m where f: "socket c = Some h" "sock_open net h" "objs c r = Some m" "P m" "client_inv c" "clietn_status c = CT_CONN_OK"
    using waits_facts [OF c] by metis
  note up = c(1) [unfolded waits_def, THEN conjunct1]
  note run = op_runs(2,3) [OF up i(1), unfolded i(2), simplified, where k = k]
  note left = op_left(1) [OF up _ i(1), unfolded i(2), simplified]
  obtain q' where q': "do_write ?c0 = Inr (?c0\<lparr>write_msg_queue := q', socket := Some (h @ [Sock_Write (length w)]),
      io_queue := io_queue ?c0 @ [Op_Write (map Some w)]\<rparr>)" "contents q' = []"
    using do_write_sends [of ?c0 q "[]" h w] q f inv_parts(2) [OF f(5)] by (auto simp: sendable_def)
  let ?c' = "?c0\<lparr>write_msg_queue := q', socket := Some (h @ [Sock_Write (length w)]),
      io_queue := io_queue ?c0 @ [Op_Write (map Some w)]\<rparr>"
  have cc: "client_complete net i k c = Inr ?c'" using run(1) q'(1) by simp
  then have "client_inv ?c'" by (rule run(2))
  then have "waits net d ([Op_Read_Head] @ [Op_Write (map Some w)]) r P ?c'"
    using f net by (intro waits_next [OF c(1) left refl, where m = m and h = "h @ [Sock_Write (length w)]"]) (simp_all add: fun_upd_idem)
  then show thesis using that cc q'(2) by simp
qed

lemma write_is_done:
  assumes c: "waits net d [Op_Read_Head, Op_Write b] r P c" "d < 2 ^ 31 - 1" "contents (write_msg_queue c) = []"
    and i: "i < length (io_queue c)" "io_queue c ! i = Op_Write b"
  obtains c' where "client_complete net i (Done []) c = Inr c'" "waits net d [Op_Read_Head] r P c'" "contents (write_msg_queue c') = []"
proof -
  let ?c0 = "c\<lparr>io_queue := without i (io_queue c)\<rparr>"
  let ?c' = "?c0\<lparr>delivered := delivered c @ [b]\<rparr>"
  obtain h m where f: "socket c = Some h" "sock_open net h" "objs c r = Some m" "P m" "client_inv c" "csq c = CSQ_ON"
    using waits_facts [OF c(1,2)] by metis
  note up = c(1) [unfolded waits_def, THEN conjunct1]
  note run = op_runs(2,3) [OF up i(1), unfolded i(2), simplified, where k = "Done []"]
  note left = op_left(1) [OF up _ i(1), unfolded i(2), simplified]
  have "do_write ?c' = Inr ?c'" using c(3) inv_parts(2) [OF f(5)] by (intro do_write_empty) simp_all
  then have cc: "client_complete net i (Done []) c = Inr ?c'"
    using run(1) f is_open_yes [of ?c' h net] by (simp add: handle_write_def)
  then have "client_inv ?c'" by (rule run(2))
  then have "waits net d ([Op_Read_Head] @ []) r P ?c'"
    using f by (intro waits_next [OF c(1) left refl, where m = m]) (simp_all add: fun_upd_idem)
  then show thesis using that cc c(3) by simp
qed

lemma header_arrives:
  assumes net: "asio_net net" and c: "waits net d [Op_Read_Head] r slot_waits c" "d < 2 ^ 31 - 1" and bd: "body_ok bd"
    and i: "i < length (io_queue c)" "io_queue c ! i = Op_Read_Head"
  obtains c' where "client_complete net i (Done (RPCStructHead_data (head_for (Suc d) bd))) c = Inr c'"
    "waits net d [Op_Read_Msg r (8 + length bd)] r (slot_filling (head_for (Suc d) bd)) c'" "write_msg_queue c' = write_msg_queue c"
proof -
  let ?c0 = "c\<lparr>io_queue := without i (io_queue c)\<rparr>" and ?hdr = "head_for (Suc d) bd"
  obtain h m where f: "socket c = Some h" "sock_open net h" "objs c r = Some m" "slot_waits m" "client_inv c"
      "SafeMap_lookup (recv_msg_map c) (sint (of_nat (Suc d) :: cint)) = Some (Some r)"
    using waits_facts [OF c] by metis
  note up = c(1) [unfolded waits_def, THEN conjunct1]
  note run = op_runs(2,3) [OF up i(1), unfolded i(2), simplified, where k = "Done (RPCStructHead_data ?hdr)"]
  note left = op_left(1) [OF up _ i(1), unfolded i(2), simplified]
  have sz: "sint (body_size ?hdr) = int (length bd)" using body_ok_size [OF bd] by simp
  have "slot_ok m" "sint (body_size ?hdr) + 20 < 2 ^ 31" using f(4) bd sz by (simp_all add: slot_waits_def body_ok_def)
  then obtain m1 where m1: "RPCStruct_set_head m ?hdr = Inr m1" "synced m1" "head_info m1 = ?hdr" "body_offset m1 = 20" "status m1 = status m"
    using set_head_slot [of m ?hdr] by metis
  have len: "size_t (RPCStruct_recv_msg_len m1) = 8 + length bd"
    using size_t_sum [of "body_size ?hdr" "meta_size ?hdr"] sz m1(3) bd by (simp add: RPCStruct_recv_msg_len_def body_ok_def)
  let ?c' = "?c0\<lparr>objs := (objs c)(r \<mapsto> m1), socket := Some (h @ [Sock_Read (8 + length bd)]),
    io_queue := io_queue ?c0 @ [Op_Read_Msg r (8 + length bd)]\<rparr>"
  note mi = inv_parts(1) [OF f(5)]
  have "handle_read_header net ?hdr 0 ?c0 = do_read_msg r (put_obj r m1 ?c0)"
    using is_open_yes [of ?c0 h net] f m1(1) sm.has_law [OF mi] map_obj_hit [of ?c0 "of_nat (Suc d)" r m] mi
      map_obj_hit [of "put_obj r m1 ?c0" "of_nat (Suc d)" r m1]
    by (simp add: handle_read_header_def)
  also have "\<dots> = Inr ?c'"
    using do_read_msg_synced [of "put_obj r m1 ?c0" r m1 h] m1(2) f(1) len by (simp add: put_obj_def)
  finally have cc: "client_complete net i (Done (RPCStructHead_data ?hdr)) c = Inr ?c'"
    using run(1) by (simp add: head_of_data_data)
  then have "client_inv ?c'" by (rule run(2))
  then have "waits net d ([] @ [Op_Read_Msg r (8 + length bd)]) r (slot_filling ?hdr) ?c'"
    using f m1 net by (intro waits_next [OF c(1) left refl, where m = m1 and h = "h @ [Sock_Read (8 + length bd)]"]) (simp_all add: slot_filling_def slot_waits_def)
  then show thesis using that cc by simp
qed

lemma body_arrives:
  assumes net: "asio_net net" and c: "waits net d [Op_Read_Msg r n] r (slot_filling (head_for (Suc d) bd)) c" "d < 2 ^ 31 - 1"
    and bd: "body_ok bd" and i: "i < length (io_queue c)" "io_queue c ! i = Op_Read_Msg r n"
  obtains c' where "client_complete net i (Done (take 8 meta_s @ bd)) c = Inr c'"
    "waits net d [Op_Read_Head] r (slot_filled (head_for (Suc d) bd) bd) c'" "write_msg_queue c' = write_msg_queue c"
proof -
  let ?c0 = "c\<lparr>io_queue := without i (io_queue c)\<rparr>" and ?hdr = "head_for (Suc d) bd" and ?mt = "take 8 meta_s"
  obtain h m where f: "socket c = Some h" "sock_open net h" "objs c r = Some m" "slot_filling ?hdr m" "client_inv c"
    using waits_facts [OF c] by metis
  note up = c(1) [unfolded waits_def, THEN conjunct1]
  note run = op_runs(2,3) [OF up i(1), unfolded i(2), simplified, where k = "Done (?mt @ bd)"]
  note left = op_left(1) [OF up _ i(1), unfolded i(2), simplified]
  obtain m' where m': "store_recv m (?mt @ bd) = Inr m'" "frame m' ?mt bd" "head_info m' = ?hdr"
    using frame_received [of m ?mt bd] f(4) body_ok_size [OF bd] by (auto simp: slot_filling_def)
  let ?m = "RPCStruct_set_status m' CT_READ_OK"
  let ?c' = "?c0\<lparr>objs := (objs c)(r \<mapsto> ?m), socket := Some (h @ [Sock_Read 12]), io_queue := io_queue ?c0 @ [Op_Read_Head]\<rparr>"
  have "handle_read_msg net r 0 (put_obj r m' ?c0) = Inr ?c'"
    using handle_read_msg_frame [OF net, of "put_obj r m' ?c0" h r m' ?mt bd] f m' bd by (simp add: put_obj_def body_ok_def)
  then have cc: "client_complete net i (Done (?mt @ bd)) c = Inr ?c'"
    using run(1) m'(1) f(3) by (simp add: obj_at_def)
  then have "client_inv ?c'" by (rule run(2))
  moreover have "slot_filled ?hdr bd ?m"
    using m'(2,3) by (simp add: slot_filled_def frame_def synced_def msg_wf_def RPCStruct_set_status_def do_close_timer_def)
  ultimately have "waits net d ([] @ [Op_Read_Head]) r (slot_filled ?hdr bd) ?c'"
    using f net by (intro waits_next [OF c(1) left refl, where m = ?m and h = "h @ [Sock_Read 12]"]) simp_all
  then show thesis using that cc by simp
qed

text \<open>The main thread polls.\<close>

lemma poll_waits:
  assumes "waits net d ops r P c" "\<And>m. P m \<Longrightarrow> \<not> read_done (status m)"
  shows "client_read_poll r c = Inr (False, c)"
  using assms by (auto simp: waits_def slot_at_def client_read_poll_def obj_at_def RPCStruct_get_status_def)

lemma poll_done:
  assumes c: "waits net d [Op_Read_Head] r (slot_filled (head_for (Suc d) bd) bd) c" "d < 2 ^ 31 - 1" "contents (write_msg_queue c) = []"
    and bd: "body_ok bd"
  obtains c' where "client_read_poll r c = Inr (True, c')"
    "client_main_report (Some r) c' = Inr (Read_Ok (c_str bd) (of_nat (length bd)), c')" "ready net (Suc d) c'"
proof -
  let ?hdr = "head_for (Suc d) bd" and ?mt = "take 8 meta_s"
  obtain h m where f: "socket c = Some h" "sock_open net h" "objs c r = Some m" "slot_filled ?hdr bd m" "client_inv c"
    using waits_facts [OF c(1,2)] by metis
  have m: "frame m ?mt bd" "head_info m = ?hdr" "status m = CT_READ_OK" using f(4) by (simp_all add: slot_filled_def)
  obtain q where q: "SafeQueue_push (of_nat (Suc d)) (del_reqid_list c) = Inr q" "SafeQueue_inv q"
      "contents q = contents (del_reqid_list c) @ [of_nat (Suc d)]"
    using sq.pushE [OF inv_parts(3) [OF f(5)]] by metis
  let ?e = "m\<lparr>erase_flag := CT_ERASE_STATE\<rparr>"
  let ?c' = "put_obj r ?e c\<lparr>del_reqid_list := q\<rparr>"
  have poll: "client_read_poll r c = Inr (True, ?c')"
    using f(3) m q(1) by (simp add: client_read_poll_def obj_at_def RPCStruct_get_status_def)
  have "frame ?e ?mt bd" using m(1) by simp
  then obtain rest where "RPCStruct_body ?e = Inr (map Some bd @ rest, ?e)" using frame_body by blast
  then have rep: "client_main_report (Some r) ?c' = Inr (Read_Ok (c_str bd) (of_nat (length bd)), ?c')"
    using m cstr_at_terminated [of bd rest] bd by (simp add: client_main_report_def obj_at_def RPCStruct_get_status_def put_obj_def body_ok_def)
  have inv: "client_inv ?c'" using res_invD [OF read_poll_inv [OF f(5)] poll] by simp
  have up: "client_up net d [Op_Read_Head] c" using c(1) by (simp add: waits_def)
  then have "client_up net (Suc d) [Op_Read_Head] ?c'"
    using inv q(3) index_int [OF c(2)] f(3) by (auto simp: client_up_def)
  moreover have "msg_index c = of_nat (Suc (Suc d))" using c(1) by (simp add: waits_def)
  ultimately have "ready net (Suc d) ?c'" using c(3) by (simp add: ready_def)
  then show thesis using that poll rep by blast
qed

section \<open>Stages of the session\<close>

definition taken :: "RPCStructHead \<Rightarrow> nat \<Rightarrow> link_session \<Rightarrow> bool" where
  "taken hdr n v \<longleftrightarrow> write_msgs v = [] \<and> (\<exists>m. in_flight v = [Read_Msg m n] \<and> synced m \<and> head_info m = hdr \<and> sint (body_offset m) = 20)"

definition answering :: "byte list \<Rightarrow> link_session \<Rightarrow> bool" where
  "answering a v \<longleftrightarrow> in_flight v = [Write_Msg (map Some a), Read_Head] \<and> (\<exists>m. write_msgs v = [m])"

lemma session_takes:
  assumes "session_idle v" "body_ok bd"
  obtains v' where "session_complete True 0 (Done (RPCStructHead_data (head_for k bd))) v = Inr v'"
    "taken (head_for k bd) (8 + length bd) v'" "call_fun v' = call_fun v"
proof -
  let ?h = "head_for k bd"
  have sz: "sint (meta_size ?h) = int (length (take 8 meta_s))" "sint (body_size ?h) = int (length bd)"
      "12 + int (length (take 8 meta_s)) + max 2048 (int (length bd)) < 2 ^ 31"
    using body_ok_size [OF assms(2)] assms(2) by (simp_all add: body_ok_def)
  obtain p r where r: "RPCStruct_recv_msg_buff (RPCStruct_ctor_head ?h default_pbs) = Inr (p, r)"
      "synced r" "head_info r = ?h" "12 + sint (meta_size ?h) = sint (body_offset r)"
      "size_t (RPCStruct_recv_msg_len r) = length (take 8 meta_s) + length bd"
    using fresh_receive [OF sz] .
  let ?v = "v\<lparr>in_flight := [Read_Msg r (8 + length bd)]\<rparr>"
  have "session_complete True 0 (Done (RPCStructHead_data ?h)) v = Inr ?v"
    using assms(1) r(1,5) by (simp add: session_complete_def session_handle_read_header_def head_of_data_data session_idle_def)
  moreover have "taken ?h (8 + length bd) ?v" using assms(1) r by (simp add: taken_def session_idle_def)
  ultimately show thesis using that by simp
qed

lemma session_answers:
  assumes v: "taken (head_for k bd) n v" and bd: "body_ok bd" and imp: "implements (call_fun v) g"
  obtains v' where "session_complete True 0 (Done (take 8 meta_s @ bd)) v = Inr v'"
    "answering (wire_for k (answer_body g bd)) v'" "call_fun v' = call_fun v"
proof -
  let ?h = "head_for k bd" and ?mt = "take 8 meta_s" and ?v0 = "v\<lparr>in_flight := []\<rparr>"
  obtain m where m: "in_flight v = [Read_Msg m n]" "synced m" "head_info m = ?h" "sint (body_offset m) = 20" "write_msgs v = []"
    using v by (auto simp: taken_def)
  obtain m' where m': "store_recv m (?mt @ bd) = Inr m'" "frame m' ?mt bd" "head_info m' = ?h"
    using frame_received [OF m(2), of ?mt bd] m(3,4) body_ok_size [OF bd] by auto
  have z: "0 \<in> set bd" using bd by (simp add: body_ok_def)
  obtain a mt' bd' where a: "frame a mt' bd'" "0 \<in> set bd'"
      "RPCStructHead_data (head_info a) @ mt' @ bd' = answer g (head_info m') ?mt bd"
      "reply m' ?v0 = session_do_write (?v0\<lparr>write_msgs := write_msgs ?v0 @ [a]\<rparr>)"
    using reply_pushes [OF m'(2) z, of ?v0 g] imp by auto
  let ?v' = "v\<lparr>in_flight := [Write_Msg (map Some (wire_for k (answer_body g bd))), Read_Head], write_msgs := [a]\<rparr>"
  have w: "RPCStructHead_data (head_info a) @ mt' @ bd' = wire_for k (answer_body g bd)" using a(3) m'(3) answer_wire by simp
  have "session_complete True 0 (Done (?mt @ bd)) v = Inr ?v'"
    using m m'(1) read_msg_frame [OF m'(2) z] a(4) w do_write_frame [OF _ a(1,2), of "?v0\<lparr>write_msgs := [a]\<rparr>" "[]"]
    by (simp add: session_complete_def session_start_def session_do_read_def)
  then show thesis by (rule that) (simp_all add: answering_def)
qed

lemma session_is_sent:
  assumes "answering a v"
  obtains v' where "session_complete True 0 (Done []) v = Inr v'" "session_idle v'" "call_fun v' = call_fun v"
  using assms that [of "v\<lparr>in_flight := [Read_Head], write_msgs := [], sent := sent v @ [map Some a]\<rparr>"]
  by (auto simp: answering_def session_complete_def session_handle_write_def session_idle_def)

end
