(* ===== verification/Exchange.thy ===== *)
theory Exchange
  imports System
begin

text \<open>
  One message and its answer as a run of calls and completions, for messages of any size and a client that
  may have other operations pending: \<open>write\<close> in \<open>include/client_async_loop.h\<close>, the handlers that send it, the
  session of \<open>include/server_async_loop.h\<close>, the handlers that receive the answer, \<open>read\<close>, and what the client
  program prints. Theory \<open>Conversation\<close> is about all runs of the client program instead.
\<close>

section \<open>Sending and receiving\<close>

text \<open>A connected client with nothing left to send and its header read pending at position \<open>i\<close>.\<close>

definition client_ready :: "net \<Rightarrow> nat \<Rightarrow> client_loop \<Rightarrow> bool" where
  "client_ready net i s \<longleftrightarrow> csq s = CSQ_ON \<and> clietn_status s = CT_CONN_OK \<and> (\<exists>h. socket s = Some h \<and> sock_open net h)
     \<and> SafeMap_inv (recv_msg_map s) \<and> SafeQueue_inv (write_msg_queue s) \<and> contents (write_msg_queue s) = []
     \<and> SafeQueue_inv (del_reqid_list s) \<and> i < length (io_queue s) \<and> io_queue s ! i = Op_Read_Head"

lemma answer_frame:
  assumes "sint n = int (length bd)" "int (length bd) + 20 < 2 ^ 31"
  shows "answer g \<lparr>req_id = i, body_size = n, meta_size = 8\<rparr> (take 8 meta_s) bd =
    RPCStructHead_data \<lparr>req_id = i, body_size = of_nat (length (answer_body g bd)), meta_size = 8\<rparr>
      @ take 8 meta_s @ answer_body g bd"
proof -
  have "n = of_nat (length bd)" using arg_cong [OF assms(1), of "word_of_int :: int \<Rightarrow> cint"] by simp
  then show ?thesis by (simp add: answer_def answer_body_def split: option.split)
qed

text \<open>The written message goes out with the posted send and its completion.\<close>

lemma ready_client_sends:
  assumes net: "asio_net net" and s: "client_ready net i s"
    and msg: "sint n = int (length bd)" "int (length bd) + 20 < 2 ^ 31" "take (length bd) d = map Some bd" "0 \<in> set bd"
  defines "k \<equiv> Suc (length (io_queue s))" and "r \<equiv> Suc (obj_next s)"
  obtains s1 s2 h where "client_write d n t s = Inr (msg_index s, s1)" "client_run net [(k, Done []), (k, Done [])] s1 = Inr s2"
    "delivered s2 = delivered s @ [map Some (RPCStructHead_data \<lparr>req_id = msg_index s, body_size = n, meta_size = 8\<rparr> @ take 8 meta_s @ bd)]"
    "SafeMap_inv (recv_msg_map s2)" "SafeMap_lookup (recv_msg_map s2) (sint (msg_index s)) = Some (Some r)"
    "objs s2 r = Some (do_init_timer (recv_slot (msg_index s)) t)" "socket s2 = Some h" "sock_open net h"
    "SafeQueue_inv (del_reqid_list s2)" "io_queue s2 = io_queue s @ [Msg_Timer r]"
proof -
  let ?hd = "\<lparr>req_id = msg_index s, body_size = n, meta_size = 8\<rparr>"
  obtain h where h: "socket s = Some h" "sock_open net h" using s by (auto simp: client_ready_def)
  obtain m s1 where w: "client_write d n t s = Inr (msg_index s, s1)" "written s t m s1" "frame m (take 8 meta_s) bd" "head_info m = ?hd"
    using client_write_frame [OF _ _ msg] s unfolding client_ready_def by metis
  let ?ops = "io_queue s @ [Msg_Timer r]" and ?w = "RPCStructHead_data ?hd @ take 8 meta_s @ bd"
  let ?p = "s1\<lparr>io_queue := ?ops\<rparr>"
  have s1: "io_queue s1 = ?ops @ [Post_Write]" "contents (write_msg_queue s1) = [Some (obj_next s)]" "SafeQueue_inv (write_msg_queue s1)"
      "clietn_status s1 = CT_CONN_OK" "socket s1 = Some h" "objs s1 (obj_next s) = Some m" "csq s1 = CSQ_ON"
    using w(2) s h(1) by (simp_all add: written_def client_ready_def r_def)
  have "sendable ?p (obj_next s) ?w" unfolding sendable_def using s1(6) w(3,4) msg(4) by fastforce
  then obtain q where q: "do_write ?p = Inr (?p\<lparr>write_msg_queue := q, socket := Some (h @ [Sock_Write (length ?w)]),
      io_queue := ?ops @ [Op_Write (map Some ?w)]\<rparr>)" "SafeQueue_inv q" "contents q = []"
    using do_write_sends [of ?p "obj_next s" "[]" h ?w] s1 by auto
  let ?s2 = "?p\<lparr>write_msg_queue := q, socket := Some (h @ [Sock_Write (length ?w)]), io_queue := ?ops @ [Op_Write (map Some ?w)]\<rparr>"
  let ?s3 = "?s2\<lparr>io_queue := ?ops, delivered := delivered ?s2 @ [map Some ?w]\<rparr>"
  have "client_complete net k (Done []) s1 = Inr ?s2" using q(1) s1(1) by (simp add: client_complete_def k_def nth_append)
  moreover have "sending net ?s2 ?ops ?w []" using q(2,3) s1(4,7) h(2) net by (simp add: sending_def)
  from write_completes_last [OF this] have "client_complete net k (Done []) ?s2 = Inr ?s3" by (simp add: k_def)
  ultimately have run: "client_run net [(k, Done []), (k, Done [])] s1 = Inr ?s3" by simp
  show thesis
    by (rule that [OF w(1) run, of "h @ [Sock_Write (length ?w)]"])
      (use w(2) s h net in \<open>simp_all add: written_def client_ready_def r_def\<close>)
qed

text \<open>The answer is received into the slot and read from there.\<close>

lemma answer_is_read:
  assumes net: "asio_net net" "socket s = Some h" "sock_open net h"
    and slot: "SafeMap_inv (recv_msg_map s)" "SafeMap_lookup (recv_msg_map s) (sint j) = Some (Some r)"
      "objs s r = Some m" "slot_ok m" "SafeQueue_inv (del_reqid_list s)"
    and op: "i < length (io_queue s)" "io_queue s ! i = Op_Read_Head"
    and msg: "length mt = 8" "int (length bd) + 20 < 2 ^ 31" "0 \<in> set bd"
  defines "n \<equiv> of_nat (length bd) :: cint"
  obtains s2 s3 where
    "client_run net [(i, Done (RPCStructHead_data \<lparr>req_id = j, body_size = n, meta_size = 8\<rparr>)), (length (io_queue s) - 1, Done (mt @ bd))] s = Inr s2"
    "client_read_find j s2 = Inr (Some r, s2)" "client_read_poll r s2 = Inr (True, s3)"
    "client_main_report (Some r) s3 = Inr (Read_Ok (c_str bd) n, s3)"
proof -
  let ?hd = "\<lparr>req_id = j, body_size = n, meta_size = 8\<rparr>" and ?rest = "without i (io_queue s)"
  have sz: "sint (meta_size ?hd) = int (length mt)" "sint (body_size ?hd) = int (length bd)"
    using msg sint_of_nat_cint [of "length bd"] by (simp_all add: n_def)
  obtain s1 m1 k where d: "client_complete net i (Done (RPCStructHead_data ?hd)) s = Inr s1"
    "client_complete net (length ?rest) (Done (mt @ bd)) s1 =
       Inr (s\<lparr>objs := (objs s)(r \<mapsto> RPCStruct_set_status m1 CT_READ_OK),
         socket := Some (h @ [Sock_Read (length (mt @ bd)), Sock_Read 12]), io_queue := ?rest @ [Op_Read_Head]\<rparr>)"
    "frame m1 mt bd" "head_info m1 = ?hd"
    using response_delivered [OF net slot(1) _ slot(3,4) op sz(1) msg(1) sz(2) msg(2,3)] slot(2) by (metis RPCStructHead.select_convs(1))
  let ?m = "RPCStruct_set_status m1 CT_READ_OK"
  let ?s2 = "s\<lparr>objs := (objs s)(r \<mapsto> ?m), socket := Some (h @ [Sock_Read (length (mt @ bd)), Sock_Read 12]),
    io_queue := ?rest @ [Op_Read_Head]\<rparr>"
  have len: "length ?rest = length (io_queue s) - 1" using op(1) by simp
  have run: "client_run net [(i, Done (RPCStructHead_data ?hd)), (length (io_queue s) - 1, Done (mt @ bd))] s = Inr ?s2"
    using d(1,2) unfolding len by simp
  have st: "RPCStruct_get_status ?m = CT_READ_OK" "head_info ?m = ?hd"
    using d(4) by (simp_all add: RPCStruct_get_status_def RPCStruct_set_status_def do_close_timer_def)
  have fd: "client_read_find j ?s2 = Inr (Some r, ?s2)"
    using sm.has_law [OF slot(1), of "sint j"] slot(1,2) map_obj_hit [of ?s2 j r ?m] by (simp add: client_read_find_def)
  obtain q where q: "SafeQueue_push j (del_reqid_list s) = Inr q" using sq.pushE [OF slot(5)] by metis
  let ?e = "?m\<lparr>erase_flag := CT_ERASE_STATE\<rparr>"
  let ?s3 = "put_obj r ?e ?s2\<lparr>del_reqid_list := q\<rparr>"
  have poll: "client_read_poll r ?s2 = Inr (True, ?s3)"
    using q st by (simp add: client_read_poll_def obj_at_def)
  have "frame ?e mt bd"
    using d(3) by (simp add: frame_def synced_def msg_wf_def RPCStruct_set_status_def do_close_timer_def)
  then obtain p where "RPCStruct_body ?e = Inr (map Some bd @ p, ?e)" using frame_body by blast
  then have "client_main_report (Some r) ?s3 = Inr (Read_Ok (c_str bd) n, ?s3)"
    using st cstr_at_terminated [OF msg(3), of p]
    by (simp add: client_main_report_def obj_at_def RPCStruct_get_status_def put_obj_def)
  with run fd poll show thesis by (rule that)
qed

section \<open>The exchange\<close>

text \<open>A message travels through the whole system: \<open>write\<close> on a connected client and the completion
  of its send put one frame on the wire; the session that receives this frame as header and rest sends
  one answer; the client that receives that answer the same way makes \<open>read\<close> with the returned id
  return, and what the client program then prints is the answer of the abstract server to the message,
  with its length. The server may echo or call back, and the client may have other operations pending.\<close>

theorem request_answered:
  assumes "asio_net net" "client_ready net i s" "session_idle v" "implements (call_fun v) g"
    and "sint n = int (length bd)" "12 + 8 + max 2048 (int (length bd)) < 2 ^ 31" "take (length bd) d = map Some bd" "0 \<in> set bd"
  defines "k \<equiv> length (io_queue s)"
  shows "\<exists>s1 s2 w a s3 s4 r. client_write d n t s = Inr (msg_index s, s1)
    \<and> client_run net [(Suc k, Done []), (Suc k, Done [])] s1 = Inr s2 \<and> delivered s2 = delivered s @ [map Some w]
    \<and> session_run [(True, 0, Done (take 12 w)), (True, 0, Done (drop 12 w)), (True, 0, Done [])] v =
        Inr (v\<lparr>sent := sent v @ [map Some a]\<rparr>)
    \<and> client_run net [(i, Done (take 12 a)), (k, Done (drop 12 a))] s2 = Inr s3
    \<and> client_read_find (msg_index s) s3 = Inr (Some r, s3) \<and> client_read_poll r s3 = Inr (True, s4)
    \<and> client_main_report (Some r) s4 = Inr (Read_Ok (c_str (answer_body g bd)) (of_nat (length (answer_body g bd))), s4)"
proof -
  let ?r = "Suc (obj_next s)" and ?hd = "\<lparr>req_id = msg_index s, body_size = n, meta_size = 8\<rparr>"
  let ?w = "RPCStructHead_data ?hd @ take 8 meta_s @ bd" and ?b = "answer_body g bd"
  let ?a = "RPCStructHead_data \<lparr>req_id = msg_index s, body_size = of_nat (length ?b), meta_size = 8\<rparr> @ take 8 meta_s @ ?b"
  have len: "int (length bd) + 20 < 2 ^ 31" using assms(6) by simp
  obtain s1 s2 h where c: "client_write d n t s = Inr (msg_index s, s1)"
    "client_run net [(Suc (length (io_queue s)), Done []), (Suc (length (io_queue s)), Done [])] s1 = Inr s2"
    "delivered s2 = delivered s @ [map Some ?w]"
    "SafeMap_inv (recv_msg_map s2)" "SafeMap_lookup (recv_msg_map s2) (sint (msg_index s)) = Some (Some ?r)"
    "objs s2 ?r = Some (do_init_timer (recv_slot (msg_index s)) t)" "socket s2 = Some h" "sock_open net h"
    "SafeQueue_inv (del_reqid_list s2)" "io_queue s2 = io_queue s @ [Msg_Timer ?r]"
    by (rule ready_client_sends [OF assms(1,2,5) len assms(7,8)])
  have "valid_request ?hd (take 8 meta_s) bd" using assms(5,6,8) by (simp add: valid_request_def)
  from request_cycle [OF assms(3) this assms(4)]
  have srv: "session_run [(True, 0, Done (take 12 ?w)), (True, 0, Done (drop 12 ?w)), (True, 0, Done [])] v =
      Inr (v\<lparr>sent := sent v @ [map Some ?a]\<rparr>)"
    using answer_frame [OF assms(5) len] by (simp add: request_events_def)
  have slot: "slot_ok (do_init_timer (recv_slot (msg_index s)) t)"
    using slot_ok_recv_slot [of "msg_index s"] by (auto simp: slot_ok_def msg_wf_def do_init_timer_def)
  have op: "i < length (io_queue s2)" "io_queue s2 ! i = Op_Read_Head"
    using assms(2) c(10) by (simp_all add: client_ready_def nth_append)
  obtain s3 s4 where "client_run net [(i, Done (take 12 ?a)), (k, Done (drop 12 ?a))] s2 = Inr s3"
    "client_read_find (msg_index s) s3 = Inr (Some ?r, s3)" "client_read_poll ?r s3 = Inr (True, s4)"
    "client_main_report (Some ?r) s4 = Inr (Read_Ok (c_str ?b) (of_nat (length ?b)), s4)"
    using answer_is_read [OF assms(1) c(7,8,4,5,6) slot c(9) op meta_length(1) answer_body_ok(2,1) [OF assms(4) len assms(8)]] c(10)
    by (auto simp: k_def)
  with c(1,2,3) srv show ?thesis unfolding k_def by blast
qed

end
