(* ===== verification/Conversation.thy ===== *)
theory Conversation
  imports System
begin

text \<open>
  Conversations of the system of theory \<open>System\<close>: the stages a message passes through, that a timer leaves a
  message where it is and that every other step brings it to the next stage, the invariant of the whole
  system over any number of messages, and that the conversation can always be brought to its end.
\<close>

section \<open>A message under way\<close>

text \<open>
  Where request \<open>d + 1\<close> with body \<open>bd\<close> can be while the main thread polls its slot: the client, the session,
  the bytes in the two streams, and the number of handlers that are still to run for it.
\<close>

inductive stage :: "net \<Rightarrow> (byte list \<Rightarrow> byte list option) \<Rightarrow> nat \<Rightarrow> byte list \<Rightarrow> nat \<Rightarrow> client_loop \<Rightarrow> link_session \<Rightarrow>
    byte list \<Rightarrow> byte list \<Rightarrow> nat \<Rightarrow> bool" for net g d bd r where
  st_posted: "waits net d [Op_Read_Head, Post_Write] r slot_waits c \<Longrightarrow> contents (write_msg_queue c) = [Some q] \<Longrightarrow>
     sendable c q (wire_for (Suc d) bd) \<Longrightarrow> session_idle v \<Longrightarrow> stage net g d bd r c v [] [] 7"
| st_writing: "waits net d [Op_Read_Head, Op_Write (map Some (wire_for (Suc d) bd))] r slot_waits c \<Longrightarrow>
     contents (write_msg_queue c) = [] \<Longrightarrow> session_idle v \<Longrightarrow> stage net g d bd r c v [] [] 6"
| st_sent: "waits net d [Op_Read_Head] r slot_waits c \<Longrightarrow> contents (write_msg_queue c) = [] \<Longrightarrow> session_idle v \<Longrightarrow>
     stage net g d bd r c v (wire_for (Suc d) bd) [] 5"
| st_taken: "waits net d [Op_Read_Head] r slot_waits c \<Longrightarrow> contents (write_msg_queue c) = [] \<Longrightarrow>
     taken (head_for (Suc d) bd) (8 + length bd) v \<Longrightarrow> stage net g d bd r c v (take 8 meta_s @ bd) [] 4"
| st_answering: "waits net d [Op_Read_Head] r slot_waits c \<Longrightarrow> contents (write_msg_queue c) = [] \<Longrightarrow>
     answering (wire_for (Suc d) (answer_body g bd)) v \<Longrightarrow> stage net g d bd r c v [] [] 3"
| st_answered: "waits net d [Op_Read_Head] r slot_waits c \<Longrightarrow> contents (write_msg_queue c) = [] \<Longrightarrow> session_idle v \<Longrightarrow>
     stage net g d bd r c v [] (wire_for (Suc d) (answer_body g bd)) 2"
| st_receiving: "waits net d [Op_Read_Msg r (8 + length (answer_body g bd))] r (slot_filling (head_for (Suc d) (answer_body g bd))) c \<Longrightarrow>
     contents (write_msg_queue c) = [] \<Longrightarrow> session_idle v \<Longrightarrow> stage net g d bd r c v [] (take 8 meta_s @ answer_body g bd) (Suc 0)"
| st_received: "waits net d [Op_Read_Head] r (slot_filled (head_for (Suc d) (answer_body g bd)) (answer_body g bd)) c \<Longrightarrow>
     contents (write_msg_queue c) = [] \<Longrightarrow> session_idle v \<Longrightarrow> stage net g d bd r c v [] [] 0"

lemma waits_undisturbed:
  assumes "undisturbed d c c'" "\<And>ops. client_up net d ops c \<Longrightarrow> client_up net d ops c'" "waits net d ops r P c" "flag_free P"
  shows "waits net d ops r P c'"
  using assms slot_undisturbed [OF assms(1,4), of "Suc d" r] by (simp add: waits_def undisturbed_def)

text \<open>Timers do not move a message.\<close>

lemma stage_undisturbed:
  assumes u: "undisturbed d c c'" "\<And>ops. client_up net d ops c \<Longrightarrow> client_up net d ops c'" and s: "stage net g d bd r c v x y n"
  shows "stage net g d bd r c' v x y n"
proof -
  have w: "waits net d ops r P c \<Longrightarrow> flag_free P \<Longrightarrow> waits net d ops r P c'" for ops P
    by (rule waits_undisturbed [OF u(1)]) (rule u(2))
  have q: "write_msg_queue c' = write_msg_queue c" using u(1) by (simp add: undisturbed_def)
  show ?thesis using s
  proof cases
    case (st_posted q)
    then show ?thesis using w flag_free_slots(1) sendable_undisturbed [OF u(1)] u(1) by (auto simp: undisturbed_def intro!: stage.st_posted)
  next
    case st_writing
    then show ?thesis using w flag_free_slots(1) q by (simp add: stage.st_writing)
  next
    case st_sent
    then show ?thesis using w flag_free_slots(1) q by (simp add: stage.st_sent)
  next
    case st_taken
    then show ?thesis using w flag_free_slots(1) q by (simp add: stage.st_taken)
  next
    case st_answering
    then show ?thesis using w flag_free_slots(1) q by (simp add: stage.st_answering)
  next
    case st_answered
    then show ?thesis using w flag_free_slots(1) q by (simp add: stage.st_answered)
  next
    case st_receiving
    then show ?thesis using w flag_free_slots(2) q by (simp add: stage.st_receiving)
  next
    case st_received
    then show ?thesis using w flag_free_slots(3) q by (simp add: stage.st_received)
  qed
qed

lemma wire_front: "wire_for k bd = bs @ rest \<Longrightarrow> length bs = size_t RPCStructHead_data_len \<Longrightarrow>
    bs = RPCStructHead_data (head_for k bd) \<and> rest = take 8 meta_s @ bd"
  by (auto simp: wire_for_def append_eq_append_conv RPCStructHead_data_len_def)

lemma rest_front:
  assumes "take 8 meta_s @ bd = bs @ rest" "length bs = 8 + length bd"
  shows "bs = take 8 meta_s @ bd \<and> rest = []"
proof -
  have "length (take 8 meta_s @ bd) = length (bs @ rest)" using assms(1) by (rule arg_cong)
  then have "rest = []" using assms(2) by simp
  then show ?thesis using assms(1) by simp
qed

lemma stage_timer:
  assumes d: "d < 2 ^ 31 - 1" and s: "stage net g d bd r c v x y n" and i: "i < length (io_queue c)" and timer: "is_timer (io_queue c ! i)"
    and k: "client_completes c (io_queue c ! i) k" "client_io (io_queue c ! i) k (x, y) (x', y')"
  shows "\<exists>c'. client_complete net i k c = Inr c' \<and> stage net g d bd r c' v x' y' n"
proof -
  obtain ops where ops: "client_up net d ops c" using s by cases (auto simp: waits_def)
  have "d < 2 ^ 31" using d by simp
  from timer_step [OF ops this i timer k] obtain c1 where
    c1: "client_complete net i k c = Inr c1" "client_up net d ops c1" "undisturbed d c c1" "x' = x" "y' = y" by metis
  have "client_up net d ops' c1" if "client_up net d ops' c" for ops'
    using that ops c1(2) by (simp add: client_up_def)
  from stage_undisturbed [OF c1(3) this s] c1 show ?thesis by auto
qed

text \<open>Any other handler that can run brings the message on; every other read waits for bytes.\<close>

lemma stage_op:
  assumes net: "asio_net net" and d: "d < 2 ^ 31 - 1" and ab: "body_ok (answer_body g bd)"
    and s: "stage net g d bd r c v x y n" and i: "i < length (io_queue c)" and other: "\<not> is_timer (io_queue c ! i)"
    and k: "client_completes c (io_queue c ! i) k" "client_io (io_queue c ! i) k (x, y) (x', y')"
  shows "\<exists>c'. client_complete net i k c = Inr c' \<and> (\<exists>n'. stage net g d bd r c' v x' y' n')"
proof -
  have op: "io_queue c ! i \<in> set ops" if "waits net d ops r P c" "distinct ops" for ops P
    using op_left(2) [of net d ops, OF _ that(2) i other] that(1) by (simp add: waits_def)
  let ?ab = "answer_body g bd"
  show ?thesis using s
  proof cases
    case (st_posted q)
    consider "io_queue c ! i = Post_Write" | "io_queue c ! i = Op_Read_Head" using op [OF st_posted(4)] by auto
    then show ?thesis
    proof cases
      case 1
      then have "x' = []" "y' = []" using k st_posted by (cases k; simp)+
      then show ?thesis using posted_sends [OF net st_posted(4) d st_posted(5,6) i 1, of k] st_posted(7) by (metis stage.st_writing)
    next
      case 2
      then show ?thesis using k st_posted by (cases k) (simp_all add: RPCStructHead_data_len_def)
    qed
  next
    case st_writing
    consider "io_queue c ! i = Op_Write (map Some (wire_for (Suc d) bd))" | "io_queue c ! i = Op_Read_Head" using op [OF st_writing(4)] by auto
    then show ?thesis
    proof cases
      case 1
      then have "x' = wire_for (Suc d) bd" "y' = []" "k = Done []" using k st_writing by (cases k; simp add: comp_def)+
      then show ?thesis using write_is_done [OF st_writing(4) d st_writing(5) i 1] st_writing(6) by (metis stage.st_sent)
    next
      case 2
      then show ?thesis using k st_writing by (cases k) (simp_all add: RPCStructHead_data_len_def)
    qed
  next
    case st_answered
    have o: "io_queue c ! i = Op_Read_Head" using op [OF st_answered(4)] by auto
    with k st_answered obtain bs where bs: "k = Done bs" "x' = []" "wire_for (Suc d) ?ab = bs @ y'" "length bs = size_t RPCStructHead_data_len"
      by (cases k) auto
    then have "bs = RPCStructHead_data (head_for (Suc d) ?ab)" "y' = take 8 meta_s @ ?ab" using wire_front by blast+
    then show ?thesis using header_arrives [OF net st_answered(4) d ab i o] bs(1,2) st_answered(5,6) by (metis stage.st_receiving)
  next
    case st_receiving
    have o: "io_queue c ! i = Op_Read_Msg r (8 + length ?ab)" using op [OF st_receiving(4)] by auto
    with k st_receiving obtain bs where bs: "k = Done bs" "x' = []" "take 8 meta_s @ ?ab = bs @ y'" "length bs = 8 + length ?ab"
      by (cases k) auto
    then have "bs = take 8 meta_s @ ?ab" "y' = []" using rest_front by blast+
    then show ?thesis using body_arrives [OF net st_receiving(4) d ab i o] bs(1,2) st_receiving(5,6) by (metis stage.st_received)
  qed (use op k in \<open>cases k; fastforce simp: RPCStructHead_data_len_def\<close>)+
qed

lemma stage_client:
  assumes net: "asio_net net" and d: "d < 2 ^ 31 - 1" and ab: "body_ok (answer_body g bd)"
    and s: "stage net g d bd r c v x y n" and i: "i < length (io_queue c)"
    and k: "client_completes c (io_queue c ! i) k" "client_io (io_queue c ! i) k (x, y) (x', y')"
  shows "\<exists>c'. client_complete net i k c = Inr c' \<and> (\<exists>n'. stage net g d bd r c' v x' y' n')"
  using stage_timer [OF d s i _ k] stage_op [OF net d ab s i _ k] by blast

lemma stage_session:
  assumes bd: "body_ok bd" and imp: "implements (call_fun v) g" and s: "stage net g d bd r c v x y n"
    and i: "i < length (in_flight v)" and k: "op_completes (in_flight v ! i) k" "session_io (in_flight v ! i) k (x, y) (x', y')"
  shows "\<exists>v'. session_complete True i k v = Inr v' \<and> (\<exists>n'. stage net g d bd r c v' x' y' n') \<and> call_fun v' = call_fun v"
  using s
proof cases
  case st_sent
  then have o: "in_flight v ! i = Read_Head" "i = 0" using i by (simp_all add: session_idle_def)
  with k st_sent obtain bs where bs: "k = Done bs" "y' = []" "wire_for (Suc d) bd = bs @ x'" "length bs = size_t RPCStructHead_data_len"
    by (cases k) auto
  then have "bs = RPCStructHead_data (head_for (Suc d) bd)" "x' = take 8 meta_s @ bd" using wire_front by blast+
  then show ?thesis using session_takes [OF st_sent(6) bd, of "Suc d"] bs(1,2) o(2) st_sent(4,5) by (metis stage.st_taken)
next
  case st_taken
  then obtain m where o: "in_flight v ! i = Read_Msg m (8 + length bd)" "i = 0" using i by (auto simp: taken_def)
  with k st_taken obtain bs where bs: "k = Done bs" "y' = []" "take 8 meta_s @ bd = bs @ x'" "length bs = 8 + length bd"
    by (cases k) auto
  then have "bs = take 8 meta_s @ bd" "x' = []" using rest_front by blast+
  then show ?thesis using session_answers [OF st_taken(6) bd imp] bs(1,2) o(2) st_taken(4,5) by (metis stage.st_answering)
next
  case st_answering
  let ?a = "wire_for (Suc d) (answer_body g bd)"
  have fl: "in_flight v = [Write_Msg (map Some ?a), Read_Head]" using st_answering by (simp add: answering_def)
  show ?thesis
  proof (cases "i = 0")
    case True
    then have "k = Done []" "x' = []" "y' = ?a" using k fl st_answering by (cases k; simp add: comp_def)+
    then show ?thesis using session_is_sent [OF st_answering(6)] True st_answering(4,5) by (metis stage.st_answered)
  next
    case False
    then have "in_flight v ! i = Read_Head" using i fl by (simp add: less_Suc_eq)
    then show ?thesis using k st_answering by (cases k) (simp_all add: RPCStructHead_data_len_def)
  qed
qed (use i k in \<open>cases k; force simp: session_idle_def RPCStructHead_data_len_def\<close>)+

section \<open>The whole conversation\<close>

text \<open>The messages so far have been answered and printed, in order; the rest of the input is still to come.\<close>

definition so_far :: "(byte list \<Rightarrow> byte list option) \<Rightarrow> byte list list \<Rightarrow> byte list list \<Rightarrow> byte list list \<Rightarrow> client_prog \<Rightarrow> bool" where
  "so_far g input ls now p \<longleftrightarrow> messages input = ls @ now @ messages (cp_input p) \<and> cp_out p = map (reported g) ls
     \<and> set (cp_input p) \<subseteq> set input"

definition sys_inv :: "net \<Rightarrow> (byte list \<Rightarrow> byte list option) \<Rightarrow> byte list list \<Rightarrow> rpc_system \<Rightarrow> bool" where
  "sys_inv net g input y \<longleftrightarrow> implements (call_fun (sy_session y)) g \<and>
     (case cp_phase (sy_prog y) of
        At_Input \<Rightarrow> \<exists>ls. so_far g input ls [] (sy_prog y) \<and> ready net (length ls) (cp_client (sy_prog y)) \<and> session_idle (sy_session y)
          \<and> up y = [] \<and> down y = []
      | Reading r \<Rightarrow> \<exists>ls l. so_far g input ls [l] (sy_prog y)
          \<and> (\<exists>n. stage net g (length ls) (l @ [0]) r (cp_client (sy_prog y)) (sy_session y) (up y) (down y) n)
      | Ended \<Rightarrow> cp_out (sy_prog y) = map (reported g) (messages input) \<and> session_idle (sy_session y) \<and> up y = [])"

lemma messages_Cons:
  "messages [] = []" "messages (l # ls) = (if l \<noteq> str_bytes ''exit'' \<and> length l < 1024 then l # messages ls else [])"
  by (simp_all add: messages_def)

lemma messages_mem: "l \<in> set (messages input) \<Longrightarrow> l \<in> set input \<and> length l < 1024"
  by (auto simp: messages_def dest: set_takeWhileD)

lemma messages_length: "length (messages input) \<le> length input"
  by (simp add: messages_def length_takeWhile_le)

lemma line_body_ok: "length l < 1024 \<Longrightarrow> body_ok (l @ [0])"
  by (simp add: body_ok_def)

lemma at_inputE:
  assumes "sys_inv net g input y" "cp_phase (sy_prog y) = At_Input" "length input < 2 ^ 31"
  obtains ls where "so_far g input ls [] (sy_prog y)" "ready net (length ls) (cp_client (sy_prog y))" "session_idle (sy_session y)"
    "up y = []" "down y = []" "implements (call_fun (sy_session y)) g" "length ls < 2 ^ 31"
proof -
  obtain ls where ls: "so_far g input ls [] (sy_prog y)" "ready net (length ls) (cp_client (sy_prog y))" "session_idle (sy_session y)"
      "up y = []" "down y = []" "implements (call_fun (sy_session y)) g"
    using assms(1,2) by (auto simp: sys_inv_def)
  then have "length (messages input) = length (ls @ messages (cp_input (sy_prog y)))" by (simp add: so_far_def)
  then have "length ls < 2 ^ 31" using messages_length [of input] assms(3) by simp
  with ls show thesis by (rule that)
qed

lemma readingE:
  assumes "sys_inv net g input y" "cp_phase (sy_prog y) = Reading r" "length input < 2 ^ 31"
  obtains ls l n where "so_far g input ls [l] (sy_prog y)"
    "stage net g (length ls) (l @ [0]) r (cp_client (sy_prog y)) (sy_session y) (up y) (down y) n"
    "implements (call_fun (sy_session y)) g" "length ls < 2 ^ 31 - 1" "body_ok (l @ [0])" "body_ok (answer_body g (l @ [0]))"
proof -
  obtain ls l n where ls: "so_far g input ls [l] (sy_prog y)"
      "stage net g (length ls) (l @ [0]) r (cp_client (sy_prog y)) (sy_session y) (up y) (down y) n"
      "implements (call_fun (sy_session y)) g"
    using assms(1,2) by (auto simp: sys_inv_def)
  then have m: "messages input = ls @ [l] @ messages (cp_input (sy_prog y))" by (simp add: so_far_def)
  have "length ls < 2 ^ 31 - 1" using arg_cong [OF m, of length] messages_length [of input] assms(3) by simp
  moreover have "body_ok (l @ [0])" using messages_mem [of l input] m by (simp add: line_body_ok)
  ultimately show thesis using that ls body_ok_answer by blast
qed

text \<open>The main thread at its input.\<close>

lemma main_sends_line:
  assumes inp: "length input < 2 ^ 31" and y: "sys_inv net g input y" "cp_phase (sy_prog y) = At_Input"
    and l: "cp_input (sy_prog y) = l # rest" "0 \<notin> set l" "length l < 1024" "l \<noteq> str_bytes ''exit''"
  shows "\<exists>p' r. client_prog_main net (sy_prog y) = Inr p' \<and> sys_inv net g input (y\<lparr>sy_prog := p'\<rparr>)
    \<and> cp_phase p' = Reading r \<and> cp_input p' = rest"
proof -
  let ?p = "sy_prog y" and ?line = "map Some (l @ [0]) @ drop (Suc (length l)) (cp_line (sy_prog y))"
  obtain ls where ls: "so_far g input ls [] ?p" "ready net (length ls) (cp_client ?p)" "session_idle (sy_session y)"
      "up y = []" "down y = []" "implements (call_fun (sy_session y)) g"
    using at_inputE [OF y inp] by blast
  have m: "messages (cp_input ?p) = l # messages rest" using l by (simp add: messages_Cons)
  have "messages input = ls @ l # messages rest" using ls(1) m by (simp add: so_far_def)
  then have "length ls < 2 ^ 31 - 1" using messages_length [of input] inp by simp
  from line_is_sent [OF ls(2) this l(2-4)] obtain c' r q where
    c': "client_main_line net ?line (cp_client ?p) = Inr (Line_Sent (of_nat (Suc (length ls))) (Some r), c')"
      "waits net (length ls) [Op_Read_Head, Post_Write] r slot_waits c'" "contents (write_msg_queue c') = [Some q]"
      "sendable c' q (wire_for (Suc (length ls)) (l @ [0]))" by blast
  let ?p' = "?p\<lparr>cp_input := rest, cp_line := ?line, cp_client := c', cp_phase := Reading r\<rparr>"
  have "client_prog_main net ?p = Inr ?p'" using c'(1) l y(2) by (simp add: client_prog_main_def getline_def)
  moreover have "stage net g (length ls) (l @ [0]) r c' (sy_session y) (up y) (down y) 7"
    using c'(2-4) ls(3-5) by (simp add: stage.st_posted)
  then have "sys_inv net g input (y\<lparr>sy_prog := ?p'\<rparr>)"
    using ls m l(1) by (auto simp: sys_inv_def so_far_def)
  ultimately show ?thesis by (intro exI [of _ ?p'] exI [of _ r]) simp
qed

lemma main_takes_line:
  assumes inp: "\<forall>l \<in> set input. 0 \<notin> set l" "length input < 2 ^ 31"
    and y: "sys_inv net g input y" "cp_phase (sy_prog y) = At_Input"
  shows "\<exists>p'. client_prog_main net (sy_prog y) = Inr p' \<and> sys_inv net g input (y\<lparr>sy_prog := p'\<rparr>)
    \<and> (cp_phase p' = Ended \<or> (\<exists>r. cp_phase p' = Reading r) \<and> length (cp_input p') < length (cp_input (sy_prog y)))"
proof -
  let ?p = "sy_prog y"
  obtain ls where ls: "so_far g input ls [] ?p" "ready net (length ls) (cp_client ?p)" "session_idle (sy_session y)"
      "up y = []" "down y = []" "implements (call_fun (sy_session y)) g"
    using at_inputE [OF y inp(2)] by blast
  have over: "sys_inv net g input (y\<lparr>sy_prog := cp_end q\<rparr>) \<and> cp_phase (cp_end q) = Ended"
    if "messages (cp_input ?p) = []" "cp_out q = cp_out ?p" for q
    using that ls by (simp add: sys_inv_def cp_end_def so_far_def)
  show ?thesis
  proof (cases "cp_input ?p")
    case Nil
    then show ?thesis using over y(2) by (simp add: client_prog_main_def messages_Cons)
  next
    case (Cons l rest)
    have nul: "0 \<notin> set l" using inp(1) ls(1) Cons by (auto simp: so_far_def)
    consider "\<not> length l < 1024" | "l = str_bytes ''exit''" | "length l < 1024" "l \<noteq> str_bytes ''exit''" by blast
    then show ?thesis
    proof cases
      case 1
      then show ?thesis using over Cons y(2) by (simp add: client_prog_main_def messages_Cons getline_def)
    next
      case 2
      obtain h where "socket (cp_client ?p) = Some h" "sock_open net h" using ls(2) by (auto simp: ready_def client_up_def)
      then have "client_main_line net (map Some (l @ [0]) @ w) (cp_client ?p) = Inr (Line_Exit, cp_client ?p)" for w
        using 2 cstr_at_unterminated [OF nul, of "Some 0 # w"] by (simp add: client_main_line_def is_open_yes)
      moreover have "length l < 1024" using 2 by (simp add: str_bytes_def)
      ultimately show ?thesis using over Cons y(2) 2 by (simp add: client_prog_main_def messages_Cons getline_def)
    next
      case 3
      from main_sends_line [OF inp(2) y Cons nul 3] Cons show ?thesis by fastforce
    qed
  qed
qed

text \<open>The main thread inside \<open>read\<close>.\<close>

lemma answer_is_printed:
  assumes ls: "so_far g input ls [l] (sy_prog y)" "stage net g (length ls) (l @ [0]) r (cp_client (sy_prog y)) (sy_session y) (up y) (down y) 0"
      "implements (call_fun (sy_session y)) g"
    and d: "length ls < 2 ^ 31 - 1" and ab: "body_ok (answer_body g (l @ [0]))" and y: "cp_phase (sy_prog y) = Reading r"
  shows "\<exists>p'. client_prog_main net (sy_prog y) = Inr p' \<and> sys_inv net g input (y\<lparr>sy_prog := p'\<rparr>)
    \<and> cp_phase p' = At_Input \<and> cp_input p' = cp_input (sy_prog y)"
  using ls(2)
proof cases
  case st_received
  let ?p = "sy_prog y" and ?c = "cp_client (sy_prog y)"
  obtain c' where c': "client_read_poll r ?c = Inr (True, c')" "client_main_report (Some r) c' = Inr (reported g l, c')"
      "ready net (Suc (length ls)) c'"
    using poll_done [OF st_received(3) d st_received(4) ab] unfolding reported_def by blast
  let ?p' = "?p\<lparr>cp_phase := At_Input, cp_client := c', cp_out := cp_out ?p @ [reported g l]\<rparr>"
  have "client_prog_main net ?p = Inr ?p'" using c'(1,2) y by (simp add: client_prog_main_def)
  moreover have "sys_inv net g input (y\<lparr>sy_prog := ?p'\<rparr>)"
    using ls(1,3) c'(3) st_received by (auto simp: sys_inv_def so_far_def intro!: exI [of _ "ls @ [l]"])
  ultimately show ?thesis by (intro exI [of _ ?p']) simp
qed simp_all

lemma main_polls:
  assumes inp: "length input < 2 ^ 31" and y: "sys_inv net g input y" "cp_phase (sy_prog y) = Reading r"
  shows "\<exists>p'. client_prog_main net (sy_prog y) = Inr p' \<and> sys_inv net g input (y\<lparr>sy_prog := p'\<rparr>)"
proof -
  let ?p = "sy_prog y" and ?c = "cp_client (sy_prog y)"
  obtain ls l n where ls: "so_far g input ls [l] ?p" "stage net g (length ls) (l @ [0]) r ?c (sy_session y) (up y) (down y) n"
      "implements (call_fun (sy_session y)) g" and d: "length ls < 2 ^ 31 - 1" and ab: "body_ok (answer_body g (l @ [0]))"
    using readingE [OF y inp] by blast
  have wait: ?thesis if "client_read_poll r ?c = Inr (False, ?c)"
    using that y by (intro exI [of _ ?p]) (simp add: client_prog_main_def)
  show ?thesis using ls(2)
  proof cases
    case st_received
    then show ?thesis using answer_is_printed [OF ls(1) _ ls(3) d ab y(2)] ls(2) by auto
  qed (auto intro!: wait elim!: poll_waits simp: slot_waits_def slot_filling_def)
qed

lemma ready_client:
  assumes s: "ready net d c" "d < 2 ^ 31" and i: "i < length (io_queue c)"
    and k: "client_completes c (io_queue c ! i) k" "client_io (io_queue c ! i) k ([], []) (x', y')"
  shows "\<exists>c'. client_complete net i k c = Inr c' \<and> ready net d c' \<and> x' = [] \<and> y' = []"
proof (cases "is_timer (io_queue c ! i)")
  case True
  have "client_up net d [Op_Read_Head] c" using s(1) by (simp add: ready_def)
  from timer_step [OF this s(2) i True k] s(1) show ?thesis unfolding ready_def undisturbed_def by metis
next
  case False
  have "io_queue c ! i = Op_Read_Head" using op_left(2) [of net d "[Op_Read_Head]" c, OF _ _ i False] s(1) by (simp add: ready_def)
  then show ?thesis using k by (cases k) (simp_all add: RPCStructHead_data_len_def)
qed

lemma client_runs_on:
  assumes net: "asio_net net" and inp: "length input < 2 ^ 31" and y: "sys_inv net g input y" "cp_phase (sy_prog y) \<noteq> Ended"
    and i: "i < length (io_queue (cp_client (sy_prog y)))"
    and k: "client_completes (cp_client (sy_prog y)) (io_queue (cp_client (sy_prog y)) ! i) k"
      "client_io (io_queue (cp_client (sy_prog y)) ! i) k (up y, down y) (u, d)"
  shows "\<exists>c. client_complete net i k (cp_client (sy_prog y)) = Inr c
    \<and> sys_inv net g input (y\<lparr>sy_prog := (sy_prog y)\<lparr>cp_client := c\<rparr>, up := u, down := d\<rparr>)"
proof (cases "cp_phase (sy_prog y)")
  case At_Input
  obtain ls where ls: "so_far g input ls [] (sy_prog y)" "ready net (length ls) (cp_client (sy_prog y))" "session_idle (sy_session y)"
      "up y = []" "down y = []" "implements (call_fun (sy_session y)) g" "length ls < 2 ^ 31"
    using at_inputE [OF y(1) At_Input inp] .
  from ready_client [OF ls(2,7) i k(1)] k(2) ls(4,5) obtain c where
    "client_complete net i k (cp_client (sy_prog y)) = Inr c" "ready net (length ls) c" "u = []" "d = []" by auto
  then show ?thesis using At_Input ls by (auto simp: sys_inv_def so_far_def)
next
  case (Reading r)
  obtain ls l n where ls: "so_far g input ls [l] (sy_prog y)"
      "stage net g (length ls) (l @ [0]) r (cp_client (sy_prog y)) (sy_session y) (up y) (down y) n"
      "implements (call_fun (sy_session y)) g" and b: "length ls < 2 ^ 31 - 1" "body_ok (answer_body g (l @ [0]))"
    using readingE [OF y(1) Reading inp] by blast
  from stage_client [OF net b ls(2) i k] obtain c n' where
    "client_complete net i k (cp_client (sy_prog y)) = Inr c" "stage net g (length ls) (l @ [0]) r c (sy_session y) u d n'" by blast
  then show ?thesis using Reading ls by (auto simp: sys_inv_def so_far_def)
qed (use y in simp)

lemma session_runs_on:
  assumes inp: "length input < 2 ^ 31" and y: "sys_inv net g input y" and i: "i < length (in_flight (sy_session y))"
    and k: "op_completes (in_flight (sy_session y) ! i) k" "session_io (in_flight (sy_session y) ! i) k (up y, down y) (u, d)"
  shows "\<exists>v. session_complete True i k (sy_session y) = Inr v \<and> sys_inv net g input (y\<lparr>sy_session := v, up := u, down := d\<rparr>)"
proof (cases "cp_phase (sy_prog y)")
  case (Reading r)
  obtain ls l n where ls: "so_far g input ls [l] (sy_prog y)"
      "stage net g (length ls) (l @ [0]) r (cp_client (sy_prog y)) (sy_session y) (up y) (down y) n"
      "implements (call_fun (sy_session y)) g" and b: "body_ok (l @ [0])"
    using readingE [OF y Reading inp] by blast
  from stage_session [OF b ls(3,2) i k] obtain v n' where "session_complete True i k (sy_session y) = Inr v"
    "stage net g (length ls) (l @ [0]) r (cp_client (sy_prog y)) v u d n'" "call_fun v = call_fun (sy_session y)" by blast
  then show ?thesis using Reading ls by (auto simp: sys_inv_def)
next
  case At_Input
  then have "in_flight (sy_session y) ! i = Read_Head" "up y = []" using y i by (auto simp: sys_inv_def session_idle_def)
  then show ?thesis using k by (cases k) (simp_all add: RPCStructHead_data_len_def)
next
  case Ended
  then have "in_flight (sy_session y) ! i = Read_Head" "up y = []" using y i by (auto simp: sys_inv_def session_idle_def)
  then show ?thesis using k by (cases k) (simp_all add: RPCStructHead_data_len_def)
qed

definition sys_ok :: "net \<Rightarrow> (byte list \<Rightarrow> byte list option) \<Rightarrow> byte list list \<Rightarrow> rpc_system res \<Rightarrow> bool" where
  "sys_ok net g input r \<longleftrightarrow> (case r of Inl e \<Rightarrow> False | Inr y \<Rightarrow> sys_inv net g input y)"

lemma sys_step_ok:
  assumes net: "asio_net net" and inp: "\<forall>l \<in> set input. 0 \<notin> set l" "length input < 2 ^ 31" and st: "sys_step net r r'" "sys_ok net g input r"
  shows "sys_ok net g input r'"
  using st
proof (induction rule: sys_step.induct)
  case (sys_main y)
  then have y: "sys_inv net g input y" by (simp add: sys_ok_def)
  show ?case
  proof (cases "cp_phase (sy_prog y)")
    case At_Input
    with main_takes_line [OF inp y] show ?thesis by (auto simp: sys_ok_def)
  next
    case (Reading r)
    with main_polls [OF inp(2) y] show ?thesis by (auto simp: sys_ok_def)
  next
    case Ended
    then show ?thesis using y by (simp add: sys_ok_def client_prog_main_def)
  qed
next
  case (sys_client y i k u d)
  then have "sys_inv net g input y" by (simp add: sys_ok_def)
  from client_runs_on [OF net inp(2) this sys_client(1-4)] show ?case by (auto simp: sys_ok_def)
next
  case (sys_session i y k u d)
  then have "sys_inv net g input y" by (simp add: sys_ok_def)
  from session_runs_on [OF inp(2) this sys_session(1-3)] show ?case by (auto simp: sys_ok_def)
qed

section \<open>The conversation goes on\<close>

lemma waits_index:
  assumes "waits net d ops r P c" "op \<in> set ops"
  obtains i where "i < length (io_queue c)" "io_queue c ! i = op"
proof -
  have "op \<in> set (pending (io_queue c))" using assms by (simp add: waits_def client_up_def)
  then have "op \<in> set (io_queue c)" by (simp add: pending_def)
  then show thesis using that by (metis in_set_conv_nth)
qed

definition moved :: "rpc_system \<Rightarrow> client_loop \<Rightarrow> link_session \<Rightarrow> byte list \<Rightarrow> byte list \<Rightarrow> rpc_system" where
  "moved y c v u w = y\<lparr>sy_prog := (sy_prog y)\<lparr>cp_client := c\<rparr>, sy_session := v, up := u, down := w\<rparr>"

lemma moved_by_client:
  assumes "cp_phase (sy_prog y) \<noteq> Ended" "i < length (io_queue c)" "client_completes c (io_queue c ! i) k"
    "client_io (io_queue c ! i) k (u, w) (u', w')" "client_complete net i k c = Inr c'"
    "cp_client (sy_prog y) = c" "up y = u" "down y = w"
  shows "sys_step net (Inr y) (Inr (moved y c' (sy_session y) u' w'))"
  using sys_client [of y i k u' w' net] assms by (cases y) (simp add: moved_def)

lemma moved_by_session:
  assumes "i < length (in_flight v)" "op_completes (in_flight v ! i) k"
    "session_io (in_flight v ! i) k (u, w) (u', w')" "session_complete True i k v = Inr v'" "sy_session y = v" "up y = u" "down y = w"
  shows "sys_step net (Inr y) (Inr (moved y (cp_client (sy_prog y)) v' u' w'))"
  using sys_session [of i y k u' w' net] assms by (cases y) (simp add: moved_def)

text \<open>The next handler for a message can run, and brings it one stage further.\<close>

lemma client_advances:
  assumes net: "asio_net net" and d: "d < 2 ^ 31 - 1" and bd: "body_ok bd" "body_ok (answer_body g bd)" "implements (call_fun v) g"
    and s: "stage net g d bd r c v u w (Suc n)"
    and n: "n \<in> {0, 1, 5, 6}" and y: "cp_phase (sy_prog y) \<noteq> Ended" "cp_client (sy_prog y) = c" "sy_session y = v" "up y = u" "down y = w"
  shows "\<exists>c' v' u' w'. sys_step net (Inr y) (Inr (moved y c' v' u' w')) \<and> stage net g d bd r c' v' u' w' n \<and> call_fun v' = call_fun v"
  using s
proof cases
  case (st_posted q)
  obtain i where i: "i < length (io_queue c)" "io_queue c ! i = Post_Write" using waits_index [OF st_posted(4)] by auto
  obtain c' where c': "client_complete net i (Done []) c = Inr c'"
      "waits net d [Op_Read_Head, Op_Write (map Some (wire_for (Suc d) bd))] r slot_waits c'" "contents (write_msg_queue c') = []"
    using posted_sends [OF net st_posted(4) d st_posted(5,6) i] .
  from moved_by_client [OF y(1) i(1) _ _ c'(1) y(2,4,5), of u w] i(2)
  have "sys_step net (Inr y) (Inr (moved y c' v u w))" using y(3) by simp
  then show ?thesis using c'(2,3) st_posted stage.st_writing by fastforce
next
  case st_writing
  let ?b = "map Some (wire_for (Suc d) bd)"
  obtain i where i: "i < length (io_queue c)" "io_queue c ! i = Op_Write ?b" using waits_index [OF st_writing(4)] by auto
  obtain c' where c': "client_complete net i (Done []) c = Inr c'" "waits net d [Op_Read_Head] r slot_waits c'" "contents (write_msg_queue c') = []"
    using write_is_done [OF st_writing(4) d st_writing(5) i] .
  from moved_by_client [OF y(1) i(1) _ _ c'(1) y(2,4,5), of "wire_for (Suc d) bd" w] i(2)
  have "sys_step net (Inr y) (Inr (moved y c' v (wire_for (Suc d) bd) w))" using y(3) st_writing(1) by (simp add: comp_def)
  then show ?thesis using c'(2,3) st_writing stage.st_sent by fastforce
next
  case st_answered
  let ?ab = "answer_body g bd"
  obtain i where i: "i < length (io_queue c)" "io_queue c ! i = Op_Read_Head" using waits_index [OF st_answered(4)] by auto
  obtain c' where c': "client_complete net i (Done (RPCStructHead_data (head_for (Suc d) ?ab))) c = Inr c'"
      "waits net d [Op_Read_Msg r (8 + length ?ab)] r (slot_filling (head_for (Suc d) ?ab)) c'" "write_msg_queue c' = write_msg_queue c"
    using header_arrives [OF net st_answered(4) d bd(2) i] .
  from moved_by_client [OF y(1) i(1) _ _ c'(1) y(2,4,5), of u "take 8 meta_s @ ?ab"] i(2)
  have "sys_step net (Inr y) (Inr (moved y c' v u (take 8 meta_s @ ?ab)))"
    using y(3) st_answered(2) by (simp add: wire_for_def RPCStructHead_data_len_def)
  then show ?thesis using c'(2,3) st_answered stage.st_receiving by fastforce
next
  case st_receiving
  let ?ab = "answer_body g bd"
  obtain i where i: "i < length (io_queue c)" "io_queue c ! i = Op_Read_Msg r (8 + length ?ab)" using waits_index [OF st_receiving(4)] by auto
  obtain c' where c': "client_complete net i (Done (take 8 meta_s @ ?ab)) c = Inr c'"
      "waits net d [Op_Read_Head] r (slot_filled (head_for (Suc d) ?ab) ?ab) c'" "write_msg_queue c' = write_msg_queue c"
    using body_arrives [OF net st_receiving(4) d bd(2) i] .
  from moved_by_client [OF y(1) i(1) _ _ c'(1) y(2,4,5), of u "[]"] i(2)
  have "sys_step net (Inr y) (Inr (moved y c' v u []))" using y(3) st_receiving(2) by simp
  then show ?thesis using c'(2,3) st_receiving stage.st_received by fastforce
qed (use n in simp_all)

lemma session_advances:
  assumes net: "asio_net net" and d: "d < 2 ^ 31 - 1" and bd: "body_ok bd" "body_ok (answer_body g bd)" "implements (call_fun v) g"
    and s: "stage net g d bd r c v u w (Suc n)"
    and n: "n \<in> {2, 3, 4}" and y: "cp_phase (sy_prog y) \<noteq> Ended" "cp_client (sy_prog y) = c" "sy_session y = v" "up y = u" "down y = w"
  shows "\<exists>c' v' u' w'. sys_step net (Inr y) (Inr (moved y c' v' u' w')) \<and> stage net g d bd r c' v' u' w' n \<and> call_fun v' = call_fun v"
  using s
proof cases
  case st_sent
  obtain v' where v': "session_complete True 0 (Done (RPCStructHead_data (head_for (Suc d) bd))) v = Inr v'"
      "taken (head_for (Suc d) bd) (8 + length bd) v'" "call_fun v' = call_fun v"
    using session_takes [OF st_sent(6) bd(1)] .
  from moved_by_session [OF _ _ _ v'(1) y(3,4,5), of "take 8 meta_s @ bd" w net]
  have "sys_step net (Inr y) (Inr (moved y c v' (take 8 meta_s @ bd) w))"
    using st_sent(1,6) y(2) by (simp add: session_idle_def wire_for_def RPCStructHead_data_len_def)
  then show ?thesis using v'(2,3) st_sent stage.st_taken by fastforce
next
  case st_taken
  obtain v' where v': "session_complete True 0 (Done (take 8 meta_s @ bd)) v = Inr v'"
      "answering (wire_for (Suc d) (answer_body g bd)) v'" "call_fun v' = call_fun v"
    using session_answers [OF st_taken(6) bd(1,3)] .
  from moved_by_session [OF _ _ _ v'(1) y(3,4,5), of "[]" w net]
  have "sys_step net (Inr y) (Inr (moved y c v' [] w))" using st_taken(1,6) y(2) by (auto simp: taken_def)
  then show ?thesis using v'(2,3) st_taken stage.st_answering by fastforce
next
  case st_answering
  let ?a = "wire_for (Suc d) (answer_body g bd)"
  obtain v' where v': "session_complete True 0 (Done []) v = Inr v'" "session_idle v'" "call_fun v' = call_fun v"
    using session_is_sent [OF st_answering(6)] .
  from moved_by_session [OF _ _ _ v'(1) y(3,4,5), of u ?a net]
  have "sys_step net (Inr y) (Inr (moved y c v' u ?a))" using st_answering(2,6) y(2) by (simp add: answering_def comp_def)
  then show ?thesis using v'(2,3) st_answering stage.st_answered by fastforce
qed (use n in simp_all)

lemma stage_advances:
  assumes net: "asio_net net" and d: "d < 2 ^ 31 - 1" and bd: "body_ok bd" "body_ok (answer_body g bd)" "implements (call_fun v) g"
    and s: "stage net g d bd r c v u w (Suc n)"
    and y: "cp_phase (sy_prog y) \<noteq> Ended" "cp_client (sy_prog y) = c" "sy_session y = v" "up y = u" "down y = w"
  shows "\<exists>c' v' u' w'. sys_step net (Inr y) (Inr (moved y c' v' u' w')) \<and> stage net g d bd r c' v' u' w' n \<and> call_fun v' = call_fun v"
proof -
  have "Suc n \<le> 7" using s by cases simp_all
  then have "n \<in> {0, 1, 5, 6} \<or> n \<in> {2, 3, 4}" by (simp; arith)
  then show ?thesis using client_advances [OF net d bd s _ y] session_advances [OF net d bd s _ y] by blast
qed

lemma moved_sel [simp]:
  "cp_phase (sy_prog (moved y c v u w)) = cp_phase (sy_prog y)" "cp_client (sy_prog (moved y c v u w)) = c"
  "cp_input (sy_prog (moved y c v u w)) = cp_input (sy_prog y)" "cp_out (sy_prog (moved y c v u w)) = cp_out (sy_prog y)"
  "sy_session (moved y c v u w) = v" "up (moved y c v u w) = u" "down (moved y c v u w) = w"
  by (simp_all add: moved_def)

lemma main_runs: "client_prog_main net (sy_prog y) = Inr p' \<Longrightarrow> sys_step net (Inr y) (Inr (y\<lparr>sy_prog := p'\<rparr>))"
  using sys_main [of net y] by simp

text \<open>The answer to the message under way can always be printed.\<close>

lemma answer_comes:
  assumes net: "asio_net net" and ls: "so_far g input ls [l] (sy_prog y)"
      "stage net g (length ls) (l @ [0]) r (cp_client (sy_prog y)) (sy_session y) (up y) (down y) n"
      "implements (call_fun (sy_session y)) g" "cp_phase (sy_prog y) = Reading r"
    and d: "length ls < 2 ^ 31 - 1" and bd: "body_ok (l @ [0])" "body_ok (answer_body g (l @ [0]))"
  shows "\<exists>y'. (sys_step net)\<^sup>*\<^sup>* (Inr y) (Inr y') \<and> sys_inv net g input y' \<and> cp_phase (sy_prog y') = At_Input
    \<and> cp_input (sy_prog y') = cp_input (sy_prog y)"
  using ls
proof (induction n arbitrary: y)
  case 0
  from answer_is_printed [OF 0(1,2,3) d bd(2) 0(4)] obtain p' where
    p': "client_prog_main net (sy_prog y) = Inr p'" "sys_inv net g input (y\<lparr>sy_prog := p'\<rparr>)" "cp_phase p' = At_Input"
      "cp_input p' = cp_input (sy_prog y)" by blast
  from main_runs [OF p'(1)] p'(2-4) show ?case by (intro exI [of _ "y\<lparr>sy_prog := p'\<rparr>"]) auto
next
  case (Suc n)
  have "cp_phase (sy_prog y) \<noteq> Ended" using Suc.prems(4) by simp
  from stage_advances [OF net d bd Suc.prems(3,2) this refl refl refl refl] obtain c v u w where
    st: "sys_step net (Inr y) (Inr (moved y c v u w))" "stage net g (length ls) (l @ [0]) r c v u w n" "call_fun v = call_fun (sy_session y)"
    by blast
  have "so_far g input ls [l] (sy_prog (moved y c v u w))" using Suc.prems(1) by (simp add: so_far_def)
  from Suc.IH [OF this] st(2,3) Suc.prems(3,4) obtain y' where
    "(sys_step net)\<^sup>*\<^sup>* (Inr (moved y c v u w)) (Inr y')" "sys_inv net g input y'" "cp_phase (sy_prog y') = At_Input"
    "cp_input (sy_prog y') = cp_input (sy_prog y)" by auto
  with st(1) show ?case by (blast intro: converse_rtranclp_into_rtranclp)
qed

lemma reading_ends:
  assumes net: "asio_net net" and inp: "length input < 2 ^ 31" and y: "sys_inv net g input y" "cp_phase (sy_prog y) = Reading r"
  obtains y' where "(sys_step net)\<^sup>*\<^sup>* (Inr y) (Inr y')" "sys_inv net g input y'" "cp_phase (sy_prog y') = At_Input"
    "cp_input (sy_prog y') = cp_input (sy_prog y)"
proof -
  obtain ls l n where ls: "so_far g input ls [l] (sy_prog y)"
      "stage net g (length ls) (l @ [0]) r (cp_client (sy_prog y)) (sy_session y) (up y) (down y) n"
      "implements (call_fun (sy_session y)) g" "length ls < 2 ^ 31 - 1" "body_ok (l @ [0])" "body_ok (answer_body g (l @ [0]))"
    using readingE [OF y inp] .
  from answer_comes [OF net ls(1-3) y(2) ls(4-6)] that show thesis by blast
qed

lemma input_ends:
  assumes net: "asio_net net" and inp: "\<forall>l \<in> set input. 0 \<notin> set l" "length input < 2 ^ 31"
    and y: "sys_inv net g input y" "cp_phase (sy_prog y) = At_Input"
  shows "\<exists>y'. (sys_step net)\<^sup>*\<^sup>* (Inr y) (Inr y') \<and> sys_inv net g input y' \<and> cp_phase (sy_prog y') = Ended"
  using y
proof (induction "length (cp_input (sy_prog y))" arbitrary: y rule: less_induct)
  case less
  from main_takes_line [OF inp less.prems] obtain p' where
    p': "client_prog_main net (sy_prog y) = Inr p'" "sys_inv net g input (y\<lparr>sy_prog := p'\<rparr>)"
      "cp_phase p' = Ended \<or> (\<exists>r. cp_phase p' = Reading r) \<and> length (cp_input p') < length (cp_input (sy_prog y))" by blast
  let ?y = "y\<lparr>sy_prog := p'\<rparr>"
  have st: "sys_step net (Inr y) (Inr ?y)" using main_runs [OF p'(1)] .
  from p'(3) show ?case
  proof (elim disjE conjE exE)
    assume "cp_phase p' = Ended"
    then show ?thesis using st p'(2) by (intro exI [of _ ?y]) auto
  next
    fix r assume r: "cp_phase p' = Reading r" "length (cp_input p') < length (cp_input (sy_prog y))"
    then have "cp_phase (sy_prog ?y) = Reading r" by simp
    from reading_ends [OF net inp(2) p'(2) this] obtain y1 where
      y1: "(sys_step net)\<^sup>*\<^sup>* (Inr ?y) (Inr y1)" "sys_inv net g input y1" "cp_phase (sy_prog y1) = At_Input"
        "cp_input (sy_prog y1) = cp_input (sy_prog ?y)" .
    have "length (cp_input (sy_prog y1)) < length (cp_input (sy_prog y))" using r(2) y1(4) by simp
    from less.hyps [OF this y1(2,3)] obtain y2 where
      "(sys_step net)\<^sup>*\<^sup>* (Inr y1) (Inr y2)" "sys_inv net g input y2" "cp_phase (sy_prog y2) = Ended" by blast
    then show ?thesis using st y1(1) by (meson converse_rtranclp_into_rtranclp rtranclp_trans)
  qed
qed

lemma conversation_ends:
  assumes net: "asio_net net" and inp: "\<forall>l \<in> set input. 0 \<notin> set l" "length input < 2 ^ 31" and y: "sys_inv net g input y"
  shows "\<exists>y'. (sys_step net)\<^sup>*\<^sup>* (Inr y) (Inr y') \<and> sys_inv net g input y' \<and> cp_phase (sy_prog y') = Ended"
proof (cases "cp_phase (sy_prog y)")
  case At_Input
  with input_ends [OF net inp y] show ?thesis by blast
next
  case (Reading r)
  from reading_ends [OF net inp(2) y this] obtain y1 where
    "(sys_step net)\<^sup>*\<^sup>* (Inr y) (Inr y1)" "sys_inv net g input y1" "cp_phase (sy_prog y1) = At_Input" .
  then show ?thesis using input_ends [OF net inp, of g y1] by (meson rtranclp_trans)
next
  case Ended
  then show ?thesis using y by (intro exI [of _ y]) simp
qed

section \<open>From the first connection\<close>

lemma connected_ready:
  assumes net: "asio_net net" "addr_ok net addr"
  obtains c where "client_connected net addr prt = Inr c" "ready net 0 c"
proof -
  let ?i = "init_socket (client_loop_init addr prt CSQ_ON)" and ?h = "[Sock_Connect addr (ucast prt)]"
  let ?s = "log_timer (?i\<lparr>clietn_status := CT_CONN, socket := Some ?h, io_queue := [Op_Connect]\<rparr>)"
  have new: "client_loop_new net addr prt CSQ_ON = Inr ?s"
    using net(2) by (simp add: client_loop_new_def do_connect_def sock_async_def issue_def init_socket_def client_loop_init_def)
  have "client_begins net (client_loop_new net addr prt CSQ_ON)" by (auto simp: client_begins_def)
  then have inv: "client_inv ?s" using client_new_inv new by fastforce
  let ?t = "?s\<lparr>clietn_status := CT_CONN_OK, socket := Some (?h @ [Sock_Read 12]), io_queue := [Log_Timer, Op_Read_Head]\<rparr>"
  let ?c = "issue Erase_Timer (?t\<lparr>e_timer := e_timer ?t @ [Expires_From_Now (e_timer_i ?t), Async_Wait]\<rparr>)"
  have del: "contents (del_reqid_list ?s) = []" "SafeQueue_inv (del_reqid_list ?s)" "contents (write_msg_queue ?s) = []"
    by (simp_all add: log_timer_def issue_def init_socket_def client_loop_init_def new_queue_inv)
  have "erase_loop 0 ?t = Inr ?t" using sq.size_law [OF del(2)] del(1) by (simp add: erase_loop.simps)
  then have cc: "client_complete net 0 (Done []) ?s = Inr ?c"
    by (simp add: client_complete_def log_timer_def issue_def handle_connect_def do_read_head_def sock_async_def erase_msg_timer_def
        RPCStructHead_data_len_def)
  have "client_inv ?c"
    using complete_inv [OF inv, of 0 "Done []" net] cc by (simp add: log_timer_def issue_def)
  then have "client_up net 0 [Op_Read_Head] ?c"
    using del(1) asio_open(2) [OF net(1), of "[]" addr "ucast prt"] asio_open(4) [OF net(1), of ?h 12]
    by (simp add: client_up_def issue_def log_timer_def init_socket_def client_loop_init_def)
  then have "ready net 0 ?c" using del(3) by (simp add: ready_def issue_def log_timer_def init_socket_def client_loop_init_def)
  then show thesis using that new cc by (simp add: client_connected_def)
qed

definition sys_hyps :: "net \<Rightarrow> string \<Rightarrow> callback_fun option \<Rightarrow> (byte list \<Rightarrow> byte list option) \<Rightarrow> byte list list \<Rightarrow> bool" where
  "sys_hyps net addr cf g input \<longleftrightarrow> asio_net net \<and> addr_ok net addr \<and> implements cf g \<and> (\<forall>l \<in> set input. 0 \<notin> set l)
     \<and> length input < 2 ^ 31"

interpretation sys_runs: inductive_invariant "sys_begins net addr prt cf input" "sys_step net"
    "\<lambda>r. sys_hyps net addr cf g input \<longrightarrow> sys_ok net g input r"
  for net addr prt cf g input
proof unfold_locales
  fix r assume "sys_begins net addr prt cf input r"
  moreover have "ready net 0 c \<Longrightarrow> implements cf g \<Longrightarrow> sys_inv net g input \<lparr>sy_prog = client_prog_new input c,
      sy_session = session_start (session_register_callback cf link_session_new), up = [], down = []\<rparr>" for c
    by (auto simp: sys_inv_def client_prog_new_def so_far_def session_start_def session_do_read_def session_register_callback_def
        link_session_new_def session_idle_def)
  moreover obtain c where "client_connected net addr prt = Inr c" "ready net 0 c" if "asio_net net" "addr_ok net addr"
    using connected_ready [of net addr prt] by blast
  ultimately show "sys_hyps net addr cf g input \<longrightarrow> sys_ok net g input r"
    by (auto simp: sys_begins_def sys_hyps_def sys_ok_def)
qed (auto simp: sys_hyps_def intro: sys_step_ok)

lemma sys_reach:
  assumes "sys_hyps net addr cf g input" "reach (sys_begins net addr prt cf input) (sys_step net) r"
  obtains y where "r = Inr y" "sys_inv net g input y"
  using sys_runs.reach_inv [OF assms(2), of g] assms(1) by (auto simp: sys_ok_def split: sum.splits)

lemma sys_inv_out:
  assumes "sys_inv net g input y"
  shows "\<exists>n. cp_out (sy_prog y) = map (reported g) (take n (messages input))"
proof (cases "cp_phase (sy_prog y)")
  case At_Input
  then obtain ls where "so_far g input ls [] (sy_prog y)" using assms by (auto simp: sys_inv_def)
  then show ?thesis by (intro exI [of _ "length ls"]) (simp add: so_far_def)
next
  case (Reading r)
  then obtain ls l where "so_far g input ls [l] (sy_prog y)" using assms by (auto simp: sys_inv_def)
  then show ?thesis by (intro exI [of _ "length ls"]) (simp add: so_far_def)
next
  case Ended
  then show ?thesis using assms by (intro exI [of _ "length (messages input)"]) (simp add: sys_inv_def)
qed

end
