(* ===== verification/Spec2Isabelle.thy ===== *)
theory Spec2Isabelle
  imports Prelude ClientMsg SafeQueue SafeQueueConc SafeMap SafeMapConc ClientError Server ClientLoop ClientErase ClientRuns
    ClientPool Mains Programs System Exchange Conversation
begin

text \<open>
  A verification of a request/response library on Boost.Asio: a client that sends messages over one TCP
  connection and matches the answers by request id, a pool of such clients, a server that answers each
  message by a callback or an echo, and the containers and message objects they share.

  \<^bold>\<open>The program.\<close> A message on the wire is a header of three \<open>int\<close>s (request id, body size, meta size), the
  meta bytes and the body. \<open>RPCStruct\<close> (\<open>include/client_msg.hpp\<close>) owns the buffer, a status and a timeout
  timer. \<open>client_loop\<close> (\<open>include/client_async_loop.h\<close>) keeps a send queue of such objects, a map from request
  ids to receive slots, and a clean-up list; \<open>write\<close> fills the first two, the event loop sends and
  receives, \<open>read\<close> polls the slot, and a timer removes slots that were read. The queue is the linked
  \<open>SafeQueue\<close> with one lock per end (\<open>include/safequeue.hpp\<close>), the map the locked \<open>SafeMap\<close> with its copying
  iterator (\<open>include/safemap.hpp\<close>). \<open>client_loop_pool\<close> (\<open>include/client_async_loop_pool.h\<close>) holds one client
  per server and rotates over them. \<open>link_server\<close> and \<open>link_session\<close> (\<open>include/server_async_loop.h\<close>) accept
  connections and serve them. \<open>error_msg\<close> (\<open>lib_src/pub/client_error.cpp\<close>) names error codes. Three
  programs use these: \<open>src/server/server.cpp\<close>, \<open>src/client_loop/client.cpp\<close> and
  \<open>src/client_loop_pool/client_pool.cpp\<close>.

  \<^bold>\<open>The model.\<close>
  \<^item> Theory \<open>Prelude\<close>: \<open>int\<close> as a 32-bit word read with \<^const>\<open>sint\<close>; faults and the result type \<open>res\<close> with
    its \<open>rbind\<close> (an assertion, a null or freed pointer, an access outside an object, a decision on an
    uninitialised value, an exception are values of a sum); memory as a list of cells that may be
    uninitialised; \<open>memcpy\<close>, C strings, decimal text; two interfaces as locales, fixed-width codecs and
    transition systems with an inductive invariant.
  \<^item> Theory \<open>ClientMsg\<close>: \<open>RPCStructHead\<close> and \<open>RPCStruct\<close>, one definition per method. \<open>frame\<close> says that an object
    holds a given meta and body; the lemmas show that building, receiving, printing and serialising agree
    on it, that \<open>new_data\<close> keeps the object well-formed, and when a reused object overflows.
  \<^item> Theory \<open>SafeQueue\<close>: the queue on an explicit heap of nodes, the contract of a queue as a locale and
    its interpretation, refinement to lists, and the destructor. Theory \<open>SafeQueueConc\<close>: \<open>push\<close> and \<open>pop\<close>
    as step relations at the level of single accesses under the two locks, for any number of threads.
  \<^item> Theory \<open>SafeMap\<close>: \<open>std::map\<close> as a strictly sorted association list, the map methods and the iterator;
    the contract of a map as a locale and its interpretation; termination of the iteration. Theory
    \<open>SafeMapConc\<close>: the methods interleaved between any two accesses, with the locks of any number of maps:
    they are atomic, except for assignments through \<open>operator[]\<close>, and \<open>operator=\<close> can deadlock.
  \<^item> Theory \<open>ClientError\<close>: the whole error table and its lookup.
  \<^item> Theory \<open>Server\<close>: \<open>CallStruct\<close>, the handlers of a session and the acceptor. An asynchronous call adds an
    operation to a list; an event completes any of them, with data or an error. A session refines an
    abstract server function; it has at most one read pending; the acceptor always accepts.
  \<^item> Theory \<open>ClientLoop\<close>: every method and handler of \<open>client_loop\<close> over a store of message objects, in the
    same style. Theory \<open>ClientErase\<close>: the clean-up pass as a function on the abstract list and map.
    Theory \<open>ClientRuns\<close>: all interleavings of completions and calls as a step relation, with the invariant
    that ties the map, the objects and the pending timeouts together.
  \<^item> Theory \<open>ClientPool\<close>: the pool, its hash, rotation, reading and writing, and its invariant over the
    steps of the pool and of its clients.
  \<^item> Theory \<open>Mains\<close>: the arguments, callback and message rounds of the three programs. Theory \<open>Programs\<close>: the
    programs as a whole, with the places where they block: the server's ports and sessions under one event
    loop, the client's input loop, the tests of the pool with their threads.
  \<^item> Theory \<open>System\<close>: the client program, the event loop of its client, a session of the server and the bytes
    between them as one transition system, and what each handler does while a message is under way. Theory
    \<open>Conversation\<close>: the stages of a message, what can happen in each, and that the next one can always be
    reached.
  \<^item> Theory \<open>Exchange\<close>: one message of any size and its answer as a run of calls and completions, with other
    operations pending in the client.
  \<^item> This theory: what the client program prints over a whole conversation with a server.

  \<^bold>\<open>Parameters.\<close> Boost.Asio is not part of the sources. A socket is the history of the calls made on it, and
  the record \<open>net\<close> says for a history whether the socket is open, whether a call throws and whether an
  address parses; \<open>asio_net\<close> states the documented behaviour the client relies on (closed at first, opened
  by \<open>async_connect\<close>, closed by \<open>close\<close>), and \<open>net_ref\<close> is a network that has it. Which pending operation
  completes, and how, is the choice of the environment: \<open>op_completes\<close> and \<open>client_completes\<close> only say
  that a successful read delivers the requested number of bytes and that a wait ends with an error only
  when its timer was cancelled. In \<open>System\<close> the connection is a pair of byte streams: \<open>client_io\<close> and
  \<open>session_io\<close> say that reads take bytes from the front and writes put theirs at the end, that nothing
  fails and that no request times out. The callback of a server is a function, and \<open>implements\<close> relates it to an
  abstract one; \<open>bind_ok\<close> says whether a port can be bound.

  \<^bold>\<open>Loops.\<close> All definitions are total. The clean-up loop has a measure, the length of its list less the
  counter. The iteration over a map takes fuel, one more than the number of entries, which is proved
  enough. The waits of \<open>read\<close> and \<open>destroy\<close> are modelled by their single pass, since they end only when
  another thread acts: \<open>read_never_stuck\<close> and \<open>destroy_waits_for_unread\<close> say over all runs when they do, and
  \<open>conversation_can_finish\<close> that the client program and a session never block each other. A conversation
  may have any number of lines below the range of \<open>int\<close>, which keeps the request ids distinct.

  \<^bold>\<open>What breaks.\<close> The properties also state faults of the code, each on the path that leads to it: pipelined
  requests, bodies without a NUL, hostile headers, empty callback results, a response with a longer meta,
  the size test before \<open>pop\<close>, the two locks of a map assignment, the reference of \<open>operator[]\<close>, the
  counter, the rotating index and the keys of the pool, the callback of the example server, and the
  exception that a lost peer raises in it.

  \<^bold>\<open>Not modelled.\<close> The bytes a failed read left behind; the release of message objects by their shared
  pointers (objects stay in the store) and handlers that run after \<open>destroy\<close>; interleavings inside the
  calls of the client and of the pool (such a call is atomic in the theories above the containers, and
  the pool's lock does not appear); the thread behind a client of the pool beyond flags and the steps of
  its event loop; the state after a caught exception; the text of log output, except where printing reads
  a buffer; \<open>include/client_error.h\<close>, which is a comment table and one declaration; the manual tests under
  \<open>test/\<close> and the build files. Signed overflow, where the source allows it, is wrap-around, and memory allocation succeeds unless its size is negative.
\<close>

section \<open>A run for the witnesses\<close>

text \<open>Two lines and \<open>exit\<close>, typed into a client that talks to a server without a callback.\<close>

definition two_lines :: "byte list list" where
  "two_lines = [str_bytes ''Hi'', str_bytes ''you'', str_bytes ''exit'', str_bytes ''unsent'']"

lemma two_lines_facts:
  "sys_hyps net_ref ''127.0.0.1'' None (\<lambda>_. None) two_lines"
  "map (reported (\<lambda>_. None)) (messages two_lines) = [Read_Ok (str_bytes ''Hi'') 3, Read_Ok (str_bytes ''you'') 4]"
proof -
  have "addr_ok net_ref ''127.0.0.1''" by (simp add: net_ref_def)
  then show "sys_hyps net_ref ''127.0.0.1'' None (\<lambda>_. None) two_lines"
    by (simp add: sys_hyps_def two_lines_def asio_net_ref implements_def str_bytes_def)
qed (simp add: two_lines_def str_bytes_def messages_Cons reported_def answer_body_def c_str_def)

lemma two_lines_start:
  obtains y where "reach (sys_begins net_ref ''127.0.0.1'' 6688 None two_lines) (sys_step net_ref) (Inr y)"
    "sys_inv net_ref (\<lambda>_. None) two_lines y"
proof -
  let ?r = "rbind (client_connected net_ref ''127.0.0.1'' 6688) (\<lambda>c. Inr \<lparr>sy_prog = client_prog_new two_lines c,
    sy_session = session_start (session_register_callback None link_session_new), up = [], down = []\<rparr>)"
  have r: "reach (sys_begins net_ref ''127.0.0.1'' 6688 None two_lines) (sys_step net_ref) ?r"
    by (rule reach_start) (simp add: sys_begins_def)
  from sys_reach [OF two_lines_facts(1) this] obtain y where "?r = Inr y" "sys_inv net_ref (\<lambda>_. None) two_lines y" .
  with r show thesis by (intro that) simp_all
qed

section \<open>Properties\<close>





end
